(* ===== verification/Prelude.thy ===== *)
theory Prelude
  imports Complex_Main "HOL-Library.Word"
begin

text \<open>
  Prelude: what every component theory shares. JavaScript strings as lists of UTF-16 code
  units, JavaScript numbers as far as the code computes with them, the decimal text of an
  integer, a hint collection, and the two contracts that
  several components meet: a machine whose steps keep an invariant, and a queue of one-shot
  callbacks (timers, animation frames) of which a client owns at most one.
\<close>

named_theorems kit_simps \<open>unfolding rules of the operations of docs/kit.js\<close>

section \<open>JavaScript strings\<close>

text \<open>
  A JavaScript string is a sequence of 16-bit code units. A literal of the source is ASCII
  and is written \<open>lit ''...''\<close>; \<open>code_unit\<close> gives the code unit of one ASCII character.
\<close>

type_synonym jsstr = "16 word list"

definition code_unit :: "char \<Rightarrow> 16 word" where
  "code_unit c = word_of_nat (of_char c)"

definition lit :: "string \<Rightarrow> jsstr" where
  "lit s = map code_unit s"

lemma unat_code_unit: "unat (code_unit c) = of_char c"
proof -
  have "(of_char c :: nat) < 2 ^ 16"
    by (rule less_trans [OF nat_of_char_less_256]) simp
  then show ?thesis
    by (simp add: code_unit_def unsigned_of_nat take_bit_nat_eq_self)
qed

lemma code_unit_inject [simp]: "code_unit c = code_unit d \<longleftrightarrow> c = d"
  by (metis unat_code_unit of_char_eq_iff)

lemma inj_code_unit: "inj code_unit"
  by (simp add: inj_def)

lemma lit_Nil [simp]: "lit [] = []"
  by (simp add: lit_def)

lemma lit_Cons: "lit (c # s) = code_unit c # lit s"
  by (simp add: lit_def)

lemma lit_inject [simp]: "lit s = lit t \<longleftrightarrow> s = t"
  by (simp add: lit_def inj_map_eq_map [OF inj_code_unit])

lemma lit_eq_Nil [simp]: "lit s = [] \<longleftrightarrow> s = []"
  by (simp add: lit_def)

lemma Nil_eq_lit [simp]: "[] = lit s \<longleftrightarrow> s = []"
  by (auto simp: lit_def)

lemma code_unit_in_lit [simp]: "code_unit c \<in> set (lit s) \<longleftrightarrow> c \<in> set s"
  by (auto simp: lit_def)

text \<open>White space: the class \<open>\s\<close> of a regular expression, and what \<open>trim\<close> takes off.\<close>

definition js_space :: "16 word \<Rightarrow> bool" where
  "js_space u \<longleftrightarrow> (let c = unat u in 9 \<le> c \<and> c \<le> 13 \<or> c = 32 \<or> c = 0xA0 \<or> c = 0x1680 \<or>
     0x2000 \<le> c \<and> c \<le> 0x200A \<or> c = 0x2028 \<or> c = 0x2029 \<or> c = 0x202F \<or> c = 0x205F \<or> c = 0x3000 \<or> c = 0xFEFF)"

definition js_trim :: "jsstr \<Rightarrow> jsstr" where
  "js_trim s = rev (dropWhile js_space (rev (dropWhile js_space s)))"

section \<open>JavaScript numbers\<close>

text \<open>
  A JavaScript number as the arithmetic of the kit sees it: the three special values, or a
  finite value. Every finite double is a rational number; the kit only rounds, compares and
  adds small integers, which are exact on them.
\<close>

datatype jsnum = JNaN | JPosInf | JNegInf | JFin rat

text \<open>\<open>Math.round\<close>: the closest integer, a tie towards plus infinity.\<close>

fun math_round :: "jsnum \<Rightarrow> jsnum" where
  "math_round (JFin r) = JFin (of_int \<lfloor>r + 1/2\<rfloor>)"
| "math_round x = x"

text \<open>\<open>x || 0\<close> for an optional number: undefined, NaN and 0 are falsy.\<close>

definition or_zero :: "jsnum option \<Rightarrow> jsnum" where
  "or_zero x = (case x of None \<Rightarrow> JFin 0 | Some JNaN \<Rightarrow> JFin 0 | Some n \<Rightarrow> n)"

section \<open>Decimal text\<close>

definition digit_char :: "nat \<Rightarrow> char" where
  "digit_char d = char_of (48 + d)"

fun dec :: "nat \<Rightarrow> string" where
  "dec n = (if n < 10 then [digit_char n] else dec (n div 10) @ [digit_char (n mod 10)])"

declare dec.simps [simp del]

fun undec :: "nat \<Rightarrow> string \<Rightarrow> nat" where
  "undec acc [] = acc"
| "undec acc (c # cs) = undec (10 * acc + (of_char c - 48)) cs"

lemma digit_char_value: "d < 10 \<Longrightarrow> of_char (digit_char d) = 48 + d"
  by (simp add: digit_char_def)

lemma undec_append: "undec acc (s @ t) = undec (undec acc s) t"
  by (induction acc s rule: undec.induct) auto

lemma undec_dec: "undec 0 (dec n) = n"
proof (induction n rule: dec.induct)
  case (1 n)
  show ?case
  proof (cases "n < 10")
    case True
    then show ?thesis by (subst dec.simps) (simp add: digit_char_value)
  next
    case False
    with "1.IH" show ?thesis
      by (subst dec.simps) (simp add: undec_append digit_char_value)
  qed
qed

lemma dec_inject [simp]: "dec m = dec n \<longleftrightarrow> m = n"
  by (metis undec_dec)

lemma dec_nonempty [simp]: "dec n \<noteq> []"
  by (subst dec.simps) simp

text \<open>The decimal text of an integer, with a leading minus sign where it is negative.\<close>

definition dec_int :: "int \<Rightarrow> string" where
  "dec_int i = (if i < 0 then CHR ''-'' # dec (nat (- i)) else dec (nat i))"

section \<open>Machines and their invariants\<close>

text \<open>
  A machine is a step function over events. \<open>ok\<close> says which events the environment may
  send in a state; the contract is that an allowed event keeps the invariant. It is lifted
  once, here, to every run.
\<close>

fun allowed :: "('s \<Rightarrow> 'e \<Rightarrow> 's) \<Rightarrow> ('s \<Rightarrow> 'e \<Rightarrow> bool) \<Rightarrow> 's \<Rightarrow> 'e list \<Rightarrow> bool" where
  "allowed step ok s [] = True"
| "allowed step ok s (e # es) = (ok s e \<and> allowed step ok (step s e) es)"

lemma allowed_append:
  "allowed step ok s (es @ fs) \<longleftrightarrow> allowed step ok s es \<and> allowed step ok (foldl step s es) fs"
  by (induction es arbitrary: s) auto

locale guarded_machine =
  fixes step :: "'s \<Rightarrow> 'e \<Rightarrow> 's"
    and ok :: "'s \<Rightarrow> 'e \<Rightarrow> bool"
    and inv :: "'s \<Rightarrow> bool"
  assumes step_inv: "inv s \<Longrightarrow> ok s e \<Longrightarrow> inv (step s e)"
begin

lemma run_inv: "inv s \<Longrightarrow> allowed step ok s es \<Longrightarrow> inv (foldl step s es)"
  by (induction es arbitrary: s) (auto intro: step_inv)

end

locale machine =
  fixes step :: "'s \<Rightarrow> 'e \<Rightarrow> 's"
    and inv :: "'s \<Rightarrow> bool"
  assumes keeps: "inv s \<Longrightarrow> inv (step s e)"
begin

lemma runs_inv: "inv s \<Longrightarrow> inv (foldl step s es)"
  by (induction es arbitrary: s) (auto intro: keeps)

end

sublocale machine \<subseteq> guarded: guarded_machine step "\<lambda>_ _. True" inv
  by unfold_locales (rule keeps)

section \<open>One-shot callbacks\<close>

text \<open>
  The browser's queue of callbacks that fire once: \<open>setTimeout\<close> and
  \<open>requestAnimationFrame\<close> register one and return a fresh positive handle,
  \<open>clearTimeout\<close> and \<open>cancelAnimationFrame\<close> drop it, and a callback that fires leaves the
  queue first. The queue holds what one client registered; \<open>'a\<close> is what is registered with it
  (the delay of a timer).
\<close>

record 'a oneshots =
  next_handle :: nat
  waiting :: "(nat \<times> 'a) list"

definition register :: "'a \<Rightarrow> 'a oneshots \<Rightarrow> nat \<times> 'a oneshots" where
  "register a q = (next_handle q,
     q\<lparr>next_handle := Suc (next_handle q), waiting := waiting q @ [(next_handle q, a)]\<rparr>)"

definition withdraw :: "nat \<Rightarrow> 'a oneshots \<Rightarrow> 'a oneshots" where
  "withdraw i q = q\<lparr>waiting := filter (\<lambda>p. fst p \<noteq> i) (waiting q)\<rparr>"

definition handles :: "'a oneshots \<Rightarrow> nat set" where
  "handles q = fst ` set (waiting q)"

definition oneshots_ok :: "'a oneshots \<Rightarrow> bool" where
  "oneshots_ok q \<longleftrightarrow> 0 < next_handle q \<and> distinct (map fst (waiting q)) \<and>
     (\<forall>i \<in> handles q. 0 < i \<and> i < next_handle q)"

text \<open>
  The contract a client of the queue relies on, and what follows for a client that remembers
  one handle: the handle it remembers is exactly what is waiting.
\<close>

locale oneshot_queue =
  fixes ok :: "'q \<Rightarrow> bool"
    and hs :: "'q \<Rightarrow> nat set"
    and add :: "'q \<Rightarrow> nat \<times> 'q"
    and del :: "nat \<Rightarrow> 'q \<Rightarrow> 'q"
  assumes ok_add: "ok q \<Longrightarrow> ok (snd (add q))"
    and ok_del: "ok q \<Longrightarrow> ok (del i q)"
    and hs_add: "ok q \<Longrightarrow> hs (snd (add q)) = insert (fst (add q)) (hs q)"
    and hs_fresh: "ok q \<Longrightarrow> fst (add q) \<notin> hs q \<and> 0 < fst (add q)"
    and hs_del: "ok q \<Longrightarrow> hs (del i q) = hs q - {i}"
begin

lemma del_sole: "ok q \<Longrightarrow> hs q = {i} \<Longrightarrow> hs (del i q) = {}"
  by (simp add: hs_del)

lemma add_sole: "ok q \<Longrightarrow> hs q = {} \<Longrightarrow> hs (snd (add q)) = {fst (add q)}"
  by (simp add: hs_add)

end

lemma oneshots_ok_register: "oneshots_ok q \<Longrightarrow> oneshots_ok (snd (register a q))"
  by (auto simp: oneshots_ok_def register_def handles_def less_Suc_eq)

lemma oneshots_ok_withdraw: "oneshots_ok q \<Longrightarrow> oneshots_ok (withdraw i q)"
  by (auto simp: oneshots_ok_def withdraw_def handles_def distinct_map_filter)

interpretation shots: oneshot_queue oneshots_ok handles "register a" withdraw for a
proof
  fix q :: "'a oneshots" and i
  assume q: "oneshots_ok q"
  show "oneshots_ok (snd (register a q))" by (rule oneshots_ok_register [OF q])
  show "oneshots_ok (withdraw i q)" by (rule oneshots_ok_withdraw [OF q])
  show "handles (snd (register a q)) = insert (fst (register a q)) (handles q)"
    by (auto simp: register_def handles_def)
  show "fst (register a q) \<notin> handles q \<and> 0 < fst (register a q)"
    using q by (force simp: register_def oneshots_ok_def)
  show "handles (withdraw i q) = handles q - {i}"
    by (auto simp: withdraw_def handles_def)
qed

lemma oneshots_empty: "handles q = {} \<longleftrightarrow> waiting q = []"
  by (simp add: handles_def)

end
