(* ===== verification/KitDom.thy ===== *)
theory KitDom
  imports Prelude
begin

text \<open>
  The part of the DOM that docs/kit.js writes. An element is what a script can observe of it
  here: its content, its attributes, and how often its content has been assigned, because an
  aria-live region speaks once per assignment. Elements found by different selectors are
  taken to be different elements, as in the markup of the page.
\<close>

text \<open>\<open>textContent = s\<close> makes the content a text, \<open>innerHTML = s\<close> makes it parsed markup.\<close>

datatype content = Text jsstr | Html jsstr

record elem =
  content :: content
  attrs :: "string \<rightharpoonup> jsstr"
  writes :: nat

definition set_text :: "jsstr \<Rightarrow> elem \<Rightarrow> elem" where
  "set_text s e = e\<lparr>content := Text s, writes := Suc (writes e)\<rparr>"

definition set_html :: "jsstr \<Rightarrow> elem \<Rightarrow> elem" where
  "set_html s e = e\<lparr>content := Html s, writes := Suc (writes e)\<rparr>"

definition set_attr :: "string \<Rightarrow> jsstr \<Rightarrow> elem \<Rightarrow> elem" where
  "set_attr a v e = e\<lparr>attrs := (attrs e)(a \<mapsto> v)\<rparr>"

definition remove_attr :: "string \<Rightarrow> elem \<Rightarrow> elem" where
  "remove_attr a e = e\<lparr>attrs := (attrs e)(a := None)\<rparr>"

definition get_attr :: "string \<Rightarrow> elem \<Rightarrow> jsstr option" where
  "get_attr a e = attrs e a"

definition blank_elem :: elem where
  "blank_elem = \<lparr>content = Text [], attrs = Map.empty, writes = 0\<rparr>"

text \<open>The text of a boolean, as \<open>cond ? "true" : "false"\<close> writes it.\<close>

definition bool_text :: "bool \<Rightarrow> jsstr" where
  "bool_text b = lit (if b then ''true'' else ''false'')"

text \<open>\<open>x || "default"\<close> for an optional string: undefined and the empty string are falsy.\<close>

definition or_text :: "jsstr option \<Rightarrow> jsstr \<Rightarrow> jsstr" where
  "or_text x d = (case x of None \<Rightarrow> d | Some s \<Rightarrow> if s = [] then d else s)"

lemma content_set [kit_simps]:
  "content (set_text s e) = Text s"
  "content (set_html s e) = Html s"
  "content (set_attr a v e) = content e"
  "content (remove_attr a e) = content e"
  by (simp_all add: set_text_def set_html_def set_attr_def remove_attr_def)

lemma writes_set [kit_simps]:
  "writes (set_text s e) = Suc (writes e)"
  "writes (set_html s e) = Suc (writes e)"
  "writes (set_attr a v e) = writes e"
  "writes (remove_attr a e) = writes e"
  by (simp_all add: set_text_def set_html_def set_attr_def remove_attr_def)

lemma get_attr_set [kit_simps]:
  "get_attr b (set_text s e) = get_attr b e"
  "get_attr b (set_html s e) = get_attr b e"
  "get_attr b (set_attr a v e) = (if b = a then Some v else get_attr b e)"
  "get_attr b (remove_attr a e) = (if b = a then None else get_attr b e)"
  by (simp_all add: get_attr_def set_text_def set_html_def set_attr_def remove_attr_def)

lemma bool_text_inject [simp]: "bool_text a = bool_text b \<longleftrightarrow> a = b"
  by (auto simp: bool_text_def)

end
