(* ===== verification/KitPlayer.thy ===== *)
theory KitPlayer
  imports KitDom
begin

text \<open>
  The step player of docs/kit.js, \<open>Kit.stepPlayer\<close>: the closure's variables and the elements
  it resolved as one record, one definition per inner function, and one event type for
  everything the outside can do to a mounted player (clicks, keys, a tab that is hidden, a
  timer that fires, a call of the controller).

  The page's \<open>onRender\<close> callback is a parameter: for a step, an index and a total it says
  whether it threw and what it did to the three elements of its context. A callback that calls the
  player back while it runs is not such a function; KitReenter has the same player with one. \<open>steps\<close> is read when
  the player is mounted and taken as unchanged afterwards.
\<close>

section \<open>Data\<close>

text \<open>
  A step is a string, an object of which \<open>html\<close>, \<open>text\<close> and \<open>caption\<close> count when they are
  strings, or anything else.
\<close>

datatype step =
    StepStr jsstr
  | StepObj (step_html: "jsstr option") (step_text: "jsstr option") (step_caption: "jsstr option")
  | StepOther

record render_effect =
  threw :: bool
  on_stage :: "elem \<Rightarrow> elem"
  on_caption :: "elem \<Rightarrow> elem"
  on_root :: "elem \<Rightarrow> elem"

type_synonym render_fn = "step \<Rightarrow> nat \<Rightarrow> nat \<Rightarrow> render_effect"

record player_options =
  opt_steps :: "step list option"
  opt_on_render :: "render_fn option"
  opt_autoplay_ms :: "jsnum option"
  opt_start_index :: "jsnum option"
  opt_label :: "jsstr option"

text \<open>The root element and what its data-k selectors resolve to.\<close>

record player_markup =
  mk_root :: elem
  mk_stage :: "elem option"
  mk_caption :: "elem option"
  mk_live :: "elem option"
  mk_indicator :: "elem option"
  mk_track :: "elem option"
  mk_prev :: "elem option"
  mk_play :: "elem option"
  mk_play_label :: "elem option"
  mk_next :: "elem option"

record player =
  steps :: "step list"
  on_render :: "render_fn option"
  dwell :: jsnum
  root :: elem
  stage :: elem
  caption :: "elem option"
  live :: "elem option"
  indicator :: "elem option"
  track :: "elem option"
  ticks :: "elem list"
  btn_prev :: "elem option"
  btn_play :: "elem option"
  play_label :: "elem option"
  btn_next :: "elem option"
  index :: nat
  playing :: bool
  timer :: "nat option"
  destroyed :: bool
  listening :: bool
  timers :: "jsnum oneshots"
  warnings :: "jsstr list"

definition total :: "player \<Rightarrow> nat" where
  "total p = length (steps p)"

section \<open>The inner functions\<close>

definition clamp_index :: "nat \<Rightarrow> jsnum \<Rightarrow> nat" where
  "clamp_index n i =
     (case math_round i of
        JFin r \<Rightarrow> if r < 0 then 0 else if of_nat n - 1 < r then n - 1 else nat \<lfloor>r\<rfloor>
      | _ \<Rightarrow> 0)"

fun caption_of :: "step \<Rightarrow> jsstr" where
  "caption_of (StepObj _ _ (Some c)) = c"
| "caption_of _ = []"

fun default_render :: "step \<Rightarrow> elem \<Rightarrow> elem" where
  "default_render (StepStr s) st = set_text s st"
| "default_render (StepObj (Some h) _ _) st = set_html h st"
| "default_render (StepObj None (Some t) _) st = set_text t st"
| "default_render _ st = set_text [] st"

definition set_disabled :: "bool \<Rightarrow> elem option \<Rightarrow> elem option" where
  "set_disabled off btn = map_option (set_attr ''aria-disabled'' (bool_text off)) btn"

definition counter_text :: "nat \<Rightarrow> nat \<Rightarrow> jsstr" where
  "counter_text i n = lit (''Step '' @ dec (i + 1) @ '' of '' @ dec n)"

definition live_text :: "nat \<Rightarrow> nat \<Rightarrow> jsstr \<Rightarrow> jsstr" where
  "live_text i n c = counter_text i n @ (if c \<noteq> [] then lit ''. '' @ c else [])"

text \<open>The first half of \<open>render\<close>: the page's callback, or the default rendering.\<close>

definition render_stage :: "player \<Rightarrow> player" where
  "render_stage p =
     (let s = steps p ! index p in
      case on_render p of
        None \<Rightarrow> p\<lparr>stage := default_render s (stage p)\<rparr>
      | Some f \<Rightarrow>
          let r = f s (index p) (total p);
              p' = p\<lparr>stage := on_stage r (stage p), caption := map_option (on_caption r) (caption p),
                     root := on_root r (root p)\<rparr>
          in if threw r
             then p'\<lparr>stage := default_render s (stage p'),
                     warnings := warnings p' @
                       [lit (''[Kit] stepPlayer: onRender threw at step '' @ dec (index p + 1) @ ''.'')]\<rparr>
             else p')"

definition mark_tick :: "nat \<Rightarrow> nat \<Rightarrow> elem \<Rightarrow> elem" where
  "mark_tick cur i e = set_attr ''data-done'' (bool_text (i \<le> cur)) e"

definition mark_ticks :: "nat \<Rightarrow> elem list \<Rightarrow> elem list" where
  "mark_ticks k es = map (\<lambda>(i, e). mark_tick k i e) (enumerate 0 es)"

definition render :: "player \<Rightarrow> player" where
  "render p0 =
     (let p = render_stage p0;
          text = caption_of (steps p ! index p)
      in p\<lparr>caption := map_option (set_text text) (caption p),
           indicator := map_option (set_text (counter_text (index p) (total p))) (indicator p),
           live := map_option (set_text (live_text (index p) (total p) text)) (live p),
           ticks := mark_ticks (index p) (ticks p),
           btn_prev := set_disabled (index p = 0) (btn_prev p),
           btn_next := set_disabled (index p = total p - 1) (btn_next p),
           root := set_attr ''data-index'' (lit (dec (index p)))
                     (set_attr ''data-state'' (lit (if playing p then ''playing'' else ''paused''))
                       (root p))\<rparr>)"

definition clear_timer :: "player \<Rightarrow> player" where
  "clear_timer p = (case timer p of
       None \<Rightarrow> p
     | Some h \<Rightarrow> p\<lparr>timers := withdraw h (timers p), timer := None\<rparr>)"

definition schedule :: "player \<Rightarrow> player" where
  "schedule p0 =
     (let p = clear_timer p0 in
      if \<not> playing p \<or> destroyed p then p
      else let (h, q) = register (dwell p) (timers p) in p\<lparr>timers := q, timer := Some h\<rparr>)"

definition set_play_label :: "player \<Rightarrow> player" where
  "set_play_label p =
     (case btn_play p of
        None \<Rightarrow> p
      | Some btn \<Rightarrow>
          let word = lit (if playing p then ''Pause'' else ''Play'');
              wired = (\<lambda>b. set_attr ''aria-pressed'' (bool_text (playing p))
                      (set_attr ''aria-label''
                        (lit (if playing p then ''Pause the run'' else ''Play the run'')) b))
          in (case play_label p of
                Some l \<Rightarrow> p\<lparr>play_label := Some (set_text word l), btn_play := Some (wired btn)\<rparr>
              | None \<Rightarrow> p\<lparr>btn_play := Some (wired (set_text word btn))\<rparr>))"

definition stop_clock :: "player \<Rightarrow> player" where
  "stop_clock p = set_play_label (clear_timer (p\<lparr>playing := False\<rparr>))"

definition pause :: "player \<Rightarrow> player" where
  "pause p = (if destroyed p then p else render (stop_clock p))"

definition play :: "player \<Rightarrow> player" where
  "play p =
     (if destroyed p \<or> playing p then p
      else let p1 = (if total p - 1 \<le> index p then p\<lparr>index := 0\<rparr> else p)
           in schedule (render (set_play_label (p1\<lparr>playing := True\<rparr>))))"

definition toggle :: "player \<Rightarrow> player" where
  "toggle p = (if playing p then pause p else play p)"

definition go_to :: "jsnum \<Rightarrow> bool \<Rightarrow> player \<Rightarrow> player" where
  "go_to i announce p =
     (if destroyed p then p
      else let k = clamp_index (total p) i in
        if k = index p \<and> \<not> announce then p
        else let p1 = render (p\<lparr>index := k\<rparr>)
             in if playing p1 then schedule p1 else p1)"

definition next_step :: "player \<Rightarrow> player" where
  "next_step p =
     (if destroyed p \<or> total p - 1 \<le> index p then p
      else let p1 = stop_clock p in go_to (JFin (of_nat (index p1 + 1))) True p1)"

definition prev_step :: "player \<Rightarrow> player" where
  "prev_step p =
     (if destroyed p \<or> index p \<le> 0 then p
      else let p1 = stop_clock p in go_to (JFin (of_nat (index p1) - 1)) True p1)"

text \<open>The callback that \<open>schedule\<close> hands to \<open>setTimeout\<close>.\<close>

definition on_timeout :: "player \<Rightarrow> player" where
  "on_timeout p0 =
     (let p = p0\<lparr>timer := None\<rparr> in
      if \<not> playing p \<or> destroyed p then p
      else if total p - 1 \<le> index p then pause p
      else schedule (render (p\<lparr>index := index p + 1\<rparr>)))"

section \<open>Events\<close>

text \<open>
  The target of a key event: whether it is an element, its tag, whether it is editable, and
  whether it is the stage.
\<close>

record key_target =
  tgt_element :: bool
  tgt_tag :: string
  tgt_editable :: bool
  tgt_stage :: bool

record key_event =
  ev_key :: string
  ev_default_prevented :: bool
  ev_alt :: bool
  ev_ctrl :: bool
  ev_meta :: bool
  ev_target :: key_target

definition typing_target :: "key_target \<Rightarrow> bool" where
  "typing_target t =
     (if \<not> tgt_element t then False
      else if tgt_tag t = ''INPUT'' \<or> tgt_tag t = ''TEXTAREA'' \<or> tgt_tag t = ''SELECT'' then True
      else tgt_editable t)"

text \<open>The handlers return whether they called \<open>preventDefault\<close>, and the player.\<close>

definition on_prev :: "player \<Rightarrow> bool \<times> player" where
  "on_prev p = (True, prev_step p)"

definition on_next :: "player \<Rightarrow> bool \<times> player" where
  "on_next p = (True, next_step p)"

definition on_play :: "player \<Rightarrow> bool \<times> player" where
  "on_play p = (True, toggle p)"

definition on_key :: "key_event \<Rightarrow> player \<Rightarrow> bool \<times> player" where
  "on_key ev p =
     (if ev_default_prevented ev \<or> ev_alt ev \<or> ev_ctrl ev \<or> ev_meta ev then (False, p)
      else if typing_target (ev_target ev) then (False, p)
      else if ev_key ev = ''ArrowRight'' then (True, next_step p)
      else if ev_key ev = ''ArrowLeft'' then (True, prev_step p)
      else if ev_key ev = ''Home'' then (True, go_to (JFin 0) True (stop_clock p))
      else if ev_key ev = ''End'' then (True, go_to (JFin (of_nat (total p) - 1)) True (stop_clock p))
      else if ev_key ev = '' '' \<or> ev_key ev = ''Spacebar'' then
        (if tgt_stage (ev_target ev) then (True, toggle p) else (False, p))
      else (False, p))"

definition on_visibility :: "bool \<Rightarrow> player \<Rightarrow> player" where
  "on_visibility hidden p = (if hidden \<and> playing p then pause p else p)"

definition ctl_go_to :: "jsnum \<Rightarrow> player \<Rightarrow> player" where
  "ctl_go_to i p = go_to i True (stop_clock p)"

definition ctl_destroy :: "player \<Rightarrow> player" where
  "ctl_destroy p = (clear_timer (p\<lparr>destroyed := True\<rparr>))\<lparr>listening := False\<rparr>"

datatype event =
    ClickPrev | ClickNext | ClickPlay | KeyDown key_event | Visibility bool | TimerFires nat
  | CallPlay | CallPause | CallToggle | CallNext | CallPrev | CallGoTo jsnum | CallDestroy

text \<open>
  What one event does. A DOM event reaches its handler while the listeners are attached, a
  click only where the button was found at mount time, and a timer fires once, if it is still
  waiting.
\<close>

fun dispatch :: "player \<Rightarrow> event \<Rightarrow> player" where
  "dispatch p ClickPrev = (if listening p \<and> btn_prev p \<noteq> None then snd (on_prev p) else p)"
| "dispatch p ClickNext = (if listening p \<and> btn_next p \<noteq> None then snd (on_next p) else p)"
| "dispatch p ClickPlay = (if listening p \<and> btn_play p \<noteq> None then snd (on_play p) else p)"
| "dispatch p (KeyDown ev) = (if listening p then snd (on_key ev p) else p)"
| "dispatch p (Visibility hidden) = (if listening p then on_visibility hidden p else p)"
| "dispatch p (TimerFires h) =
     (if h \<in> handles (timers p) then on_timeout (p\<lparr>timers := withdraw h (timers p)\<rparr>) else p)"
| "dispatch p CallPlay = play p"
| "dispatch p CallPause = pause p"
| "dispatch p CallToggle = toggle p"
| "dispatch p CallNext = next_step p"
| "dispatch p CallPrev = prev_step p"
| "dispatch p (CallGoTo i) = ctl_go_to i p"
| "dispatch p CallDestroy = ctl_destroy p"

section \<open>Mounting\<close>

definition no_options :: player_options where
  "no_options = \<lparr>opt_steps = None, opt_on_render = None, opt_autoplay_ms = None,
     opt_start_index = None, opt_label = None\<rparr>"

definition kit_warning :: "string \<Rightarrow> jsstr" where
  "kit_warning s = lit (''[Kit] '' @ s)"

text \<open>The a11y contract that is written onto the markup.\<close>

definition wire_root :: "nat \<Rightarrow> elem \<Rightarrow> elem" where
  "wire_root seq r =
     (if or_text (get_attr ''id'' r) [] = []
      then set_attr ''id'' (lit (''k-player-'' @ dec seq)) r else r)"

definition wire_stage :: "jsstr option \<Rightarrow> elem \<Rightarrow> elem" where
  "wire_stage label st =
     set_attr ''aria-label'' (or_text label (lit ''Recorded run, step content''))
       (set_attr ''role'' (lit ''region'') (set_attr ''tabindex'' (lit ''0'') st))"

definition wire_live :: "elem \<Rightarrow> elem" where
  "wire_live l =
     set_attr ''role'' (lit ''status'')
       (set_attr ''aria-atomic'' (lit ''true'') (set_attr ''aria-live'' (lit ''polite'') l))"

definition hide_aria :: "elem \<Rightarrow> elem" where
  "hide_aria e = set_attr ''aria-hidden'' (lit ''true'') e"

definition new_tick :: elem where
  "new_tick = set_attr ''class'' (lit ''k-player__tick'') blank_elem"

text \<open>
  \<open>Kit.stepPlayer\<close>. \<open>seq\<close> is the script's \<open>playerSeq\<close>, \<open>h\<close> the next timer handle of the window;
  \<open>None\<close> as the markup says that the root is not an element. The result is the new
  \<open>playerSeq\<close> and the mounted player, or the warning printed before null is returned.
\<close>

definition step_player ::
  "nat \<Rightarrow> nat \<Rightarrow> player_markup option \<Rightarrow> player_options option \<Rightarrow> nat \<times> (jsstr + player)" where
  "step_player seq h rootEl options =
     (let opts = (case options of None \<Rightarrow> no_options | Some os \<Rightarrow> os) in
      case rootEl of
        None \<Rightarrow> (seq, Inl (kit_warning ''stepPlayer: root element missing, nothing mounted.''))
      | Some mk \<Rightarrow>
          (case opt_steps opts of
             None \<Rightarrow> (seq, Inl (kit_warning ''stepPlayer: no steps supplied, nothing mounted.''))
           | Some [] \<Rightarrow> (seq, Inl (kit_warning ''stepPlayer: no steps supplied, nothing mounted.''))
           | Some ss \<Rightarrow>
               (case mk_stage mk of
                  None \<Rightarrow> (seq, Inl (kit_warning ''stepPlayer: no [data-k-stage] inside the player root.''))
                | Some st \<Rightarrow>
                    (seq + 1, Inr (render (set_play_label
                      \<lparr>steps = ss,
                       on_render = opt_on_render opts,
                       dwell = (case opt_autoplay_ms opts of None \<Rightarrow> JFin 2600 | Some n \<Rightarrow> n),
                       root = wire_root (seq + 1) (mk_root mk),
                       stage = wire_stage (opt_label opts) st,
                       caption = mk_caption mk,
                       live = map_option wire_live (mk_live mk),
                       indicator = map_option hide_aria (mk_indicator mk),
                       track = map_option (\<lambda>t. set_html [] (hide_aria t)) (mk_track mk),
                       ticks = (if mk_track mk = None then [] else replicate (length ss) new_tick),
                       btn_prev = mk_prev mk,
                       btn_play = mk_play mk,
                       play_label = mk_play_label mk,
                       btn_next = mk_next mk,
                       index = clamp_index (length ss) (or_zero (opt_start_index opts)),
                       playing = False,
                       timer = None,
                       destroyed = False,
                       listening = True,
                       timers = \<lparr>next_handle = h, waiting = []\<rparr>,
                       warnings = []\<rparr>))))))"

section \<open>What each inner function leaves alone\<close>

lemma render_stage_frame [kit_simps]:
  "steps (render_stage p) = steps p" "on_render (render_stage p) = on_render p"
  "dwell (render_stage p) = dwell p" "index (render_stage p) = index p"
  "playing (render_stage p) = playing p" "timer (render_stage p) = timer p"
  "destroyed (render_stage p) = destroyed p" "listening (render_stage p) = listening p"
  "timers (render_stage p) = timers p" "live (render_stage p) = live p"
  "indicator (render_stage p) = indicator p" "ticks (render_stage p) = ticks p"
  "btn_prev (render_stage p) = btn_prev p" "btn_play (render_stage p) = btn_play p"
  "play_label (render_stage p) = play_label p" "btn_next (render_stage p) = btn_next p"
  "track (render_stage p) = track p"
  by (simp_all add: render_stage_def Let_def split: option.split)

lemma render_frame [kit_simps]:
  "steps (render p) = steps p" "on_render (render p) = on_render p"
  "dwell (render p) = dwell p" "index (render p) = index p"
  "playing (render p) = playing p" "timer (render p) = timer p"
  "destroyed (render p) = destroyed p" "listening (render p) = listening p"
  "timers (render p) = timers p" "btn_play (render p) = btn_play p"
  "play_label (render p) = play_label p" "track (render p) = track p"
  by (simp_all add: render_def Let_def render_stage_frame)

lemma clear_timer_frame [kit_simps]:
  "steps (clear_timer p) = steps p" "index (clear_timer p) = index p"
  "playing (clear_timer p) = playing p" "destroyed (clear_timer p) = destroyed p"
  "listening (clear_timer p) = listening p" "live (clear_timer p) = live p"
  "timer (clear_timer p) = None" "btn_play (clear_timer p) = btn_play p"
  "btn_prev (clear_timer p) = btn_prev p" "btn_next (clear_timer p) = btn_next p"
  "root (clear_timer p) = root p" "stage (clear_timer p) = stage p"
  "caption (clear_timer p) = caption p" "indicator (clear_timer p) = indicator p"
  "ticks (clear_timer p) = ticks p" "play_label (clear_timer p) = play_label p"
  "dwell (clear_timer p) = dwell p" "on_render (clear_timer p) = on_render p"
  by (simp_all add: clear_timer_def split: option.split)

lemma set_play_label_frame [kit_simps]:
  "steps (set_play_label p) = steps p" "index (set_play_label p) = index p"
  "playing (set_play_label p) = playing p" "destroyed (set_play_label p) = destroyed p"
  "listening (set_play_label p) = listening p" "live (set_play_label p) = live p"
  "timer (set_play_label p) = timer p" "timers (set_play_label p) = timers p"
  "btn_prev (set_play_label p) = btn_prev p" "btn_next (set_play_label p) = btn_next p"
  "root (set_play_label p) = root p" "stage (set_play_label p) = stage p"
  "caption (set_play_label p) = caption p" "indicator (set_play_label p) = indicator p"
  "ticks (set_play_label p) = ticks p" "dwell (set_play_label p) = dwell p"
  "on_render (set_play_label p) = on_render p"
  by (simp_all add: set_play_label_def Let_def split: option.split)

lemma schedule_frame [kit_simps]:
  "steps (schedule p) = steps p" "index (schedule p) = index p"
  "playing (schedule p) = playing p" "destroyed (schedule p) = destroyed p"
  "listening (schedule p) = listening p" "live (schedule p) = live p"
  "btn_play (schedule p) = btn_play p" "btn_prev (schedule p) = btn_prev p"
  "btn_next (schedule p) = btn_next p" "root (schedule p) = root p"
  "stage (schedule p) = stage p" "caption (schedule p) = caption p"
  "indicator (schedule p) = indicator p" "ticks (schedule p) = ticks p"
  "play_label (schedule p) = play_label p"
  by (simp_all add: schedule_def Let_def clear_timer_frame split: prod.split)

lemma stop_clock_frame [kit_simps]:
  "steps (stop_clock p) = steps p" "index (stop_clock p) = index p"
  "playing (stop_clock p) = False" "destroyed (stop_clock p) = destroyed p"
  "listening (stop_clock p) = listening p" "live (stop_clock p) = live p"
  "timer (stop_clock p) = None" "btn_prev (stop_clock p) = btn_prev p"
  "btn_next (stop_clock p) = btn_next p" "root (stop_clock p) = root p"
  "stage (stop_clock p) = stage p" "caption (stop_clock p) = caption p"
  "indicator (stop_clock p) = indicator p" "ticks (stop_clock p) = ticks p"
  by (simp_all add: stop_clock_def clear_timer_frame set_play_label_frame)

lemma total_eq [kit_simps]:
  "total (render_stage p) = total p" "total (render p) = total p"
  "total (clear_timer p) = total p" "total (set_play_label p) = total p"
  "total (schedule p) = total p" "total (stop_clock p) = total p"
  "total (p\<lparr>index := i\<rparr>) = total p" "total (p\<lparr>playing := b\<rparr>) = total p"
  "total (p\<lparr>timer := t\<rparr>) = total p" "total (p\<lparr>timers := q\<rparr>) = total p"
  "total (p\<lparr>destroyed := b\<rparr>) = total p" "total (p\<lparr>listening := b\<rparr>) = total p"
  by (simp_all add: total_def kit_simps)

section \<open>Clamping\<close>

lemma clamp_index_bound: "0 < n \<Longrightarrow> clamp_index n i < n"
proof -
  assume n: "0 < n"
  have "nat \<lfloor>r\<rfloor> < n" if "\<not> of_nat n - 1 < r" for r :: rat
  proof -
    from that have "r < of_nat n" by simp
    then have "\<lfloor>r\<rfloor> < int n" by (simp add: floor_less_iff)
    with n show ?thesis by simp
  qed
  with n show ?thesis by (simp add: clamp_index_def split: jsnum.split)
qed

lemma clamp_index_nat: "0 < n \<Longrightarrow> clamp_index n (JFin (of_nat k)) = min k (n - 1)"
proof -
  assume n: "0 < n"
  have "\<lfloor>of_nat k + 1 / 2 :: rat\<rfloor> = int k"
    by (rule floor_unique) simp_all
  moreover have "(of_nat n - 1 < (of_nat k :: rat)) = (n < k + 1)"
    by (metis less_diff_eq of_nat_1 of_nat_add of_nat_less_iff diff_less_eq)
  ultimately show ?thesis using n by (auto simp: clamp_index_def min_def)
qed

section \<open>The timer slot\<close>

text \<open>
  What is waiting in the window is exactly the handle the player remembers, and it remembers
  one exactly while it plays. The first half is the client's side of the one-shot contract.
\<close>

definition owns_timer :: "player \<Rightarrow> bool" where
  "owns_timer p \<longleftrightarrow> oneshots_ok (timers p) \<and> handles (timers p) = set_option (timer p)"

definition timer_inv :: "player \<Rightarrow> bool" where
  "timer_inv p \<longleftrightarrow> owns_timer p \<and> (timer p \<noteq> None \<longleftrightarrow> playing p \<and> \<not> destroyed p)"

lemma owns_clear_timer:
  assumes "owns_timer p"
  shows "owns_timer (clear_timer p)" and "handles (timers (clear_timer p)) = {}"
  using assms
  by (auto simp: owns_timer_def clear_timer_def shots.ok_del shots.hs_del split: option.splits)

lemma owns_schedule:
  assumes "owns_timer p"
  shows "owns_timer (schedule p)"
    and "timer (schedule p) \<noteq> None \<longleftrightarrow> playing p \<and> \<not> destroyed p"
proof -
  have c: "oneshots_ok (timers (clear_timer p))" "handles (timers (clear_timer p)) = {}"
    using owns_clear_timer [OF assms] by (simp_all add: owns_timer_def)
  show "owns_timer (schedule p)"
    using owns_clear_timer(1) [OF assms] shots.ok_add [OF c(1)] shots.add_sole [OF c]
    by (auto simp: schedule_def Let_def owns_timer_def clear_timer_frame case_prod_beta)
  show "timer (schedule p) \<noteq> None \<longleftrightarrow> playing p \<and> \<not> destroyed p"
    by (auto simp: schedule_def Let_def clear_timer_frame split: prod.split)
qed

lemma owns_update [simp]:
  "owns_timer (render p) = owns_timer p" "owns_timer (set_play_label p) = owns_timer p"
  "owns_timer (p\<lparr>index := i\<rparr>) = owns_timer p" "owns_timer (p\<lparr>playing := b\<rparr>) = owns_timer p"
  "owns_timer (p\<lparr>destroyed := b\<rparr>) = owns_timer p" "owns_timer (p\<lparr>listening := b\<rparr>) = owns_timer p"
  by (simp_all add: owns_timer_def kit_simps)

lemma timer_inv_stop_clock: "owns_timer p \<Longrightarrow> timer_inv (stop_clock p)"
  by (simp add: timer_inv_def stop_clock_def kit_simps owns_clear_timer)

lemma timer_inv_render [simp]: "timer_inv (render p) = timer_inv p"
  by (simp add: timer_inv_def kit_simps)

lemma timer_inv_schedule: "owns_timer p \<Longrightarrow> timer_inv (schedule p)"
  using owns_schedule [of p] by (simp add: timer_inv_def kit_simps)

lemma timer_inv_owns: "timer_inv p \<Longrightarrow> owns_timer p"
  by (simp add: timer_inv_def)

lemma timer_inv_pause: "timer_inv p \<Longrightarrow> timer_inv (pause p)"
  by (simp add: pause_def timer_inv_owns timer_inv_stop_clock)

lemma timer_inv_play: "timer_inv p \<Longrightarrow> timer_inv (play p)"
  by (simp add: play_def Let_def timer_inv_schedule timer_inv_owns)

lemma timer_inv_go_to: "timer_inv p \<Longrightarrow> timer_inv (go_to i a p)"
  by (auto simp: go_to_def Let_def kit_simps intro!: timer_inv_schedule)
     (simp_all add: timer_inv_def)

lemma timer_inv_dispatch:
  assumes "timer_inv p"
  shows "timer_inv (dispatch p e)"
proof -
  have sc: "timer_inv (stop_clock p)"
    using assms by (simp add: timer_inv_owns timer_inv_stop_clock)
  have ops: "timer_inv (next_step p)" "timer_inv (prev_step p)" "timer_inv (toggle p)"
    "timer_inv (ctl_go_to i p)" "timer_inv (pause p)" "timer_inv (play p)" for i
    using assms sc
    by (simp_all add: next_step_def prev_step_def toggle_def ctl_go_to_def Let_def
        timer_inv_go_to timer_inv_pause timer_inv_play)
  show ?thesis
  proof (cases e)
    case (KeyDown ev)
    then show ?thesis
      using assms ops sc by (simp add: on_key_def timer_inv_go_to)
  next
    case (TimerFires h)
    show ?thesis
    proof (cases "h \<in> handles (timers p)")
      case True
      with assms have t: "timer p = Some h" "playing p" "\<not> destroyed p" and o: "oneshots_ok (timers p)"
        by (auto simp: timer_inv_def owns_timer_def)
      let ?q = "p\<lparr>timers := withdraw h (timers p), timer := None\<rparr>"
      have "owns_timer ?q"
        using assms t(1) shots.ok_del [OF o] shots.hs_del [OF o, of h]
        by (simp add: timer_inv_def owns_timer_def)
      then show ?thesis
        using TimerFires True t(2,3)
        by (simp add: on_timeout_def Let_def pause_def timer_inv_stop_clock timer_inv_schedule)
    qed (use TimerFires assms in simp)
  next
    case CallDestroy
    then show ?thesis
      using owns_clear_timer(1) [of "p\<lparr>destroyed := True\<rparr>"] timer_inv_owns [OF assms]
      by (simp add: timer_inv_def ctl_destroy_def kit_simps)
  qed (use assms ops in \<open>simp_all add: on_prev_def on_next_def on_play_def on_visibility_def\<close>)
qed

section \<open>The abstract player\<close>

text \<open>
  What the documentation above \<open>Kit.stepPlayer\<close> promises, without elements or timers: where the
  player is, whether it runs, whether it is gone, and what each kind of request does.
\<close>

record control =
  cur :: nat
  running :: bool
  gone :: bool

datatype intent =
  Stay | Resume | Halt | Flip | Forward | Backward | Seek jsnum | Tick | Leave

definition resumed :: "nat \<Rightarrow> control \<Rightarrow> control" where
  "resumed n c =
     (if gone c \<or> running c then c
      else c\<lparr>cur := (if n - 1 \<le> cur c then 0 else cur c), running := True\<rparr>)"

definition halted :: "control \<Rightarrow> control" where
  "halted c = (if gone c then c else c\<lparr>running := False\<rparr>)"

fun intent_step :: "nat \<Rightarrow> intent \<Rightarrow> control \<Rightarrow> control" where
  "intent_step n Stay c = c"
| "intent_step n Resume c = resumed n c"
| "intent_step n Halt c = halted c"
| "intent_step n Flip c = (if running c then halted c else resumed n c)"
| "intent_step n Forward c =
     (if gone c \<or> n - 1 \<le> cur c then c else c\<lparr>cur := cur c + 1, running := False\<rparr>)"
| "intent_step n Backward c =
     (if gone c \<or> cur c = 0 then c else c\<lparr>cur := cur c - 1, running := False\<rparr>)"
| "intent_step n (Seek i) c =
     (if gone c then c\<lparr>running := False\<rparr> else c\<lparr>cur := clamp_index n i, running := False\<rparr>)"
| "intent_step n Tick c =
     (if gone c \<or> \<not> running c then c
      else if n - 1 \<le> cur c then c\<lparr>running := False\<rparr> else c\<lparr>cur := cur c + 1\<rparr>)"
| "intent_step n Leave c = c\<lparr>gone := True\<rparr>"

definition control_of :: "player \<Rightarrow> control" where
  "control_of p = \<lparr>cur = index p, running = playing p, gone = destroyed p\<rparr>"

definition key_intent :: "nat \<Rightarrow> key_event \<Rightarrow> intent" where
  "key_intent n ev =
     (if ev_default_prevented ev \<or> ev_alt ev \<or> ev_ctrl ev \<or> ev_meta ev then Stay
      else if typing_target (ev_target ev) then Stay
      else if ev_key ev = ''ArrowRight'' then Forward
      else if ev_key ev = ''ArrowLeft'' then Backward
      else if ev_key ev = ''Home'' then Seek (JFin 0)
      else if ev_key ev = ''End'' then Seek (JFin (of_nat n - 1))
      else if ev_key ev = '' '' \<or> ev_key ev = ''Spacebar'' then
        (if tgt_stage (ev_target ev) then Flip else Stay)
      else Stay)"

text \<open>Which request an event is depends on what the player was mounted on.\<close>

fun intent_of :: "player \<Rightarrow> event \<Rightarrow> intent" where
  "intent_of p ClickPrev = (if listening p \<and> btn_prev p \<noteq> None then Backward else Stay)"
| "intent_of p ClickNext = (if listening p \<and> btn_next p \<noteq> None then Forward else Stay)"
| "intent_of p ClickPlay = (if listening p \<and> btn_play p \<noteq> None then Flip else Stay)"
| "intent_of p (KeyDown ev) = (if listening p then key_intent (total p) ev else Stay)"
| "intent_of p (Visibility hidden) = (if listening p \<and> hidden then Halt else Stay)"
| "intent_of p (TimerFires h) = (if h \<in> handles (timers p) then Tick else Stay)"
| "intent_of p CallPlay = Resume"
| "intent_of p CallPause = Halt"
| "intent_of p CallToggle = Flip"
| "intent_of p CallNext = Forward"
| "intent_of p CallPrev = Backward"
| "intent_of p (CallGoTo i) = Seek i"
| "intent_of p CallDestroy = Leave"

text \<open>The requests that a sequence of events amounts to.\<close>

fun intents :: "player \<Rightarrow> event list \<Rightarrow> intent list" where
  "intents p [] = []"
| "intents p (e # es) = intent_of p e # intents (dispatch p e) es"

lemma control_of_frame [simp]:
  "control_of (render p) = control_of p" "control_of (set_play_label p) = control_of p"
  "control_of (clear_timer p) = control_of p" "control_of (schedule p) = control_of p"
  "control_of (stop_clock p) = (control_of p)\<lparr>running := False\<rparr>"
  "control_of (p\<lparr>index := i\<rparr>) = (control_of p)\<lparr>cur := i\<rparr>"
  "control_of (p\<lparr>playing := b\<rparr>) = (control_of p)\<lparr>running := b\<rparr>"
  "control_of (p\<lparr>destroyed := b\<rparr>) = (control_of p)\<lparr>gone := b\<rparr>"
  "control_of (p\<lparr>timer := t\<rparr>) = control_of p" "control_of (p\<lparr>timers := q\<rparr>) = control_of p"
  "control_of (p\<lparr>listening := b\<rparr>) = control_of p"
  by (simp_all add: control_of_def kit_simps)

lemma control_of_fields [simp]:
  "cur (control_of p) = index p" "running (control_of p) = playing p"
  "gone (control_of p) = destroyed p"
  by (simp_all add: control_of_def)

lemma control_of_eq:
  "control_of p = \<lparr>cur = i, running = r, gone = g\<rparr> \<longleftrightarrow> index p = i \<and> playing p = r \<and> destroyed p = g"
  by (auto simp: control_of_def)

lemma control_pause: "control_of (pause p) = intent_step n Halt (control_of p)"
  by (simp add: pause_def halted_def)

lemma control_play: "control_of (play p) = intent_step (total p) Resume (control_of p)"
  by (simp add: play_def Let_def resumed_def kit_simps)

lemma control_toggle: "control_of (toggle p) = intent_step (total p) Flip (control_of p)"
  using control_pause [of p 0] control_play [of p] by (simp add: toggle_def)

lemma control_go_to:
  "control_of (go_to i True p) =
     (if destroyed p then control_of p else (control_of p)\<lparr>cur := clamp_index (total p) i\<rparr>)"
  by (simp add: go_to_def Let_def)

lemma control_seek:
  "control_of (go_to i True (stop_clock p)) = intent_step (total p) (Seek i) (control_of p)"
  by (simp add: control_go_to kit_simps)

lemma control_next: "control_of (next_step p) = intent_step (total p) Forward (control_of p)"
proof (cases "destroyed p \<or> total p - 1 \<le> index p")
  case False
  then have "clamp_index (total p) (JFin (of_nat (index p + 1))) = index p + 1"
    by (subst clamp_index_nat) auto
  with False show ?thesis
    by (simp add: next_step_def Let_def control_go_to kit_simps del: of_nat_add of_nat_Suc)
qed (auto simp: next_step_def)

lemma control_prev:
  assumes "index p < total p"
  shows "control_of (prev_step p) = intent_step (total p) Backward (control_of p)"
proof (cases "destroyed p \<or> index p = 0")
  case False
  then have "clamp_index (total p) (JFin (of_nat (index p) - 1)) = min (index p - 1) (total p - 1)"
    using assms clamp_index_nat [of "total p" "index p - 1"] by (simp add: of_nat_diff)
  with False assms show ?thesis
    by (simp add: prev_step_def Let_def control_go_to kit_simps)
qed (auto simp: prev_step_def)

lemma control_timeout:
  "control_of (on_timeout p) = intent_step (total p) Tick (control_of p)"
  using control_pause [of "p\<lparr>timer := None\<rparr>" 0]
  by (simp add: on_timeout_def Let_def halted_def kit_simps)

lemma control_halt: "control_of (pause p) = intent_step (total p) Halt (control_of p)"
  by (rule control_pause)

lemma control_key:
  assumes "index p < total p"
  shows "control_of (snd (on_key ev p)) = intent_step (total p) (key_intent (total p) ev) (control_of p)"
  by (simp only: on_key_def key_intent_def if_distrib [of snd] if_distrib [of control_of] snd_conv
      if_distrib [of "\<lambda>i. intent_step (total p) i (control_of p)"] control_toggle control_seek
      control_next control_prev [OF assms] intent_step.simps(1))

text \<open>One event of the code is one request of the abstract player.\<close>

lemma dispatch_refines:
  assumes "index p < total p"
  shows "control_of (dispatch p e) = intent_step (total p) (intent_of p e) (control_of p)"
proof (cases e)
  case (KeyDown ev)
  with assms show ?thesis by (simp add: control_key)
next
  case (Visibility hidden)
  then show ?thesis using control_halt [of p] by (auto simp: on_visibility_def halted_def)
next
  case (TimerFires h)
  then show ?thesis using control_timeout [of "p\<lparr>timers := withdraw h (timers p)\<rparr>"]
    by (auto simp: kit_simps)
next
  case CallDestroy
  then show ?thesis by (simp add: ctl_destroy_def)
qed (use control_halt [of p] control_play [of p] control_toggle [of p] control_seek [of _ p]
       control_next [of p] control_prev [OF assms]
     in \<open>auto simp: on_prev_def on_next_def on_play_def ctl_go_to_def\<close>)

section \<open>What the page shows\<close>

definition shows_state :: "player \<Rightarrow> bool" where
  "shows_state p \<longleftrightarrow>
     pred_option (\<lambda>e. content e = Text (caption_of (steps p ! index p))) (caption p) \<and>
     pred_option (\<lambda>e. content e = Text (counter_text (index p) (total p))) (indicator p) \<and>
     pred_option (\<lambda>e. content e = Text (live_text (index p) (total p) (caption_of (steps p ! index p))))
       (live p) \<and>
     (\<forall>i < length (ticks p). get_attr ''data-done'' (ticks p ! i) = Some (bool_text (i \<le> index p))) \<and>
     pred_option (\<lambda>e. get_attr ''aria-disabled'' e = Some (bool_text (index p = 0))) (btn_prev p) \<and>
     pred_option (\<lambda>e. get_attr ''aria-disabled'' e = Some (bool_text (index p = total p - 1))) (btn_next p) \<and>
     get_attr ''data-index'' (root p) = Some (lit (dec (index p))) \<and>
     get_attr ''data-state'' (root p) = Some (lit (if playing p then ''playing'' else ''paused''))"

definition shows_label :: "player \<Rightarrow> bool" where
  "shows_label p \<longleftrightarrow>
     (case btn_play p of
        None \<Rightarrow> True
      | Some b \<Rightarrow>
          get_attr ''aria-pressed'' b = Some (bool_text (playing p)) \<and>
          get_attr ''aria-label'' b = Some (lit (if playing p then ''Pause the run'' else ''Play the run'')) \<and>
          content (case play_label p of Some l \<Rightarrow> l | None \<Rightarrow> b)
            = Text (lit (if playing p then ''Pause'' else ''Play'')))"

definition view_inv :: "player \<Rightarrow> bool" where
  "view_inv p \<longleftrightarrow> destroyed p \<or> shows_state p \<and> shows_label p"

lemma mark_ticks_length [kit_simps]: "length (mark_ticks k es) = length es"
  by (simp add: mark_ticks_def)

lemma mark_ticks_nth:
  "i < length es \<Longrightarrow> get_attr ''data-done'' (mark_ticks k es ! i) = Some (bool_text (i \<le> k))"
  by (simp add: mark_ticks_def nth_enumerate_eq mark_tick_def get_attr_set)

text \<open>\<open>render\<close> makes the page show the state, whatever the page's callback did before.\<close>

lemma render_shows_state: "shows_state (render p)"
  by (simp add: shows_state_def render_def Let_def kit_simps mark_ticks_nth option.pred_map
      set_disabled_def comp_def option.pred_True total_def)

lemma set_play_label_shows_label: "shows_label (set_play_label p)"
  by (simp add: shows_label_def set_play_label_def Let_def kit_simps split: option.split)

lemma shows_label_cong:
  "btn_play p = btn_play q \<Longrightarrow> play_label p = play_label q \<Longrightarrow> playing p = playing q \<Longrightarrow>
   shows_label p = shows_label q"
  by (simp add: shows_label_def split: option.split)

lemma shows_label_frame [simp]:
  "shows_label (render p) = shows_label p" "shows_label (schedule p) = shows_label p"
  "shows_label (clear_timer p) = shows_label p" "shows_label (p\<lparr>index := i\<rparr>) = shows_label p"
  "shows_label (p\<lparr>timer := t\<rparr>) = shows_label p" "shows_label (p\<lparr>timers := q\<rparr>) = shows_label p"
  by (rule shows_label_cong; simp add: kit_simps)+

lemma shows_state_frame [simp]:
  "shows_state (schedule p) = shows_state p" "shows_state (p\<lparr>timer := t\<rparr>) = shows_state p"
  "shows_state (p\<lparr>timers := q\<rparr>) = shows_state p"
  by (simp_all add: shows_state_def kit_simps)

lemma shows_label_stop_clock [simp]: "shows_label (stop_clock p)"
  by (simp add: stop_clock_def set_play_label_shows_label)

lemma view_inv_pause: "view_inv p \<Longrightarrow> view_inv (pause p)"
  by (simp add: pause_def view_inv_def render_shows_state)

lemma view_inv_play: "view_inv p \<Longrightarrow> view_inv (play p)"
  by (simp add: play_def Let_def view_inv_def render_shows_state set_play_label_shows_label)

lemma view_inv_go_to_stop: "view_inv (go_to i True (stop_clock p))"
  by (simp add: go_to_def Let_def view_inv_def render_shows_state kit_simps)

lemma view_inv_dispatch:
  assumes "view_inv p"
  shows "view_inv (dispatch p e)"
proof -
  have ops: "view_inv (next_step p)" "view_inv (prev_step p)" "view_inv (toggle p)"
    "view_inv (ctl_go_to i p)" for i
    using assms view_inv_go_to_stop
    by (simp_all add: next_step_def prev_step_def toggle_def ctl_go_to_def Let_def
        view_inv_pause view_inv_play)
  have key: "view_inv (snd (on_key ev p))" for ev
    by (simp add: on_key_def ops view_inv_go_to_stop assms)
  have tick: "view_inv (on_timeout (p\<lparr>timers := q\<rparr>))" for q
  proof (cases "destroyed p \<or> \<not> playing p")
    case True
    with assms show ?thesis by (auto simp: on_timeout_def Let_def view_inv_def)
  next
    case False
    with assms show ?thesis
      by (simp add: on_timeout_def Let_def view_inv_def pause_def render_shows_state kit_simps)
  qed
  show ?thesis
  proof (cases e)
    case CallDestroy
    then show ?thesis by (simp add: ctl_destroy_def view_inv_def kit_simps)
  qed (use assms ops key tick view_inv_pause view_inv_play
       in \<open>simp_all add: on_prev_def on_next_def on_play_def on_visibility_def\<close>)
qed

section \<open>Announcements\<close>

text \<open>How often the live region has been written, and so spoken; none when there is no region.\<close>

definition announcements :: "player \<Rightarrow> nat" where
  "announcements p = (case live p of None \<Rightarrow> 0 | Some l \<Rightarrow> writes l)"

lemma announcements_render:
  "announcements (render p) = announcements p + (if live p = None then 0 else 1)"
  by (simp add: announcements_def render_def Let_def kit_simps split: option.split)

lemma announcements_frame [simp]:
  "announcements (schedule p) = announcements p" "announcements (clear_timer p) = announcements p"
  "announcements (set_play_label p) = announcements p" "announcements (stop_clock p) = announcements p"
  "announcements (p\<lparr>index := i\<rparr>) = announcements p" "announcements (p\<lparr>playing := b\<rparr>) = announcements p"
  "announcements (p\<lparr>timer := t\<rparr>) = announcements p" "announcements (p\<lparr>timers := q\<rparr>) = announcements p"
  "announcements (p\<lparr>destroyed := b\<rparr>) = announcements p" "announcements (p\<lparr>listening := b\<rparr>) = announcements p"
  by (simp_all add: announcements_def kit_simps)

text \<open>One request paints at most once, and paints when it moves to another step.\<close>

definition speaks_once :: "player \<Rightarrow> player \<Rightarrow> bool" where
  "speaks_once p q \<longleftrightarrow>
     (announcements q = announcements p \<and> index q = index p) \<or>
     announcements q = announcements p + (if live p = None then 0 else 1)"

lemma speaks_once_refl [simp]: "speaks_once p p"
  by (simp add: speaks_once_def)

lemma speaks_once_ops:
  "speaks_once p (pause p)" "speaks_once p (play p)" "speaks_once p (toggle p)"
  "speaks_once p (go_to i True (stop_clock p))"
  "speaks_once p (next_step p)" "speaks_once p (prev_step p)"
  "speaks_once p (on_timeout (p\<lparr>timers := q\<rparr>))"
  by (auto simp: speaks_once_def pause_def play_def toggle_def go_to_def next_step_def prev_step_def
      on_timeout_def Let_def announcements_render kit_simps)

lemma speaks_once_dispatch: "speaks_once p (dispatch p e)"
proof (cases e)
  case (KeyDown ev)
  then show ?thesis by (simp add: on_key_def speaks_once_ops)
next
  case CallDestroy
  then show ?thesis by (simp add: ctl_destroy_def speaks_once_def kit_simps)
qed (simp_all add: on_prev_def on_next_def on_play_def on_visibility_def ctl_go_to_def speaks_once_ops)

section \<open>The invariant of a mounted player\<close>

definition player_inv :: "player \<Rightarrow> bool" where
  "player_inv p \<longleftrightarrow>
     index p < total p \<and> timer_inv p \<and> view_inv p \<and> (listening p \<longleftrightarrow> \<not> destroyed p)"

lemma dispatch_steps: "steps (dispatch p e) = steps p"
proof -
  have go: "steps (go_to i a q) = steps q" for i a q
    by (simp add: go_to_def Let_def kit_simps)
  have ops: "steps (pause q) = steps q" "steps (play q) = steps q" "steps (toggle q) = steps q"
    "steps (next_step q) = steps q" "steps (prev_step q) = steps q" "steps (on_timeout q) = steps q" for q
    by (simp_all add: pause_def play_def toggle_def next_step_def prev_step_def on_timeout_def Let_def
        go kit_simps)
  show ?thesis
    by (cases e) (simp_all add: on_prev_def on_next_def on_play_def on_key_def on_visibility_def
        ctl_go_to_def ctl_destroy_def ops go kit_simps)
qed

lemma dispatch_total [simp]: "total (dispatch p e) = total p"
  by (simp add: total_def dispatch_steps)

lemma intent_step_bound:
  "cur c < n \<Longrightarrow> cur (intent_step n i c) < n"
  by (cases i) (auto simp: resumed_def halted_def clamp_index_bound)

lemma index_dispatch: "index p < total p \<Longrightarrow> index (dispatch p e) < total p"
  using intent_step_bound [of "control_of p" "total p" "intent_of p e"] dispatch_refines [of p e]
  by (metis control_of_fields(1))

lemma listening_dispatch:
  "(listening p \<longleftrightarrow> \<not> destroyed p) \<Longrightarrow> (listening (dispatch p e) \<longleftrightarrow> \<not> destroyed (dispatch p e))"
proof -
  assume l: "listening p \<longleftrightarrow> \<not> destroyed p"
  have go: "listening (go_to i a q) = listening q" "destroyed (go_to i a q) = destroyed q" for i a q
    by (simp_all add: go_to_def Let_def kit_simps)
  have ops: "listening (pause q) = listening q" "listening (play q) = listening q"
    "listening (toggle q) = listening q" "listening (next_step q) = listening q"
    "listening (prev_step q) = listening q" "listening (on_timeout q) = listening q"
    "destroyed (pause q) = destroyed q" "destroyed (play q) = destroyed q"
    "destroyed (toggle q) = destroyed q" "destroyed (next_step q) = destroyed q"
    "destroyed (prev_step q) = destroyed q" "destroyed (on_timeout q) = destroyed q" for q
    by (simp_all add: pause_def play_def toggle_def next_step_def prev_step_def on_timeout_def Let_def
        go kit_simps)
  show ?thesis
    using l by (cases e) (simp_all add: on_prev_def on_next_def on_play_def on_key_def
        on_visibility_def ctl_go_to_def ctl_destroy_def ops go kit_simps)
qed

lemma player_inv_dispatch: "player_inv p \<Longrightarrow> player_inv (dispatch p e)"
  by (simp add: player_inv_def index_dispatch timer_inv_dispatch view_inv_dispatch listening_dispatch)

interpretation plr: machine dispatch player_inv
  by unfold_locales (rule player_inv_dispatch)

definition mounts :: "nat \<Rightarrow> nat \<Rightarrow> player_markup option \<Rightarrow> player_options option \<Rightarrow> player \<Rightarrow> bool" where
  "mounts seq h mk opts p \<longleftrightarrow> 0 < h \<and> step_player seq h mk opts = (seq + 1, Inr p)"

lemma mounts_player_inv: "mounts seq h mk opts p \<Longrightarrow> player_inv p"
  by (auto simp: mounts_def step_player_def Let_def player_inv_def timer_inv_def view_inv_def
      owns_timer_def oneshots_ok_def handles_def total_def kit_simps clamp_index_bound
      render_shows_state set_play_label_shows_label split: option.splits list.splits)

lemma mounts_run_inv: "mounts seq h mk opts p \<Longrightarrow> player_inv (foldl dispatch p es)"
  by (rule plr.runs_inv [OF mounts_player_inv])

lemma run_total: "total (foldl dispatch p es) = total p"
  by (induction es arbitrary: p) simp_all

section \<open>Autoplay\<close>

text \<open>The clock runs out: the timer the player waits for, if any, fires.\<close>

definition clock_tick :: "player \<Rightarrow> player" where
  "clock_tick p = (case timer p of None \<Rightarrow> p | Some h \<Rightarrow> dispatch p (TimerFires h))"

lemma clock_tick_inv: "player_inv p \<Longrightarrow> player_inv (clock_tick p)"
  by (simp add: clock_tick_def player_inv_dispatch del: dispatch.simps split: option.split)

lemma clock_tick_total [simp]: "total (clock_tick p) = total p"
  by (simp add: clock_tick_def del: dispatch.simps split: option.split)

lemma clock_tick_control:
  assumes "player_inv p"
  shows "control_of (clock_tick p) = intent_step (total p) Tick (control_of p)"
proof (cases "timer p")
  case None
  with assms show ?thesis by (auto simp: clock_tick_def player_inv_def timer_inv_def)
next
  case (Some h)
  then have "intent_of p (TimerFires h) = Tick"
    using assms by (simp add: player_inv_def timer_inv_def owns_timer_def)
  with Some assms dispatch_refines [of p "TimerFires h"] show ?thesis
    by (simp add: clock_tick_def player_inv_def del: dispatch.simps intent_of.simps)
qed

lemma clock_ticks_control:
  "player_inv p \<Longrightarrow>
   control_of ((clock_tick ^^ k) p) = (intent_step (total p) Tick ^^ k) (control_of p) \<and>
   player_inv ((clock_tick ^^ k) p) \<and> total ((clock_tick ^^ k) p) = total p"
  by (induction k) (simp_all add: clock_tick_control clock_tick_inv)

lemma ticks_before_end:
  "running c \<Longrightarrow> \<not> gone c \<Longrightarrow> cur c + k < n \<Longrightarrow>
   (intent_step n Tick ^^ k) c = c\<lparr>cur := cur c + k\<rparr>"
  by (induction k) auto

lemma ticks_at_end:
  assumes "running c" "\<not> gone c" "cur c < n" "n \<le> cur c + k"
  shows "(intent_step n Tick ^^ k) c = c\<lparr>cur := n - 1, running := False\<rparr>"
proof -
  have stop: "(intent_step n Tick ^^ Suc (n - 1 - cur c)) c = c\<lparr>cur := n - 1, running := False\<rparr>"
    using assms(1-3) ticks_before_end [of c "n - 1 - cur c" n] by simp
  have stay: "(intent_step n Tick ^^ j) d = d" if "\<not> running d" for j d
    using that by (induction j) auto
  have "Suc (n - 1 - cur c) \<le> k" using assms(3,4) by arith
  then obtain j where k: "k = j + Suc (n - 1 - cur c)"
    by (metis add.commute le_Suc_ex)
  have "(intent_step n Tick ^^ k) c = (intent_step n Tick ^^ j) (c\<lparr>cur := n - 1, running := False\<rparr>)"
    by (simp only: k funpow_add comp_apply stop)
  then show ?thesis by (simp add: stay)
qed

section \<open>After destruction\<close>

definition same_page :: "player \<Rightarrow> player \<Rightarrow> bool" where
  "same_page p q \<longleftrightarrow>
     index p = index q \<and> root p = root q \<and> stage p = stage q \<and> caption p = caption q \<and>
     indicator p = indicator q \<and> live p = live q \<and> ticks p = ticks q \<and>
     btn_prev p = btn_prev q \<and> btn_next p = btn_next q"

lemma same_page_refl [simp]: "same_page p p"
  by (simp add: same_page_def)

lemma destroyed_dispatch:
  assumes "player_inv p" "destroyed p"
  shows "same_page p (dispatch p e)" and "destroyed (dispatch p e)"
proof -
  have l: "\<not> listening p" and t: "handles (timers p) = {}"
    using assms by (auto simp: player_inv_def timer_inv_def owns_timer_def)
  have ops: "pause p = p" "play p = p" "toggle p = p" "next_step p = p" "prev_step p = p"
    "ctl_go_to i p = stop_clock p" for i
    using assms(2) by (simp_all add: pause_def play_def toggle_def next_step_def prev_step_def
        ctl_go_to_def go_to_def kit_simps)
  show "same_page p (dispatch p e)" "destroyed (dispatch p e)"
    using l t assms(2)
    by (cases e; simp add: ops ctl_destroy_def same_page_def kit_simps)+
qed

lemma live_dispatch: "live (dispatch p e) = None \<longleftrightarrow> live p = None"
proof -
  have r: "live (render q) = None \<longleftrightarrow> live q = None" for q
    by (simp add: render_def Let_def kit_simps)
  have go: "live (go_to i a q) = None \<longleftrightarrow> live q = None" for i a q
    by (simp add: go_to_def Let_def kit_simps r)
  have ops: "live (pause q) = None \<longleftrightarrow> live q = None" "live (play q) = None \<longleftrightarrow> live q = None"
    "live (toggle q) = None \<longleftrightarrow> live q = None" "live (next_step q) = None \<longleftrightarrow> live q = None"
    "live (prev_step q) = None \<longleftrightarrow> live q = None" "live (on_timeout q) = None \<longleftrightarrow> live q = None" for q
    by (simp_all add: pause_def play_def toggle_def next_step_def prev_step_def on_timeout_def Let_def
        go r kit_simps)
  show ?thesis
    by (cases e) (simp_all add: on_prev_def on_next_def on_play_def on_key_def on_visibility_def
        ctl_go_to_def ctl_destroy_def ops go kit_simps)
qed

lemma moved_not_destroyed:
  assumes "player_inv p" "index (dispatch p e) \<noteq> index p"
  shows "\<not> destroyed (dispatch p e)"
proof -
  have "index p < total p" using assms(1) by (simp add: player_inv_def)
  then have c: "control_of (dispatch p e) = intent_step (total p) (intent_of p e) (control_of p)"
    by (rule dispatch_refines)
  have "gone (intent_step n i d) \<Longrightarrow> cur (intent_step n i d) = cur d" for n i d
    by (cases i) (auto simp: resumed_def halted_def split: if_splits)
  from this [of "total p" "intent_of p e" "control_of p"] c assms(2) show ?thesis
    by (metis control_of_fields(1,3))
qed

section \<open>A demonstration player\<close>

definition demo_markup :: player_markup where
  "demo_markup = \<lparr>mk_root = blank_elem, mk_stage = Some blank_elem, mk_caption = Some blank_elem,
     mk_live = Some blank_elem, mk_indicator = None, mk_track = Some blank_elem,
     mk_prev = Some blank_elem, mk_play = Some blank_elem, mk_play_label = None,
     mk_next = Some blank_elem\<rparr>"

definition demo_options :: player_options where
  "demo_options = no_options\<lparr>opt_steps :=
     Some [StepStr (lit ''one''), StepObj None (Some (lit ''two'')) (Some (lit ''cap'')), StepOther]\<rparr>"

definition demo_player :: player where
  "demo_player = projr (snd (step_player 0 1 (Some demo_markup) (Some demo_options)))"

lemma demo_mounts: "mounts 0 1 (Some demo_markup) (Some demo_options) demo_player"
  by (simp add: mounts_def demo_player_def step_player_def Let_def demo_options_def no_options_def
      demo_markup_def)

lemma demo_start: "total demo_player = 3" "index demo_player = 0"
  "playing demo_player = False" "destroyed demo_player = False"
  by (simp_all add: demo_player_def step_player_def Let_def demo_options_def no_options_def
      demo_markup_def kit_simps total_def or_zero_def clamp_index_def)

lemma demo_control: "control_of demo_player = \<lparr>cur = 0, running = False, gone = False\<rparr>"
  by (simp add: control_of_def demo_start)

lemma demo_next_play:
  "control_of (foldl dispatch demo_player [CallNext, CallPlay]) = \<lparr>cur = 1, running = True, gone = False\<rparr>"
proof -
  have n: "control_of (dispatch demo_player CallNext) = \<lparr>cur = 1, running = False, gone = False\<rparr>"
    using dispatch_refines [of demo_player CallNext]
    by (simp add: demo_control demo_start del: dispatch.simps)
  moreover have "index (dispatch demo_player CallNext) < total (dispatch demo_player CallNext)"
    using index_dispatch [of demo_player CallNext] by (simp add: demo_start del: dispatch.simps)
  ultimately show ?thesis
    using dispatch_refines [of "dispatch demo_player CallNext" CallPlay]
    by (simp add: demo_start resumed_def del: dispatch.simps)
qed

section \<open>Properties\<close>

text \<open>
  C1: however a player is mounted and whatever happens to it afterwards, its index stays
  within the steps, the window never waits for a timer the player does not remember, and it
  waits for one (a single one) exactly while the player plays and is not destroyed.
\<close>

theorem player_timer_discipline:
  assumes "mounts seq h mk opts p0" and "p = foldl dispatch p0 es"
  shows "index p < total p0 \<and> handles (timers p) = set_option (timer p) \<and>
         length (waiting (timers p)) = (if playing p \<and> \<not> destroyed p then 1 else 0)"
proof -
  have i: "player_inv p" using assms mounts_run_inv by blast
  then have o: "distinct (map fst (waiting (timers p)))" and hs: "handles (timers p) = set_option (timer p)"
    and t: "timer p \<noteq> None \<longleftrightarrow> playing p \<and> \<not> destroyed p"
    by (simp_all add: player_inv_def timer_inv_def owns_timer_def oneshots_ok_def)
  have "length (waiting (timers p)) = card (handles (timers p))"
    using distinct_card [OF o] by (simp add: handles_def)
  with hs t i show ?thesis
    by (cases "timer p") (auto simp: assms(2) run_total player_inv_def)
qed

theorem player_timer_discipline_witness:
  "length (waiting (timers (foldl dispatch demo_player [CallPlay, CallDestroy]))) = 0 \<and>
   length (waiting (timers (foldl dispatch demo_player [CallPlay]))) = 1"
  using player_timer_discipline [OF demo_mounts refl, of "[CallPlay, CallDestroy]"]
    player_timer_discipline [OF demo_mounts refl, of "[CallPlay]"]
  by (simp add: ctl_destroy_def play_def Let_def demo_start kit_simps)

text \<open>
  C2: as long as a mounted player is not destroyed, the page shows its state: the caption is
  the caption of the current step (whatever the page's own callback wrote), the counter and
  the live region name the step and the total, exactly the ticks up to the index are done,
  the two buttons are disabled exactly at the two ends, and the root's attributes, the play
  button's label and its pressed state agree with the index and with whether it plays.
\<close>

theorem player_view_truthful:
  assumes "mounts seq h mk opts p0" and "p = foldl dispatch p0 es" and "\<not> destroyed p"
  shows "shows_state p \<and> shows_label p"
  using mounts_run_inv [OF assms(1), of es] assms(2,3) by (simp add: player_inv_def view_inv_def)

theorem player_view_truthful_witness:
  "let p = foldl dispatch demo_player [CallNext, CallPlay] in
   get_attr ''data-state'' (root p) = Some (lit ''playing'') \<and>
   get_attr ''data-index'' (root p) = Some (lit (dec 1))"
proof -
  have c: "control_of (foldl dispatch demo_player [CallNext, CallPlay]) = \<lparr>cur = 1, running = True, gone = False\<rparr>"
    using demo_next_play by simp
  then have "index (foldl dispatch demo_player [CallNext, CallPlay]) = 1"
    "playing (foldl dispatch demo_player [CallNext, CallPlay])"
    "\<not> destroyed (foldl dispatch demo_player [CallNext, CallPlay])"
    by (simp_all add: control_of_eq del: foldl.simps)
  with player_view_truthful [OF demo_mounts refl, of "[CallNext, CallPlay]"] show ?thesis
    by (simp add: shows_state_def Let_def del: dispatch.simps)
qed

text \<open>
  C3: the code refines the abstract player. Over any sequence of events the index, the
  playing flag and the destroyed flag evolve exactly as the abstract transition function says
  of the corresponding sequence of requests.
\<close>

theorem player_refines_control:
  assumes "mounts seq h mk opts p"
  shows "control_of (foldl dispatch p es) =
         foldl (\<lambda>c i. intent_step (total p) i c) (control_of p) (intents p es)"
proof -
  have "index p < total p"
    using mounts_player_inv [OF assms] by (simp add: player_inv_def)
  then show ?thesis
    by (induction es arbitrary: p)
      (simp_all add: dispatch_refines index_dispatch del: dispatch.simps intent_step.simps intent_of.simps)
qed

theorem player_refines_control_witness:
  "control_of (foldl dispatch demo_player [CallNext, CallPlay, CallDestroy]) =
   \<lparr>cur = 1, running = True, gone = True\<rparr>"
  using player_refines_control [OF demo_mounts, of "[CallNext, CallPlay, CallDestroy]"]
  by (simp add: demo_control demo_start resumed_def del: dispatch.simps)

text \<open>
  C4: autoplay ends by itself and never wraps. A playing player whose timers fire advances by
  one step per tick; once it has had enough ticks it is on the last step, stopped, with no
  timer left, and stays there however often the clock ticks.
\<close>

theorem autoplay_stops_at_end:
  assumes "mounts seq h mk opts p0" and "p = foldl dispatch p0 es"
    and "playing p" and "\<not> destroyed p"
  shows "index ((clock_tick ^^ k) p) = min (index p + k) (total p - 1) \<and>
         (playing ((clock_tick ^^ k) p) \<longleftrightarrow> index p + k < total p) \<and>
         (total p \<le> index p + k \<longrightarrow> waiting (timers ((clock_tick ^^ k) p)) = [])"
proof -
  let ?q = "(clock_tick ^^ k) p"
  have i: "player_inv p" using assms(1,2) mounts_run_inv by blast
  then have b: "index p < total p" by (simp add: player_inv_def)
  have q: "control_of ?q = (intent_step (total p) Tick ^^ k) (control_of p)" "player_inv ?q"
    using clock_ticks_control [OF i, of k] by simp_all
  have c: "control_of ?q = (control_of p)\<lparr>cur := min (index p + k) (total p - 1),
      running := (index p + k < total p)\<rparr>"
    using q(1) assms(3,4) b ticks_before_end [of "control_of p" k "total p"]
      ticks_at_end [of "control_of p" "total p" k]
    by (cases "index p + k < total p") (simp_all add: min_def)
  then have f: "index ?q = min (index p + k) (total p - 1)" "playing ?q = (index p + k < total p)"
    by (metis control.select_convs control.update_convs control.surjective control_of_fields)+
  have "waiting (timers ?q) = []" if "\<not> playing ?q"
    using q(2) that by (auto simp: player_inv_def timer_inv_def owns_timer_def oneshots_empty)
  with f show ?thesis by auto
qed

theorem autoplay_stops_at_end_witness:
  "index ((clock_tick ^^ 7) (foldl dispatch demo_player [CallNext, CallPlay])) = 2 \<and>
   waiting (timers ((clock_tick ^^ 7) (foldl dispatch demo_player [CallNext, CallPlay]))) = []"
proof -
  let ?p = "foldl dispatch demo_player [CallNext, CallPlay]"
  have "index ?p = 1" "playing ?p" "\<not> destroyed ?p" "total ?p = 3"
    using demo_next_play
    by (simp_all add: control_of_eq run_total demo_start del: foldl.simps dispatch.simps)
  then show ?thesis
    using autoplay_stops_at_end [OF demo_mounts refl, of "[CallNext, CallPlay]" 7]
    by (simp del: foldl.simps dispatch.simps funpow.simps)
qed

text \<open>
  Destroying is final. Once a mounted player has been destroyed, no later event or call
  of its controller moves it, repaints the root, the stage, the caption, the counter, the
  live region, the ticks or the two step buttons, or leaves a timer waiting.
\<close>

theorem destroy_is_final:
  assumes "mounts seq h mk opts p0" and "p = foldl dispatch p0 (es @ [CallDestroy])"
  shows "same_page p (foldl dispatch p fs) \<and> waiting (timers (foldl dispatch p fs)) = []"
proof -
  have "player_inv p" "destroyed p"
    using assms mounts_run_inv [OF assms(1), of "es @ [CallDestroy]"]
    by (simp_all add: ctl_destroy_def kit_simps)
  then have "player_inv (foldl dispatch p fs) \<and> destroyed (foldl dispatch p fs) \<and>
      same_page p (foldl dispatch p fs)"
  proof (induction fs rule: rev_induct)
    case (snoc e fs)
    let ?q = "foldl dispatch p fs"
    from snoc have i: "player_inv ?q" and d: "destroyed ?q" and s: "same_page p ?q" by simp_all
    then have "same_page ?q (dispatch ?q e)" "destroyed (dispatch ?q e)"
      using destroyed_dispatch by blast+
    with player_inv_dispatch [OF i] s show ?case
      by (simp add: same_page_def del: dispatch.simps)
  qed (simp add: same_page_def)
  then show ?thesis
    by (auto simp: player_inv_def timer_inv_def owns_timer_def oneshots_empty)
qed

theorem destroy_is_final_witness:
  "waiting (timers (foldl dispatch (foldl dispatch demo_player ([CallPlay] @ [CallDestroy])) [CallPlay])) = []"
  using destroy_is_final [OF demo_mounts refl, of "[CallPlay]" "[CallPlay]"]
  by (simp del: foldl.simps dispatch.simps)

text \<open>
  C26: a step change is announced exactly once. Over any run of a mounted player that has a live region,
  no event makes that region speak twice, and an event that changes the index makes it speak once, with
  the counter and the caption of the new step.
\<close>

theorem step_change_announced_once:
  assumes "mounts seq h mk opts p0" and "p = foldl dispatch p0 es"
    and "live p = Some l" and "q = dispatch p e"
  shows "announcements q \<le> announcements p + 1 \<and>
         (index q \<noteq> index p \<longrightarrow>
            announcements q = announcements p + 1 \<and>
            (\<exists>m. live q = Some m \<and>
               content m = Text (live_text (index q) (total p) (caption_of (steps p ! index q)))))"
proof -
  have s: "speaks_once p q" using assms(4) speaks_once_dispatch by simp
  have i: "player_inv p" using assms(1,2) mounts_run_inv by blast
  have moved: "\<exists>m. live q = Some m \<and>
      content m = Text (live_text (index q) (total p) (caption_of (steps p ! index q)))"
    if "index q \<noteq> index p"
  proof -
    have "\<not> destroyed p"
      using that assms(4) destroyed_dispatch [OF i] by (auto simp: same_page_def)
    then have d: "\<not> destroyed q"
      using that assms(4) moved_not_destroyed [OF i] by blast
    have "live q \<noteq> None"
      using assms(3,4) live_dispatch [of p e] by simp
    with d player_inv_dispatch [OF i, of e] assms(4) show ?thesis
      by (auto simp: player_inv_def view_inv_def shows_state_def dispatch_steps)
  qed
  with s assms(3) show ?thesis by (auto simp: speaks_once_def)
qed

theorem step_change_announced_once_witness:
  "announcements (dispatch demo_player CallNext) = announcements demo_player + 1"
proof -
  obtain l where l: "live demo_player = Some l"
    by (simp add: demo_player_def step_player_def Let_def demo_options_def no_options_def
        demo_markup_def render_def kit_simps)
  have "index (dispatch demo_player CallNext) = 1"
    using dispatch_refines [of demo_player CallNext]
    by (simp add: demo_control demo_start control_of_eq del: dispatch.simps)
  then show ?thesis
    using step_change_announced_once [OF demo_mounts, of demo_player "[]" l _ CallNext] l
    by (simp add: demo_start del: dispatch.simps)
qed

text \<open>
  Backward stepping is available at every index above 0 and forward stepping at every
  index below the last; each takes over from autoplay, each undoes the other, and at the ends
  they do nothing at all.
\<close>

theorem stepping_forth_and_back:
  assumes "mounts seq h mk opts p0" and "p = foldl dispatch p0 es" and "\<not> destroyed p"
  shows "(if 0 < index p
          then index (dispatch p CallPrev) = index p - 1 \<and> \<not> playing (dispatch p CallPrev) \<and>
               index (dispatch (dispatch p CallPrev) CallNext) = index p
          else dispatch p CallPrev = p) \<and>
         (if index p < total p - 1
          then index (dispatch p CallNext) = index p + 1 \<and> \<not> playing (dispatch p CallNext) \<and>
               index (dispatch (dispatch p CallNext) CallPrev) = index p
          else dispatch p CallNext = p)"
proof -
  have b: "index p < total p"
    using mounts_run_inv [OF assms(1)] assms(2) by (simp add: player_inv_def)
  have n: "control_of (dispatch q CallNext) = intent_step (total q) Forward (control_of q)"
    and v: "control_of (dispatch q CallPrev) = intent_step (total q) Backward (control_of q)"
    if "index q < total q" for q
    using that dispatch_refines by (auto simp del: dispatch.simps)
  let ?v = "dispatch p CallPrev" and ?n = "dispatch p CallNext"
  have bwd: "0 < index p \<Longrightarrow> control_of ?v = \<lparr>cur = index p - 1, running = False, gone = False\<rparr>"
    using v [OF b] assms(3) by (simp add: control_of_def del: dispatch.simps)
  have fwd: "index p < total p - 1 \<Longrightarrow> control_of ?n = \<lparr>cur = index p + 1, running = False, gone = False\<rparr>"
    using n [OF b] assms(3) by (simp add: control_of_def del: dispatch.simps)
  have bwd_fwd: "index (dispatch ?v CallNext) = index p" if "0 < index p"
  proof -
    have "control_of (dispatch ?v CallNext) =
        intent_step (total p) Forward \<lparr>cur = index p - 1, running = False, gone = False\<rparr>"
      using n [of ?v] bwd [OF that] index_dispatch [OF b, of CallPrev] by (simp del: dispatch.simps)
    moreover have "\<not> total p - 1 \<le> index p - 1" using that b by arith
    ultimately show ?thesis using that by (simp add: control_of_eq del: dispatch.simps)
  qed
  have fwd_bwd: "index (dispatch ?n CallPrev) = index p" if "index p < total p - 1"
  proof -
    have "control_of (dispatch ?n CallPrev) =
        intent_step (total p) Backward \<lparr>cur = index p + 1, running = False, gone = False\<rparr>"
      using v [of ?n] fwd [OF that] index_dispatch [OF b, of CallNext] by (simp del: dispatch.simps)
    then show ?thesis by (simp add: control_of_eq del: dispatch.simps)
  qed
  have ends: "index p = 0 \<Longrightarrow> ?v = p" "\<not> index p < total p - 1 \<Longrightarrow> ?n = p"
    by (simp_all add: prev_step_def next_step_def)
  from bwd fwd bwd_fwd fwd_bwd ends show ?thesis
    by (auto simp: control_of_eq simp del: dispatch.simps)
qed

theorem stepping_forth_and_back_witness:
  "dispatch demo_player CallPrev = demo_player \<and> index (dispatch demo_player CallNext) = 1"
  using stepping_forth_and_back [OF demo_mounts, of demo_player "[]"]
  by (simp add: demo_start del: dispatch.simps)

text \<open>
  A key press belongs to the player only when nobody has handled it, no modifier is held
  and the focus is not in a text field; then exactly the arrows, Home, End and, on the stage
  itself, the space bar are taken (and their default prevented). Any other key press leaves
  the player alone; Home and End stop autoplay and go to the first and the last step.
\<close>

theorem key_press_routing:
  assumes "index p < total p" and "\<not> destroyed p"
  shows "(fst (on_key ev p) \<longleftrightarrow>
            \<not> (ev_default_prevented ev \<or> ev_alt ev \<or> ev_ctrl ev \<or> ev_meta ev) \<and>
            \<not> typing_target (ev_target ev) \<and>
            (ev_key ev \<in> {''ArrowRight'', ''ArrowLeft'', ''Home'', ''End''} \<or>
             ev_key ev \<in> {'' '', ''Spacebar''} \<and> tgt_stage (ev_target ev))) \<and>
         (\<not> fst (on_key ev p) \<longrightarrow> snd (on_key ev p) = p) \<and>
         (fst (on_key ev p) \<longrightarrow> ev_key ev = ''Home'' \<longrightarrow>
            control_of (snd (on_key ev p)) = \<lparr>cur = 0, running = False, gone = False\<rparr>) \<and>
         (fst (on_key ev p) \<longrightarrow> ev_key ev = ''End'' \<longrightarrow>
            control_of (snd (on_key ev p)) = \<lparr>cur = total p - 1, running = False, gone = False\<rparr>)"
proof -
  have "clamp_index (total p) (JFin 0) = 0"
    using clamp_index_nat [of "total p" 0] assms(1) by simp
  then have "control_of (go_to (JFin 0) True (stop_clock p)) = \<lparr>cur = 0, running = False, gone = False\<rparr>"
    using assms(2) control_seek [of "JFin 0" p] by (simp add: control_of_def)
  moreover have "clamp_index (total p) (JFin (of_nat (total p) - 1)) = total p - 1"
    using clamp_index_nat [of "total p" "total p - 1"] assms(1) by (simp add: of_nat_diff)
  then have "control_of (go_to (JFin (of_nat (total p) - 1)) True (stop_clock p)) =
      \<lparr>cur = total p - 1, running = False, gone = False\<rparr>"
    using assms(2) control_seek [of "JFin (of_nat (total p) - 1)" p] by (simp add: control_of_def)
  ultimately show ?thesis by (simp add: on_key_def)
qed

definition plain_key :: "string \<Rightarrow> key_event" where
  "plain_key k = \<lparr>ev_key = k, ev_default_prevented = False, ev_alt = False, ev_ctrl = False,
     ev_meta = False, ev_target = \<lparr>tgt_element = True, tgt_tag = ''DIV'', tgt_editable = False,
       tgt_stage = True\<rparr>\<rparr>"

theorem key_press_routing_witness:
  "control_of (snd (on_key (plain_key ''End'') demo_player)) = \<lparr>cur = 2, running = False, gone = False\<rparr>"
  using key_press_routing [of demo_player "plain_key ''End''"]
  by (simp add: demo_start plain_key_def typing_target_def)

text \<open>
  Mounting fails closed. Without a root element, without steps or without a stage nothing
  is mounted, the player counter is unchanged and the warning says which of the three is
  missing; in every other case a player is mounted, paused, on the clamped start index.
\<close>

theorem mounting_result:
  "step_player seq h mk opts =
     (case mk of
        None \<Rightarrow> (seq, Inl (kit_warning ''stepPlayer: root element missing, nothing mounted.''))
      | Some m \<Rightarrow>
          if opt_steps (case opts of None \<Rightarrow> no_options | Some os \<Rightarrow> os) \<in> {None, Some []}
          then (seq, Inl (kit_warning ''stepPlayer: no steps supplied, nothing mounted.''))
          else if mk_stage m = None
          then (seq, Inl (kit_warning ''stepPlayer: no [data-k-stage] inside the player root.''))
          else (seq + 1, Inr (projr (snd (step_player seq h mk opts))))) \<and>
   (case snd (step_player seq h mk opts) of
      Inl _ \<Rightarrow> True
    | Inr p \<Rightarrow> \<not> playing p \<and> \<not> destroyed p \<and> waiting (timers p) = [] \<and>
        index p = clamp_index (total p) (or_zero (Option.bind opts opt_start_index)))"
  by (auto simp: step_player_def Let_def no_options_def kit_simps total_def
      split: option.splits list.splits)

end
