(* ===== verification/KitReenter.thy ===== *)
theory KitReenter
  imports KitPlayer
begin

text \<open>
  The step player of docs/kit.js when the page's \<open>onRender\<close> calls the player back. The callback runs
  in the middle of \<open>render\<close> and may use the controller, click the buttons or press keys before it
  returns or throws, and each of these renders again and so calls the callback again. What it does is
  a tree: it paints, it raises an event and goes on as the player then is, it returns or it throws.

  The functions are those of KitPlayer over a rendering that is an argument, and the rendering calls
  the callback to a given depth of nesting: that is the stack of the browser, on which one more call
  throws. A callback that uses no part of the player leaves the functions of KitPlayer.
\<close>

section \<open>The callback\<close>

datatype script =
    Returns
  | Throws
  | Paints "elem \<Rightarrow> elem" "elem \<Rightarrow> elem" "elem \<Rightarrow> elem" script
  | Raises event "player \<Rightarrow> script"

type_synonym callback = "step \<Rightarrow> nat \<Rightarrow> nat \<Rightarrow> script"

text \<open>Whether it threw, and the player it leaves; \<open>raise\<close> is what an event does.\<close>

primrec run_script :: "(player \<Rightarrow> event \<Rightarrow> player) \<Rightarrow> script \<Rightarrow> player \<Rightarrow> bool \<times> player" where
  "run_script raise Returns p = (False, p)"
| "run_script raise Throws p = (True, p)"
| "run_script raise (Paints f g h s) p =
     run_script raise s (p\<lparr>stage := f (stage p), caption := map_option g (caption p), root := h (root p)\<rparr>)"
| "run_script raise (Raises e k) p = run_script raise (k (raise p e)) (raise p e)"

section \<open>Rendering\<close>

text \<open>
  The second half of \<open>render\<close>. The step was read before the callback ran; the index, the total and
  the playing flag are read now.
\<close>

definition show_step :: "step \<Rightarrow> player \<Rightarrow> player" where
  "show_step s p =
     (let text = caption_of s in
      p\<lparr>caption := map_option (set_text text) (caption p),
        indicator := map_option (set_text (counter_text (index p) (total p))) (indicator p),
        live := map_option (set_text (live_text (index p) (total p) text)) (live p),
        ticks := mark_ticks (index p) (ticks p),
        btn_prev := set_disabled (index p = 0) (btn_prev p),
        btn_next := set_disabled (index p = total p - 1) (btn_next p),
        root := set_attr ''data-index'' (lit (dec (index p)))
                  (set_attr ''data-state'' (lit (if playing p then ''playing'' else ''paused'')) (root p))\<rparr>)"

definition render_by :: "(player \<Rightarrow> bool \<times> player) \<Rightarrow> player \<Rightarrow> player" where
  "render_by call p =
     (let s = steps p ! index p in
      case on_render p of
        None \<Rightarrow> show_step s (p\<lparr>stage := default_render s (stage p)\<rparr>)
      | Some _ \<Rightarrow>
          (case call p of (t, q) \<Rightarrow>
             show_step s
               (if t
                then q\<lparr>stage := default_render s (stage q),
                       warnings := warnings q @
                         [lit (''[Kit] stepPlayer: onRender threw at step '' @ dec (index q + 1) @ ''.'')]\<rparr>
                else q)))"

section \<open>The inner functions over a rendering\<close>

definition pause_by :: "(player \<Rightarrow> player) \<Rightarrow> player \<Rightarrow> player" where
  "pause_by R p = (if destroyed p then p else R (stop_clock p))"

definition play_by :: "(player \<Rightarrow> player) \<Rightarrow> player \<Rightarrow> player" where
  "play_by R p =
     (if destroyed p \<or> playing p then p
      else let p1 = (if total p - 1 \<le> index p then p\<lparr>index := 0\<rparr> else p)
           in schedule (R (set_play_label (p1\<lparr>playing := True\<rparr>))))"

definition toggle_by :: "(player \<Rightarrow> player) \<Rightarrow> player \<Rightarrow> player" where
  "toggle_by R p = (if playing p then pause_by R p else play_by R p)"

definition go_to_by :: "(player \<Rightarrow> player) \<Rightarrow> jsnum \<Rightarrow> bool \<Rightarrow> player \<Rightarrow> player" where
  "go_to_by R i announce p =
     (if destroyed p then p
      else let k = clamp_index (total p) i in
        if k = index p \<and> \<not> announce then p
        else let p1 = R (p\<lparr>index := k\<rparr>)
             in if playing p1 then schedule p1 else p1)"

definition next_by :: "(player \<Rightarrow> player) \<Rightarrow> player \<Rightarrow> player" where
  "next_by R p =
     (if destroyed p \<or> total p - 1 \<le> index p then p
      else let p1 = stop_clock p in go_to_by R (JFin (of_nat (index p1 + 1))) True p1)"

definition prev_by :: "(player \<Rightarrow> player) \<Rightarrow> player \<Rightarrow> player" where
  "prev_by R p =
     (if destroyed p \<or> index p \<le> 0 then p
      else let p1 = stop_clock p in go_to_by R (JFin (of_nat (index p1) - 1)) True p1)"

definition timeout_by :: "(player \<Rightarrow> player) \<Rightarrow> player \<Rightarrow> player" where
  "timeout_by R p0 =
     (let p = p0\<lparr>timer := None\<rparr> in
      if \<not> playing p \<or> destroyed p then p
      else if total p - 1 \<le> index p then pause_by R p
      else schedule (R (p\<lparr>index := index p + 1\<rparr>)))"

definition key_by :: "(player \<Rightarrow> player) \<Rightarrow> key_event \<Rightarrow> player \<Rightarrow> player" where
  "key_by R ev p =
     (if ev_default_prevented ev \<or> ev_alt ev \<or> ev_ctrl ev \<or> ev_meta ev then p
      else if typing_target (ev_target ev) then p
      else if ev_key ev = ''ArrowRight'' then next_by R p
      else if ev_key ev = ''ArrowLeft'' then prev_by R p
      else if ev_key ev = ''Home'' then go_to_by R (JFin 0) True (stop_clock p)
      else if ev_key ev = ''End'' then go_to_by R (JFin (of_nat (total p) - 1)) True (stop_clock p)
      else if (ev_key ev = '' '' \<or> ev_key ev = ''Spacebar'') \<and> tgt_stage (ev_target ev) then toggle_by R p
      else p)"

fun dispatch_by :: "(player \<Rightarrow> player) \<Rightarrow> player \<Rightarrow> event \<Rightarrow> player" where
  "dispatch_by R p ClickPrev = (if listening p \<and> btn_prev p \<noteq> None then prev_by R p else p)"
| "dispatch_by R p ClickNext = (if listening p \<and> btn_next p \<noteq> None then next_by R p else p)"
| "dispatch_by R p ClickPlay = (if listening p \<and> btn_play p \<noteq> None then toggle_by R p else p)"
| "dispatch_by R p (KeyDown ev) = (if listening p then key_by R ev p else p)"
| "dispatch_by R p (Visibility hidden) = (if listening p \<and> hidden \<and> playing p then pause_by R p else p)"
| "dispatch_by R p (TimerFires h) =
     (if h \<in> handles (timers p) then timeout_by R (p\<lparr>timers := withdraw h (timers p)\<rparr>) else p)"
| "dispatch_by R p CallPlay = play_by R p"
| "dispatch_by R p CallPause = pause_by R p"
| "dispatch_by R p CallToggle = toggle_by R p"
| "dispatch_by R p CallNext = next_by R p"
| "dispatch_by R p CallPrev = prev_by R p"
| "dispatch_by R p (CallGoTo i) = go_to_by R i True (stop_clock p)"
| "dispatch_by R p CallDestroy = ctl_destroy p"

text \<open>A call of the callback with room for \<open>d\<close> calls on the stack, and an event that meets it.\<close>

primrec invoke :: "nat \<Rightarrow> callback \<Rightarrow> player \<Rightarrow> bool \<times> player" where
  "invoke 0 cb p = (True, p)"
| "invoke (Suc d) cb p =
     run_script (dispatch_by (render_by (invoke d cb))) (cb (steps p ! index p) (index p) (total p)) p"

definition dispatch_in :: "nat \<Rightarrow> callback \<Rightarrow> player \<Rightarrow> event \<Rightarrow> player" where
  "dispatch_in d cb = dispatch_by (render_by (invoke d cb))"

section \<open>A callback that leaves the player alone\<close>

text \<open>The functions see of a rendering what it does to players with the same \<open>onRender\<close>.\<close>

lemma dispatch_by_render:
  assumes "\<And>q. on_render q = on_render p \<Longrightarrow> R q = render q"
  shows "dispatch_by R p e = dispatch p e"
proof -
  have stop: "on_render (stop_clock q) = on_render q" for q
    by (simp add: stop_clock_def kit_simps)
  have pl: "pause_by R q = pause q" "play_by R q = play q" "go_to_by R i a q = go_to i a q"
    if "on_render q = on_render p" for q i a
    using that by (simp_all add: pause_by_def pause_def play_by_def play_def go_to_by_def go_to_def Let_def
        assms stop kit_simps)
  then have ops: "toggle_by R q = toggle q" "next_by R q = next_step q" "prev_by R q = prev_step q"
    "timeout_by R q = on_timeout q" if "on_render q = on_render p" for q
    using that by (simp_all add: toggle_by_def toggle_def next_by_def next_step_def prev_by_def
        prev_step_def timeout_by_def on_timeout_def Let_def assms stop kit_simps)
  show ?thesis
    by (cases e) (auto simp: key_by_def on_key_def on_prev_def on_next_def on_play_def on_visibility_def
        ctl_go_to_def pl ops stop kit_simps)
qed

text \<open>The effect of a callback of KitPlayer, as a tree.\<close>

definition plain_callback :: "render_fn \<Rightarrow> callback" where
  "plain_callback f s i n = (let r = f s i n in
     Paints (on_stage r) (on_caption r) (on_root r) (if threw r then Throws else Returns))"

lemma render_by_plain:
  "on_render p \<in> {None, Some f} \<Longrightarrow> render_by (invoke (Suc d) (plain_callback f)) p = render p"
  by (auto simp: render_by_def render_def render_stage_def show_step_def plain_callback_def Let_def total_def)

lemma dispatch_in_plain:
  "on_render p \<in> {None, Some f} \<Longrightarrow> dispatch_in (Suc d) (plain_callback f) p e = dispatch p e"
  unfolding dispatch_in_def by (rule dispatch_by_render) (metis render_by_plain)

section \<open>What holds in the middle of a rendering\<close>

text \<open>
  The invariant of a player at any moment, renderings included: between the start of \<open>play\<close> and its
  \<open>schedule\<close> a player plays without a timer, so only one half of the timer discipline is part of it.
  The other half is \<open>calm\<close>.
\<close>

definition sound :: "player \<Rightarrow> bool" where
  "sound p \<longleftrightarrow> index p < total p \<and> owns_timer p \<and> (timer p \<noteq> None \<longrightarrow> playing p \<and> \<not> destroyed p) \<and>
     (listening p \<longleftrightarrow> \<not> destroyed p) \<and> shows_label p"

definition calm :: "player \<Rightarrow> bool" where
  "calm p \<longleftrightarrow> (playing p \<and> \<not> destroyed p \<longrightarrow> timer p \<noteq> None)"

text \<open>What the page shows when its caption is that of the step \<open>s\<close>.\<close>

definition shows_as :: "step \<Rightarrow> player \<Rightarrow> bool" where
  "shows_as s p \<longleftrightarrow>
     pred_option (\<lambda>e. content e = Text (caption_of s)) (caption p) \<and>
     pred_option (\<lambda>e. content e = Text (counter_text (index p) (total p))) (indicator p) \<and>
     pred_option (\<lambda>e. content e = Text (live_text (index p) (total p) (caption_of s))) (live p) \<and>
     (\<forall>i < length (ticks p). get_attr ''data-done'' (ticks p ! i) = Some (bool_text (i \<le> index p))) \<and>
     pred_option (\<lambda>e. get_attr ''aria-disabled'' e = Some (bool_text (index p = 0))) (btn_prev p) \<and>
     pred_option (\<lambda>e. get_attr ''aria-disabled'' e = Some (bool_text (index p = total p - 1))) (btn_next p) \<and>
     get_attr ''data-index'' (root p) = Some (lit (dec (index p))) \<and>
     get_attr ''data-state'' (root p) = Some (lit (if playing p then ''playing'' else ''paused''))"

definition painted :: "player \<Rightarrow> bool" where
  "painted p \<longleftrightarrow> (\<exists>s \<in> set (steps p). shows_as s p)"

definition at_rest :: "player \<Rightarrow> bool" where
  "at_rest p \<longleftrightarrow> sound p \<and> calm p \<and> (destroyed p \<or> painted p)"

lemma shows_as_state: "shows_as (steps p ! index p) p = shows_state p"
  by (simp add: shows_as_def shows_state_def)

lemma player_inv_rest: "player_inv p \<Longrightarrow> shows_label p \<Longrightarrow> at_rest p"
  by (auto simp: player_inv_def at_rest_def sound_def calm_def timer_inv_def view_inv_def painted_def
      simp flip: shows_as_state intro: nth_mem simp: total_def)

lemma show_step_frame [kit_simps]:
  "steps (show_step s p) = steps p" "index (show_step s p) = index p" "playing (show_step s p) = playing p"
  "destroyed (show_step s p) = destroyed p" "timer (show_step s p) = timer p"
  "timers (show_step s p) = timers p" "listening (show_step s p) = listening p"
  "btn_play (show_step s p) = btn_play p" "play_label (show_step s p) = play_label p"
  "total (show_step s p) = total p"
  by (simp_all add: show_step_def Let_def total_def)

lemma show_step_shows: "shows_as s (show_step s p)"
  by (simp add: shows_as_def show_step_def Let_def kit_simps mark_ticks_nth option.pred_map
      set_disabled_def comp_def option.pred_True total_def)

text \<open>The parts of a player that the invariant does not read.\<close>

lemma sound_cong:
  assumes "index q = index p" "total q = total p" "timers q = timers p" "timer q = timer p"
    "playing q = playing p" "destroyed q = destroyed p" "listening q = listening p"
    "btn_play q = btn_play p" "play_label q = play_label p"
  shows "sound q = sound p" and "calm q = calm p"
  using assms shows_label_cong [of q p] by (simp_all add: sound_def calm_def owns_timer_def)

lemma sound_show_step [simp]: "sound (show_step s p) = sound p" "calm (show_step s p) = calm p"
  by (rule sound_cong; simp add: kit_simps)+

lemma rest_stop_clock: "sound p \<Longrightarrow> sound (stop_clock p) \<and> calm (stop_clock p)"
  using timer_inv_stop_clock [of p]
  by (simp add: sound_def calm_def kit_simps) (simp add: timer_inv_def)

lemma painted_schedule [simp]: "painted (schedule p) = painted p"
  by (simp add: painted_def shows_as_def kit_simps)

lemma sound_schedule: "sound p \<Longrightarrow> sound (schedule p) \<and> calm (schedule p)"
  using owns_schedule [of p] by (simp add: sound_def calm_def kit_simps)

text \<open>A rendering keeps the invariant, whenever it runs, and leaves the page painted.\<close>

locale painter =
  fixes R :: "player \<Rightarrow> player"
  assumes R_steps: "steps (R p) = steps p"
    and R_sound: "sound p \<Longrightarrow> sound (R p) \<and> painted (R p)"
    and R_calm: "sound p \<Longrightarrow> calm p \<Longrightarrow> calm (R p)"
begin

lemma rest_R: "sound p \<Longrightarrow> calm p \<Longrightarrow> at_rest (R p)"
  by (simp add: at_rest_def R_sound R_calm)

lemma rest_schedule_R: "sound p \<Longrightarrow> at_rest (schedule (R p))"
  using R_sound [of p] sound_schedule [of "R p"] by (simp add: at_rest_def)

lemma rest_pause: "sound p \<Longrightarrow> pause_by R p = p \<or> at_rest (pause_by R p)"
  by (simp add: pause_by_def rest_R rest_stop_clock)

lemma rest_play:
  assumes "sound p"
  shows "play_by R p = p \<or> at_rest (play_by R p)"
proof -
  have "sound (set_play_label (p\<lparr>index := i, playing := True\<rparr>))" if "\<not> destroyed p" "i < total p" for i
    using assms that set_play_label_shows_label by (simp add: sound_def kit_simps)
  moreover have "0 < total p" "index p < total p" "p\<lparr>index := index p\<rparr> = p"
    using assms by (simp_all add: sound_def)
  ultimately have "sound (set_play_label (p\<lparr>index := 0, playing := True\<rparr>))"
      "sound (set_play_label (p\<lparr>playing := True\<rparr>))" if "\<not> destroyed p"
    using that by metis+
  then show ?thesis by (auto simp: play_by_def Let_def rest_schedule_R)
qed

lemma rest_go_to: "sound p \<Longrightarrow> at_rest (go_to_by R i True (stop_clock p))"
proof (cases "destroyed p")
  case True
  assume "sound p"
  with True rest_stop_clock show ?thesis
    by (simp add: go_to_by_def kit_simps at_rest_def)
next
  case False
  assume p: "sound p"
  let ?q = "(stop_clock p)\<lparr>index := clamp_index (total p) i\<rparr>"
  have "0 < total p" using p by (simp add: sound_def)
  then have "sound ?q" "calm ?q"
    using rest_stop_clock [OF p] clamp_index_bound by (simp_all add: sound_def calm_def kit_simps)
  then have "at_rest (R ?q)" "at_rest (schedule (R ?q))"
    by (simp_all add: rest_R rest_schedule_R)
  with False show ?thesis by (simp add: go_to_by_def Let_def kit_simps)
qed

lemma rest_step: "sound p \<Longrightarrow> next_by R p = p \<or> at_rest (next_by R p)" "sound p \<Longrightarrow> prev_by R p = p \<or> at_rest (prev_by R p)"
  by (simp_all add: next_by_def prev_by_def Let_def rest_go_to)

lemma rest_timeout:
  assumes "sound p" "h \<in> handles (timers p)"
  shows "at_rest (timeout_by R (p\<lparr>timers := withdraw h (timers p)\<rparr>))"
proof -
  let ?q = "p\<lparr>timers := withdraw h (timers p), timer := None\<rparr>"
  from assms have t: "timer p = Some h" "playing p" "\<not> destroyed p" and o: "oneshots_ok (timers p)"
    by (auto simp: sound_def owns_timer_def)
  have "owns_timer ?q"
    using assms(1) t(1) shots.ok_del [OF o] shots.hs_del [OF o, of h] by (simp add: sound_def owns_timer_def)
  then have "sound ?q" "index p + 1 < total p \<Longrightarrow> sound (?q\<lparr>index := index p + 1\<rparr>)"
    using assms(1) by (simp_all add: sound_def kit_simps)
  then show ?thesis
    using t(2,3) rest_schedule_R [of "?q\<lparr>index := index p + 1\<rparr>"] rest_stop_clock [of ?q] rest_R [of "stop_clock ?q"]
    by (auto simp: timeout_by_def pause_by_def Let_def kit_simps)
qed

text \<open>An event does nothing or leaves the player at rest, also in the middle of a rendering.\<close>

lemma rest_dispatch:
  assumes "sound p"
  shows "dispatch_by R p e = p \<or> at_rest (dispatch_by R p e)"
proof -
  note ops = rest_pause [OF assms] rest_play [OF assms] rest_go_to [OF assms] rest_step [OF assms]
  have key: "key_by R ev p = p \<or> at_rest (key_by R ev p)" for ev
    using ops by (auto simp: key_by_def toggle_by_def)
  show ?thesis
  proof (cases e)
    case CallDestroy
    let ?q = "clear_timer (p\<lparr>destroyed := True\<rparr>)"
    have "owns_timer ?q" "shows_label ?q"
      using owns_clear_timer(1) [of "p\<lparr>destroyed := True\<rparr>"] assms shows_label_cong [of "p\<lparr>destroyed := True\<rparr>" p]
      by (simp_all add: sound_def)
    then have "at_rest (ctl_destroy p)"
      using assms shows_label_cong [of "?q\<lparr>listening := False\<rparr>" ?q]
      by (simp add: ctl_destroy_def at_rest_def sound_def calm_def kit_simps)
    with CallDestroy show ?thesis by simp
  qed (use ops key rest_timeout [OF assms] in \<open>auto simp: toggle_by_def\<close>)
qed

lemma dispatch_sound: "sound p \<Longrightarrow> sound (dispatch_by R p e)"
  using rest_dispatch [of p e] by (auto simp: at_rest_def)

lemma dispatch_calm: "sound p \<Longrightarrow> calm p \<Longrightarrow> calm (dispatch_by R p e)"
  using rest_dispatch [of p e] by (auto simp: at_rest_def)

lemma dispatch_rest: "at_rest p \<Longrightarrow> at_rest (dispatch_by R p e)"
  using rest_dispatch [of p e] by (auto simp: at_rest_def)

lemma dispatch_by_steps: "steps (dispatch_by R p e) = steps p"
proof -
  have go: "steps (go_to_by R i a q) = steps q" for i a q
    by (simp add: go_to_by_def Let_def kit_simps R_steps)
  have ops: "steps (pause_by R q) = steps q" "steps (play_by R q) = steps q"
    "steps (next_by R q) = steps q" "steps (prev_by R q) = steps q" for q
    by (simp_all add: pause_by_def play_by_def next_by_def prev_by_def Let_def go R_steps kit_simps)
  then have "steps (timeout_by R q) = steps q" "steps (toggle_by R q) = steps q" for q
    by (simp_all add: timeout_by_def toggle_by_def Let_def R_steps kit_simps)
  with ops show ?thesis
    by (cases e) (simp_all add: key_by_def ctl_destroy_def go kit_simps)
qed

lemma script_keeps:
  "sound p \<Longrightarrow> sound (snd (run_script (dispatch_by R) s p)) \<and>
     (calm p \<longrightarrow> calm (snd (run_script (dispatch_by R) s p)))"
proof (induction s arbitrary: p)
  case (Paints f g h s)
  let ?q = "p\<lparr>stage := f (stage p), caption := map_option g (caption p), root := h (root p)\<rparr>"
  have "sound ?q = sound p" "calm ?q = calm p"
    by (rule sound_cong; simp add: total_def)+
  with Paints.IH [of ?q] Paints.prems show ?case by simp
next
  case (Raises e k)
  then show ?case
    by (simp add: dispatch_sound dispatch_calm del: dispatch_by.simps)
qed simp_all

lemma script_steps: "steps (snd (run_script (dispatch_by R) s p)) = steps p"
  by (induction s arbitrary: p) (simp_all add: dispatch_by_steps del: dispatch_by.simps)

end

text \<open>A rendering is a painter when what it calls keeps the invariant.\<close>

lemma painter_render_by:
  assumes call: "\<And>p. sound p \<Longrightarrow> sound (snd (call p)) \<and> (calm p \<longrightarrow> calm (snd (call p)))"
    and call_steps: "\<And>p. steps (snd (call p)) = steps p"
  shows "painter (render_by call)"
proof -
  have frame: "sound (p\<lparr>stage := x\<rparr>) = sound p" "calm (p\<lparr>stage := x\<rparr>) = calm p"
    "sound (p\<lparr>stage := x, warnings := ws\<rparr>) = sound p" "calm (p\<lparr>stage := x, warnings := ws\<rparr>) = calm p" for p x ws
    by (rule sound_cong; simp add: total_def)+
  have "\<exists>q. render_by call p = show_step (steps p ! index p) q \<and> steps q = steps p \<and>
      (sound p \<longrightarrow> sound q \<and> (calm p \<longrightarrow> calm q))" for p
    using call [of p] call_steps [of p]
    by (cases "on_render p"; cases "call p") (auto simp: render_by_def Let_def frame)
  moreover have "steps p ! index p \<in> set (steps p)" if "sound p" for p
    using that by (simp add: sound_def total_def)
  ultimately show ?thesis
    by unfold_locales (metis show_step_frame(1), metis show_step_frame(1) show_step_shows sound_show_step(1)
        painted_def, metis sound_show_step(2))
qed

lemma painter_invoke: "painter (render_by (invoke d cb))"
proof (induction d)
  case 0
  show ?case by (rule painter_render_by) simp_all
next
  case (Suc d)
  show ?case
    by (rule painter_render_by)
      (simp_all add: painter.script_keeps [OF Suc] painter.script_steps [OF Suc])
qed

interpretation pnt: painter "render_by (invoke d cb)" for d cb
  by (rule painter_invoke)

interpretation plr_in: machine "dispatch_in d cb" at_rest for d cb
  by unfold_locales (simp add: dispatch_in_def pnt.dispatch_rest)

lemma mounts_at_rest: "mounts seq h mk opts p \<Longrightarrow> at_rest p"
proof (rule player_inv_rest)
  assume m: "mounts seq h mk opts p"
  then show "player_inv p" by (rule mounts_player_inv)
  with m show "shows_label p"
    by (auto simp: mounts_def step_player_def Let_def set_play_label_shows_label split: option.splits list.splits)
qed

lemma run_in_steps: "steps (foldl (dispatch_in d cb) p es) = steps p"
  by (induction es arbitrary: p) (simp_all add: dispatch_in_def pnt.dispatch_by_steps del: dispatch_by.simps)

section \<open>Property\<close>

text \<open>
  C5: a page callback cannot break the player by calling it back. Whatever the callback of a mounted
  player paints, however it uses the controller, the buttons and the keys before it returns or throws,
  and however deep such calls nest, every event leaves the player with an index within its steps, with
  one timer exactly while it plays and is not destroyed and none otherwise, with the label of the play
  button in agreement, and, unless it is destroyed, with the counter, the ticks, the two step buttons
  and the attributes of the root as they should be for its index; caption and announcement are those
  of one of its steps, which need not be the current one when the callback has moved the player.
\<close>

theorem callback_cannot_break_the_player:
  assumes "mounts seq h mk opts p0" and "p = foldl (dispatch_in d cb) p0 es"
  shows "index p < total p0 \<and> handles (timers p) = set_option (timer p) \<and>
    length (waiting (timers p)) = (if playing p \<and> \<not> destroyed p then 1 else 0) \<and> shows_label p \<and>
    (destroyed p \<or> (\<exists>s. s \<in> set (steps p0) \<and> shows_as s p))"
proof -
  have r: "at_rest p"
    unfolding assms(2) by (rule plr_in.runs_inv [OF mounts_at_rest [OF assms(1)]])
  have t: "steps p = steps p0" by (simp add: assms(2) run_in_steps)
  from r have p: "index p < total p" "oneshots_ok (timers p)" "handles (timers p) = set_option (timer p)"
    "shows_label p" "destroyed p \<or> painted p"
    unfolding at_rest_def sound_def owns_timer_def by blast+
  from r have "timer p \<noteq> None \<longrightarrow> playing p \<and> \<not> destroyed p" "playing p \<and> \<not> destroyed p \<longrightarrow> timer p \<noteq> None"
    unfolding at_rest_def sound_def calm_def by blast+
  moreover have "length (waiting (timers p)) = card (handles (timers p))"
    using p(2) distinct_card [of "map fst (waiting (timers p))"] by (simp add: oneshots_ok_def handles_def)
  then have "length (waiting (timers p)) = (if timer p = None then 0 else 1)"
    unfolding p(3) by (cases "timer p") simp_all
  ultimately have "length (waiting (timers p)) = (if playing p \<and> \<not> destroyed p then 1 else 0)"
    by argo
  with p t show ?thesis
    unfolding painted_def total_def by (simp only: Bex_def simp_thms)
qed

text \<open>
  A callback that steps on from the second step before it throws. The page then counts and announces
  the third step with the caption of the second.
\<close>

definition steps_on :: callback where
  "steps_on s i n = (if i = 1 then Raises CallNext (\<lambda>_. Throws) else Returns)"

definition watched_options :: player_options where
  "watched_options = demo_options\<lparr>opt_on_render :=
     Some (\<lambda>s i n. \<lparr>threw = False, on_stage = id, on_caption = id, on_root = id\<rparr>)\<rparr>"

definition watched_player :: player where
  "watched_player = projr (snd (step_player 0 1 (Some demo_markup) (Some watched_options)))"

lemma watched_mounts: "mounts 0 1 (Some demo_markup) (Some watched_options) watched_player"
  by (simp add: mounts_def watched_player_def step_player_def Let_def watched_options_def demo_options_def
      no_options_def demo_markup_def)

lemma reentry_shows_the_old_caption:
  "index (dispatch_in 2 steps_on watched_player CallNext) = 2 \<and>
   playing (dispatch_in 2 steps_on watched_player CallNext) = False \<and>
   map_option content (caption (dispatch_in 2 steps_on watched_player CallNext)) = Some (Text (lit ''cap'')) \<and>
   caption_of (steps watched_player ! 2) = []"
proof -
  have f: "\<lfloor>3 / 2 :: rat\<rfloor> = 1" "\<lfloor>5 / 2 :: rat\<rfloor> = 2"
    by (rule floor_unique; simp)+
  show ?thesis
    by (simp add: dispatch_in_def next_by_def go_to_by_def render_by_def steps_on_def numeral_2_eq_2 f
        show_step_def stop_clock_def set_play_label_def clear_timer_def watched_player_def step_player_def
        Let_def watched_options_def demo_options_def no_options_def demo_markup_def render_def render_stage_def
        total_def or_zero_def clamp_index_def kit_simps)
qed

theorem callback_cannot_break_the_player_witness:
  "let p = foldl (dispatch_in 2 steps_on) watched_player [CallNext] in
   index p = 2 \<and> waiting (timers p) = [] \<and> (destroyed p \<or> (\<exists>s. s \<in> set (steps watched_player) \<and> shows_as s p))"
  using callback_cannot_break_the_player [OF watched_mounts refl, of 2 steps_on "[CallNext]"]
    reentry_shows_the_old_caption
  by (simp add: Let_def)

end
