(* ===== verification/KitHtml.thy ===== *)
theory KitHtml
  imports KitDom
begin

text \<open>
  Text that ends up in \<open>innerHTML\<close>: \<open>Kit.escapeHtml\<close> and its user \<open>Kit.recordedRunBadge\<close>. The
  escaping is five replacements one after the other; it is shown to be one pass over the
  text, to leave no character that could start or end markup, and to be undone by the
  decoding a browser does.
\<close>

section \<open>Escaping\<close>

text \<open>\<open>s.replace(/c/g, t)\<close> for one character \<open>c\<close> and a replacement without dollar signs.\<close>

definition replace_all :: "char \<Rightarrow> string \<Rightarrow> jsstr \<Rightarrow> jsstr" where
  "replace_all c t s = concat (map (\<lambda>x. if x = code_unit c then lit t else [x]) s)"

text \<open>The argument is \<open>None\<close> for null and undefined, otherwise the value's string.\<close>

definition escape_html :: "jsstr option \<Rightarrow> jsstr" where
  "escape_html v =
     replace_all (CHR 0x27) ''&#39;''
       (replace_all (CHR 0x22) ''&quot;''
         (replace_all (CHR ''>'') ''&gt;''
           (replace_all (CHR ''<'') ''&lt;''
             (replace_all (CHR ''&'') ''&amp;'' (case v of None \<Rightarrow> [] | Some s \<Rightarrow> s)))))"

text \<open>What the escaping means: every code unit on its own.\<close>

definition escape_unit :: "16 word \<Rightarrow> jsstr" where
  "escape_unit x =
     (if x = code_unit (CHR ''&'') then lit ''&amp;''
      else if x = code_unit (CHR ''<'') then lit ''&lt;''
      else if x = code_unit (CHR ''>'') then lit ''&gt;''
      else if x = code_unit (CHR 0x22) then lit ''&quot;''
      else if x = code_unit (CHR 0x27) then lit ''&#39;''
      else [x])"

text \<open>The decoding of the five entities, as an HTML parser does it on text.\<close>

definition entities :: "(string \<times> char) list" where
  "entities = [(''amp;'', CHR ''&''), (''lt;'', CHR ''<''), (''gt;'', CHR ''>''),
     (''quot;'', CHR 0x22), (''#39;'', CHR 0x27)]"

definition entity_at :: "jsstr \<Rightarrow> (string \<times> char) option" where
  "entity_at s = find (\<lambda>(name, _). take (length name) s = lit name) entities"

function decode_html :: "jsstr \<Rightarrow> jsstr" where
  "decode_html [] = []"
| "decode_html (x # xs) =
     (if x = code_unit (CHR ''&'') then
        (case entity_at xs of
           Some (name, c) \<Rightarrow> code_unit c # decode_html (drop (length name) xs)
         | None \<Rightarrow> x # decode_html xs)
      else x # decode_html xs)"
  by pat_completeness auto
termination
  by (relation "measure length") auto

lemma replace_all_append [simp]: "replace_all c t (s @ r) = replace_all c t s @ replace_all c t r"
  by (simp add: replace_all_def)

lemma replace_all_Nil [simp]: "replace_all c t [] = []"
  by (simp add: replace_all_def)

lemma replace_all_Cons:
  "replace_all c t (x # s) = (if x = code_unit c then lit t else [x]) @ replace_all c t s"
  by (simp add: replace_all_def)

lemma replace_all_lit [simp]: "c \<notin> set s \<Longrightarrow> replace_all c t (lit s) = lit s"
proof (induction s)
  case (Cons a s)
  then show ?case by (auto simp: lit_Cons replace_all_Cons)
qed simp

lemma escape_html_Cons: "escape_html (Some (x # s)) = escape_unit x @ escape_html (Some s)"
  by (simp add: escape_html_def escape_unit_def replace_all_Cons)

lemma escape_html_Nil [simp]: "escape_html (Some []) = []" "escape_html None = []"
  by (simp_all add: escape_html_def)

lemma escape_html_units: "escape_html (Some s) = concat (map escape_unit s)"
  by (induction s) (simp_all add: escape_html_Cons)

lemma entity_at_found:
  "entity_at (lit ''amp;'' @ t) = Some (''amp;'', CHR ''&'')"
  "entity_at (lit ''lt;'' @ t) = Some (''lt;'', CHR ''<'')"
  "entity_at (lit ''gt;'' @ t) = Some (''gt;'', CHR ''>'')"
  "entity_at (lit ''quot;'' @ t) = Some (''quot;'', CHR 0x22)"
  "entity_at (lit ''#39;'' @ t) = Some (''#39;'', CHR 0x27)"
  by (simp_all add: entity_at_def entities_def lit_Cons)

lemma decode_entity:
  "decode_html (lit ''&amp;'' @ t) = code_unit (CHR ''&'') # decode_html t"
  "decode_html (lit ''&lt;'' @ t) = code_unit (CHR ''<'') # decode_html t"
  "decode_html (lit ''&gt;'' @ t) = code_unit (CHR ''>'') # decode_html t"
  "decode_html (lit ''&quot;'' @ t) = code_unit (CHR 0x22) # decode_html t"
  "decode_html (lit ''&#39;'' @ t) = code_unit (CHR 0x27) # decode_html t"
  using entity_at_found [of t] by (simp_all add: lit_Cons)

lemma decode_escape_unit: "decode_html (escape_unit x @ t) = x # decode_html t"
  by (simp add: escape_unit_def decode_entity)

definition markup_units :: "16 word set" where
  "markup_units = code_unit ` {CHR ''<'', CHR ''>'', CHR 0x22, CHR 0x27}"

lemma escape_unit_safe: "set (escape_unit x) \<inter> markup_units = {}"
  by (auto simp: escape_unit_def markup_units_def)

lemma escape_html_safe: "set (escape_html v) \<inter> markup_units = {}"
proof (cases v)
  case (Some s)
  show ?thesis using escape_unit_safe by (auto simp: Some escape_html_units)
qed simp

section \<open>The badge\<close>

record badge_info =
  info_date :: "jsstr option"
  info_commit :: "jsstr option"
  info_href :: "jsstr option"
  info_label :: "jsstr option"

text \<open>The badge element, its tag name, and its optional \<open>data-k-badge-text\<close> descendant.\<close>

record badge =
  badge_el :: elem
  badge_tag :: string
  badge_text :: "elem option"

definition no_info :: badge_info where
  "no_info = \<lparr>info_date = None, info_commit = None, info_href = None, info_label = None\<rparr>"

definition badge_commit :: "badge_info \<Rightarrow> jsstr" where
  "badge_commit info = take 7 (or_text (info_commit info) [])"

definition badge_parts :: "badge_info \<Rightarrow> jsstr" where
  "badge_parts info =
     (let date = or_text (info_date info) [];
          label = or_text (info_label info) (lit ''Recorded run'')
      in if date \<noteq> [] then label @ lit '', '' @ date else label)"

definition badge_html :: "badge_info \<Rightarrow> jsstr" where
  "badge_html info =
     escape_html (Some (badge_parts info)) @
     (if badge_commit info \<noteq> []
      then lit '', commit <span class='' @ code_unit (CHR 0x22) # lit ''k-badge-run__sha'' @
           code_unit (CHR 0x22) # lit ''>'' @ escape_html (Some (badge_commit info)) @ lit ''</span>''
      else [])"

definition badge_readable :: "badge_info \<Rightarrow> jsstr" where
  "badge_readable info =
     badge_parts info @
     (if badge_commit info \<noteq> [] then lit '', commit '' @ badge_commit info else [])"

text \<open>
  \<open>Kit.recordedRunBadge\<close>; \<open>None\<close> for an argument that is not an element. The result is the
  warnings printed and the badge.
\<close>

definition recorded_run_badge :: "badge option \<Rightarrow> badge_info option \<Rightarrow> jsstr list \<times> badge option" where
  "recorded_run_badge el info0 =
     (case el of
        None \<Rightarrow> ([], None)
      | Some b0 \<Rightarrow>
          let info = (case info0 of None \<Rightarrow> no_info | Some i \<Rightarrow> i);
              html = badge_html info;
              b1 = (case badge_text b0 of
                      Some t \<Rightarrow> b0\<lparr>badge_text := Some (set_html html t)\<rparr>
                    | None \<Rightarrow> b0\<lparr>badge_el := set_html html (badge_el b0)\<rparr>);
              href = or_text (info_href info) [];
              linked = (href \<noteq> [] \<and> badge_tag b1 = ''A'');
              warned = (if linked \<and> hd href = code_unit (CHR ''/'')
                        then [lit ''[Kit] recordedRunBadge: href is absolute, use a relative path.''] else []);
              e2 = (if linked then set_attr ''href'' href (badge_el b1) else badge_el b1);
              e3 = set_attr ''title'' (badge_readable info)
                     (set_attr ''aria-label'' (badge_readable info @ lit '', opens the captured data file'') e2)
          in (warned, Some (b1\<lparr>badge_el := e3\<rparr>)))"

text \<open>
  The markup of a text as its runs of characters outside tags: what a browser shows of it,
  once the tags are left out and the entities decoded.
\<close>

fun outside_tags :: "bool \<Rightarrow> jsstr \<Rightarrow> jsstr" where
  "outside_tags tag [] = []"
| "outside_tags tag (x # xs) =
     (if tag then outside_tags (x \<noteq> code_unit (CHR ''>'')) xs
      else if x = code_unit (CHR ''<'') then outside_tags True xs
      else x # outside_tags False xs)"

definition shown_text :: "jsstr \<Rightarrow> jsstr" where
  "shown_text h = decode_html (outside_tags False h)"

lemma outside_tags_plain:
  "set s \<inter> markup_units = {} \<Longrightarrow> outside_tags False (s @ t) = s @ outside_tags False t"
  by (induction s) (auto simp: markup_units_def)

lemma outside_tags_span:
  "outside_tags False (lit '', commit <span class='' @ code_unit (CHR 0x22) # lit ''k-badge-run__sha'' @
     code_unit (CHR 0x22) # lit ''>'' @ t) = lit '', commit '' @ outside_tags False t"
  by (simp add: lit_Cons)

lemma outside_tags_close: "outside_tags False (lit ''</span>'') = []"
  by (simp add: lit_Cons)

lemma decode_escape_append: "decode_html (escape_html (Some s) @ t) = s @ decode_html t"
  by (induction s) (simp_all add: escape_html_Cons decode_escape_unit)

lemma decode_lit_append:
  "CHR ''&'' \<notin> set s \<Longrightarrow> decode_html (lit s @ t) = lit s @ decode_html t"
proof (induction s)
  case (Cons a s)
  then show ?case by (auto simp: lit_Cons)
qed simp

lemma badge_outside_tags:
  "outside_tags False (badge_html info) =
     escape_html (Some (badge_parts info)) @
     (if badge_commit info \<noteq> [] then lit '', commit '' @ escape_html (Some (badge_commit info)) else [])"
  by (simp add: badge_html_def outside_tags_plain escape_html_safe outside_tags_span outside_tags_close
      outside_tags_plain [of _ "[]", simplified])

section \<open>Properties\<close>

text \<open>
  C35: the five replacements, in the order of the source, amount to one pass that maps each
  character on its own: no replacement touches what an earlier one produced. So escaping loses
  nothing and is safe: a browser that decodes the five entities reads the original text back, and
  the escaped text holds none of the characters that open or close a tag or an attribute value.
\<close>

theorem escape_html_faithful:
  "escape_html v = concat (map escape_unit (case v of None \<Rightarrow> [] | Some s \<Rightarrow> s)) \<and>
   decode_html (escape_html (Some s)) = s \<and>
   set (escape_html v) \<inter> markup_units = {}"
  using decode_escape_append [of s "[]"] escape_html_safe [of v]
  by (simp add: escape_html_units split: option.split)

text \<open>
  Whatever strings the page's data puts into a badge, the markup written has no tag but
  the span around the commit, so the text a reader sees is exactly the text given to screen
  readers as the title; the commit is cut to seven characters; and the markup is written to
  the inner text element when there is one.
\<close>

theorem badge_shows_readable_text:
  assumes "recorded_run_badge (Some b) (Some info) = (ws, Some b')"
  shows "(\<exists>h. content (case badge_text b' of Some t \<Rightarrow> t | None \<Rightarrow> badge_el b') = Html h \<and>
               shown_text h = badge_readable info) \<and>
         get_attr ''title'' (badge_el b') = Some (badge_readable info) \<and>
         length (badge_commit info) \<le> 7"
proof -
  have "shown_text (badge_html info) = badge_readable info"
    using decode_escape_append [of "badge_commit info" "[]"]
    by (auto simp: shown_text_def badge_outside_tags badge_readable_def decode_escape_append
        decode_lit_append decode_escape_append [of _ "[]", simplified])
  then show ?thesis
    using assms
    by (auto simp: recorded_run_badge_def Let_def badge_commit_def kit_simps split: option.splits)
qed

definition demo_info :: badge_info where
  "demo_info = no_info\<lparr>info_date := Some (lit ''<b>today</b>''), info_commit := Some (lit ''fd71c7f0123''),
     info_href := Some (lit ''/abs'')\<rparr>"

definition demo_badge :: badge where
  "demo_badge = \<lparr>badge_el = blank_elem, badge_tag = ''A'', badge_text = None\<rparr>"

theorem badge_shows_readable_text_witness:
  "get_attr ''title'' (badge_el (the (snd (recorded_run_badge (Some demo_badge) (Some demo_info))))) =
     Some (lit ''Recorded run, <b>today</b>, commit fd71c7f'')"
proof -
  obtain ws b' where r: "recorded_run_badge (Some demo_badge) (Some demo_info) = (ws, Some b')"
    by (simp add: recorded_run_badge_def Let_def)
  have "badge_readable demo_info = lit ''Recorded run, <b>today</b>, commit fd71c7f''"
    by (simp add: badge_readable_def badge_parts_def badge_commit_def demo_info_def no_info_def
        or_text_def lit_Cons)
  then show ?thesis
    using badge_shows_readable_text [OF r] r by simp
qed

end
