(* ===== verification/KitTheme.thy ===== *)
theory KitTheme
  imports KitDom
begin

text \<open>
  \<open>Kit.theme\<close>: the theme of the page as the \<open>data-theme\<close> attribute of the document element and
  an item of \<open>localStorage\<close>. Each storage operation may throw; the code guards every access.
  A reload of the page is modelled by a fresh document element, the storage that was left
  behind, and the call of \<open>Kit.theme.restore\<close> that the script makes when it runs.
\<close>

section \<open>Storage\<close>

record storage =
  get_throws :: bool
  set_throws :: bool
  remove_throws :: bool
  items :: "string \<rightharpoonup> jsstr"

definition theme_key :: string where
  "theme_key = ''k-theme''"

text \<open>\<open>store(key, value)\<close>: \<open>None\<close> stands for null, and an exception is swallowed.\<close>

definition store_item :: "string \<Rightarrow> jsstr option \<Rightarrow> storage \<Rightarrow> storage" where
  "store_item k v st =
     (case v of
        None \<Rightarrow> if remove_throws st then st else st\<lparr>items := (items st)(k := None)\<rparr>
      | Some s \<Rightarrow> if set_throws st then st else st\<lparr>items := (items st)(k \<mapsto> s)\<rparr>)"

definition read_item :: "string \<Rightarrow> storage \<Rightarrow> jsstr option" where
  "read_item k st = (if get_throws st then None else items st k)"

section \<open>The theme\<close>

record theme_env =
  doc_el :: elem
  local_storage :: storage

definition theme_get :: "theme_env \<Rightarrow> jsstr" where
  "theme_get env =
     (case get_attr ''data-theme'' (doc_el env) of
        Some v \<Rightarrow> if v = lit ''dark'' \<or> v = lit ''light'' then v else lit ''system''
      | None \<Rightarrow> lit ''system'')"

definition theme_set :: "jsstr \<Rightarrow> theme_env \<Rightarrow> jsstr \<times> theme_env" where
  "theme_set mode env =
     (let env' =
        (if mode = lit ''dark'' \<or> mode = lit ''light''
         then env\<lparr>doc_el := set_attr ''data-theme'' mode (doc_el env),
                  local_storage := store_item theme_key (Some mode) (local_storage env)\<rparr>
         else env\<lparr>doc_el := remove_attr ''data-theme'' (doc_el env),
                  local_storage := store_item theme_key None (local_storage env)\<rparr>)
      in (theme_get env', env'))"

definition theme_restore :: "theme_env \<Rightarrow> jsstr \<times> theme_env" where
  "theme_restore env =
     (let env' =
        (case read_item theme_key (local_storage env) of
           Some saved \<Rightarrow>
             if saved = lit ''dark'' \<or> saved = lit ''light''
             then env\<lparr>doc_el := set_attr ''data-theme'' saved (doc_el env)\<rparr> else env
         | None \<Rightarrow> env)
      in (theme_get env', env'))"

section \<open>The toggle button\<close>

text \<open>The button and its optional \<open>data-k-theme-label\<close> descendant.\<close>

record toggle_btn =
  tg_btn :: elem
  tg_slot :: "elem option"

definition theme_word :: "jsstr \<Rightarrow> string" where
  "theme_word mode = (if mode = lit ''dark'' then ''Dark'' else if mode = lit ''light'' then ''Light'' else ''Auto'')"

definition write_label :: "theme_env \<Rightarrow> toggle_btn \<Rightarrow> toggle_btn" where
  "write_label env b =
     (let word = theme_word (theme_get env);
          b1 = (case tg_slot b of
                  Some s \<Rightarrow> b\<lparr>tg_slot := Some (set_text (lit word) s)\<rparr>
                | None \<Rightarrow> b\<lparr>tg_btn := set_text (lit word) (tg_btn b)\<rparr>)
      in b1\<lparr>tg_btn := set_attr ''aria-label''
              (lit (''Colour theme: '' @ word @ ''. Activate to change.'')) (tg_btn b1)\<rparr>)"

text \<open>\<open>order.indexOf(x)\<close>, minus one when absent.\<close>

fun index_of :: "'a \<Rightarrow> 'a list \<Rightarrow> int \<Rightarrow> int" where
  "index_of x [] i = -1"
| "index_of x (y # ys) i = (if x = y then i else index_of x ys (i + 1))"

definition theme_order :: "jsstr list" where
  "theme_order = [lit ''system'', lit ''light'', lit ''dark'']"

definition theme_click :: "theme_env \<times> toggle_btn \<Rightarrow> theme_env \<times> toggle_btn" where
  "theme_click eb =
     (let (env, b) = eb;
          i = index_of (theme_get env) theme_order 0;
          env' = snd (theme_set (theme_order ! nat ((i + 1) mod int (length theme_order))) env)
      in (env', write_label env' b))"

text \<open>\<open>Kit.theme.mount\<close>: \<open>None\<close> for a button that is not an element.\<close>

definition theme_mount :: "toggle_btn option \<Rightarrow> theme_env \<Rightarrow> toggle_btn option" where
  "theme_mount b env = map_option (write_label env) b"

section \<open>Visits\<close>

text \<open>What can happen to the theme: a click on the toggle, a call of \<open>set\<close>, a reload.\<close>

datatype theme_event = ToggleClick | SetMode jsstr | Reload elem

fun theme_step :: "theme_env \<times> toggle_btn \<Rightarrow> theme_event \<Rightarrow> theme_env \<times> toggle_btn" where
  "theme_step eb ToggleClick = theme_click eb"
| "theme_step (env, b) (SetMode m) = (snd (theme_set m env), b)"
| "theme_step (env, b) (Reload html) =
     (let env' = snd (theme_restore (env\<lparr>doc_el := html\<rparr>)) in (env', write_label env' b))"

lemma theme_get_set:
  "theme_get (snd (theme_set m env)) =
     (if m = lit ''dark'' \<or> m = lit ''light'' then m else lit ''system'')"
  by (simp add: theme_set_def theme_get_def Let_def kit_simps)

lemma theme_get_cases: "theme_get env \<in> set theme_order"
  by (simp add: theme_get_def theme_order_def split: option.split)

lemma theme_click_cycle:
  "theme_get (fst (theme_click (env, b))) =
     (if theme_get env = lit ''system'' then lit ''light''
      else if theme_get env = lit ''light'' then lit ''dark'' else lit ''system'')"
  using theme_get_cases [of env]
  by (auto simp: theme_click_def Let_def theme_get_set theme_order_def)

text \<open>
  With a storage that works, the attribute holds the stored item when that is one of the two explicit
  themes, and is absent otherwise. A page whose markup has no theme of its own keeps that.
\<close>

definition storage_works :: "storage \<Rightarrow> bool" where
  "storage_works st \<longleftrightarrow> \<not> get_throws st \<and> \<not> set_throws st \<and> \<not> remove_throws st"

definition in_sync :: "theme_env \<Rightarrow> bool" where
  "in_sync env \<longleftrightarrow>
     storage_works (local_storage env) \<and>
     get_attr ''data-theme'' (doc_el env) =
       (if items (local_storage env) theme_key \<in> {Some (lit ''dark''), Some (lit ''light'')}
        then items (local_storage env) theme_key else None)"

lemma in_sync_set: "in_sync env \<Longrightarrow> in_sync (snd (theme_set m env))"
  by (auto simp: in_sync_def theme_set_def Let_def store_item_def storage_works_def kit_simps)

text \<open>What a page shows whose script has not run.\<close>

definition markup_theme :: "elem \<Rightarrow> jsstr" where
  "markup_theme html = theme_get \<lparr>doc_el = html, local_storage = \<lparr>get_throws = False, set_throws = False,
     remove_throws = False, items = Map.empty\<rparr>\<rparr>"

lemma restore_in_sync:
  "storage_works (local_storage env) \<Longrightarrow> get_attr ''data-theme'' html = None \<Longrightarrow>
   in_sync (snd (theme_restore (env\<lparr>doc_el := html\<rparr>)))"
  by (auto simp: in_sync_def theme_restore_def Let_def read_item_def storage_works_def kit_simps split: option.split)

lemma in_sync_works: "in_sync env \<Longrightarrow> storage_works (local_storage env)"
  by (simp add: in_sync_def)

lemma restore_theme:
  "in_sync env \<Longrightarrow>
   theme_get (snd (theme_restore (env\<lparr>doc_el := html\<rparr>))) =
     (if theme_get env = lit ''system'' then markup_theme html else theme_get env)"
  by (auto simp: in_sync_def theme_restore_def Let_def read_item_def storage_works_def theme_get_def
      markup_theme_def lit_def kit_simps split: option.split)

text \<open>The markup of the page does not set a theme.\<close>

fun plain_reload :: "theme_env \<times> toggle_btn \<Rightarrow> theme_event \<Rightarrow> bool" where
  "plain_reload eb (Reload html) = (get_attr ''data-theme'' html = None)"
| "plain_reload eb _ = True"

interpretation thm_visit: guarded_machine theme_step plain_reload "\<lambda>eb. in_sync (fst eb)"
proof
  fix eb :: "theme_env \<times> toggle_btn" and e
  assume "in_sync (fst eb)" "plain_reload eb e"
  then show "in_sync (fst (theme_step eb e))"
    by (cases eb; cases e)
      (auto simp: theme_click_def Let_def in_sync_set restore_in_sync in_sync_works)
qed

section \<open>Properties\<close>

text \<open>
  The toggle goes through the three modes in the order automatic, light, dark, whatever
  the attribute held before; three activations are the identity on the mode; and the button
  names the mode it is in after every one of them.
\<close>

theorem theme_toggle_cycle:
  "theme_get (fst (theme_click eb)) =
     (if theme_get (fst eb) = lit ''system'' then lit ''light''
      else if theme_get (fst eb) = lit ''light'' then lit ''dark'' else lit ''system'') \<and>
   theme_get (fst ((theme_click ^^ 3) eb)) = theme_get (fst eb) \<and>
   content (case tg_slot (snd (theme_click eb)) of Some s \<Rightarrow> s | None \<Rightarrow> tg_btn (snd (theme_click eb)))
     = Text (lit (theme_word (theme_get (fst (theme_click eb)))))"
proof -
  have c: "theme_get (fst (theme_click eb)) =
      (if theme_get (fst eb) = lit ''system'' then lit ''light''
       else if theme_get (fst eb) = lit ''light'' then lit ''dark'' else lit ''system'')" for eb
    using theme_click_cycle [of "fst eb" "snd eb"] by simp
  have "theme_get (fst ((theme_click ^^ 3) eb)) = theme_get (fst eb)"
    using theme_get_cases [of "fst eb"] by (auto simp: eval_nat_numeral c theme_order_def)
  moreover have "content (case tg_slot (snd (theme_click eb)) of Some s \<Rightarrow> s | None \<Rightarrow> tg_btn (snd (theme_click eb)))
     = Text (lit (theme_word (theme_get (fst (theme_click eb)))))"
    by (simp add: theme_click_def write_label_def Let_def kit_simps split: prod.split option.split)
  ultimately show ?thesis using c [of eb] by blast
qed

text \<open>The first load of the page in a visit, over what an earlier visit left in the storage.\<close>

definition first_load :: "storage \<Rightarrow> elem \<Rightarrow> toggle_btn \<Rightarrow> theme_env \<times> toggle_btn" where
  "first_load st html b = theme_step (\<lparr>doc_el = html, local_storage = st\<rparr>, b) (Reload html)"

text \<open>
  C36: a chosen theme survives a reload. On pages whose markup sets no theme, with a storage that works
  and whatever an earlier visit or another script left in it, after any sequence of toggles, explicit
  settings and reloads: reloading shows the same mode again when that is dark or light, whatever the
  markup that is loaded then; and the automatic mode gives way to a theme of that markup, so it survives
  exactly when that markup names neither of the two.
\<close>

theorem theme_survives_reload:
  assumes "storage_works st" and "get_attr ''data-theme'' html0 = None"
    and "allowed theme_step plain_reload (first_load st html0 b) es"
    and "eb = foldl theme_step (first_load st html0 b) es"
  shows "theme_get (fst (theme_step eb (Reload html))) =
    (if theme_get (fst eb) = lit ''system'' then markup_theme html else theme_get (fst eb))"
proof -
  have "in_sync (fst (first_load st html0 b))"
    using restore_in_sync [of "\<lparr>doc_el = html0, local_storage = st\<rparr>" html0] assms(1,2)
    by (simp add: first_load_def Let_def)
  then have "in_sync (fst eb)"
    unfolding assms(4) using thm_visit.run_inv assms(3) by blast
  then show ?thesis
    by (cases eb) (simp add: Let_def restore_theme)
qed

definition demo_storage :: storage where
  "demo_storage = \<lparr>get_throws = False, set_throws = False, remove_throws = False,
     items = [theme_key \<mapsto> lit ''blue'']\<rparr>"

definition demo_visit :: "theme_env \<times> toggle_btn" where
  "demo_visit = first_load demo_storage blank_elem \<lparr>tg_btn = blank_elem, tg_slot = None\<rparr>"

lemma demo_visit_system: "theme_get (fst demo_visit) = lit ''system''"
  by (simp add: demo_visit_def first_load_def demo_storage_def theme_restore_def read_item_def Let_def
      theme_get_def get_attr_def blank_elem_def lit_def code_unit_def)

theorem theme_survives_reload_witness:
  "theme_get (fst (theme_step (foldl theme_step demo_visit [ToggleClick, ToggleClick])
     (Reload (set_attr ''data-theme'' (lit ''light'') blank_elem)))) = lit ''dark''"
proof -
  have "theme_get (fst (foldl theme_step demo_visit [ToggleClick, ToggleClick])) = lit ''dark''"
    using theme_click_cycle [of "fst (theme_click demo_visit)" "snd (theme_click demo_visit)"]
      theme_click_cycle [of "fst demo_visit" "snd demo_visit"] demo_visit_system
    by (simp add: lit_def)
  moreover have "storage_works demo_storage" "get_attr ''data-theme'' blank_elem = None"
    by (simp_all add: demo_storage_def storage_works_def get_attr_def blank_elem_def)
  ultimately show ?thesis
    using theme_survives_reload [of demo_storage blank_elem "\<lparr>tg_btn = blank_elem, tg_slot = None\<rparr>"
        "[ToggleClick, ToggleClick]", OF _ _ _ refl]
    by (simp add: lit_def flip: demo_visit_def del: theme_step.simps)
qed

text \<open>
  A storage that throws costs persistence and nothing else: for every combination of
  throwing operations, setting a theme changes the document and returns the same mode as with
  a storage that works, and a read that throws restores nothing.
\<close>

theorem theme_ignores_storage_failure:
  "doc_el (snd (theme_set m (env\<lparr>local_storage := st\<rparr>))) = doc_el (snd (theme_set m env)) \<and>
   fst (theme_set m (env\<lparr>local_storage := st\<rparr>)) = fst (theme_set m env) \<and>
   (set_throws st \<and> remove_throws st \<longrightarrow>
      local_storage (snd (theme_set m (env\<lparr>local_storage := st\<rparr>))) = st) \<and>
   (get_throws st \<longrightarrow> snd (theme_restore (env\<lparr>local_storage := st\<rparr>)) = env\<lparr>local_storage := st\<rparr>)"
  by (simp add: theme_set_def theme_restore_def theme_get_def Let_def store_item_def read_item_def
      split: option.split)

theorem theme_ignores_storage_failure_witness:
  "let st = \<lparr>get_throws = True, set_throws = True, remove_throws = True, items = Map.empty\<rparr> in
   snd (theme_restore ((fst demo_visit)\<lparr>local_storage := st\<rparr>)) = (fst demo_visit)\<lparr>local_storage := st\<rparr>"
  using theme_ignores_storage_failure [where env = "fst demo_visit" and st =
      "\<lparr>get_throws = True, set_throws = True, remove_throws = True, items = Map.empty\<rparr>"]
  by simp

end
