(* ===== verification/KitLoad.thy ===== *)
theory KitLoad
  imports KitDom "HOL-Library.Sublist"
begin

text \<open>
  \<open>Kit.loadData\<close>: one answer from two places. What the browser does is an environment record
  (the location, the inlined data, what \<open>fetch\<close> would do); the promise that is returned is its
  settlement, where \<open>Waiting\<close> is a promise that never settles. The data itself is a type
  parameter. A path, when given, is a string.
\<close>

section \<open>The environment\<close>

datatype protocol_read = ProtocolThrows | Protocol jsstr

text \<open>An exception or a rejection, by the message of its reason if it has one.\<close>

type_synonym reason = "jsstr option"

datatype 'j body = BodyFails reason | BodyWaits | BodyJson 'j

record 'j response =
  res_ok :: bool
  res_status :: nat
  res_body :: "'j body"

text \<open>\<open>Responds None\<close> is a fetch that fulfils with a falsy value.\<close>

datatype 'j fetching =
  NoFetch | FetchThrows | FetchRejects reason | FetchWaits | Responds "'j response option"

text \<open>
  \<open>demo_data\<close> is \<open>window.DEMO_DATA\<close>, \<open>None\<close> when falsy. It has properties of its own and inherits
  others, as \<open>toString\<close>; a property may hold undefined, and a missing one reads as undefined.
\<close>

record 'j bag =
  own_props :: "jsstr \<rightharpoonup> 'j option"
  inherited_props :: "jsstr \<rightharpoonup> 'j option"

definition bag_get :: "'j bag \<Rightarrow> jsstr \<Rightarrow> 'j option" where
  "bag_get b name =
     (case own_props b name of
        Some v \<Rightarrow> v
      | None \<Rightarrow> (case inherited_props b name of Some v \<Rightarrow> v | None \<Rightarrow> None))"

record 'j load_env =
  location_protocol :: protocol_read
  demo_data :: "'j bag option"
  fetcher :: "'j fetching"

datatype 'j settlement = Resolved 'j | Rejected jsstr | Waiting

text \<open>The first argument: a string or anything else.\<close>

datatype load_name = NameText jsstr | NotText

section \<open>The function\<close>

definition read_inline :: "'j load_env \<Rightarrow> jsstr \<Rightarrow> 'j option" where
  "read_inline env name =
     (case demo_data env of
        None \<Rightarrow> None
      | Some b \<Rightarrow> if own_props b name \<noteq> None then bag_get b name else None)"

definition quoted :: "jsstr \<Rightarrow> jsstr" where
  "quoted s = code_unit (CHR 0x22) # s @ [code_unit (CHR 0x22)]"

definition no_data_message :: "jsstr \<Rightarrow> jsstr option \<Rightarrow> jsstr \<Rightarrow> jsstr" where
  "no_data_message name path why =
     lit ''Kit.loadData: no data for '' @ quoted name @ lit ''. '' @
     lit ''Tried '' @ or_text path (lit ''(no json path)'') @
     (if why \<noteq> [] then lit '' ('' @ why @ lit '')'' else []) @
     lit '', then window.DEMO_DATA['' @ quoted name @ lit '']. '' @
     lit ''Load data/'' @ name @ lit ''.js with a plain <script> tag before kit.js runs.''"

definition fall_back :: "'j load_env \<Rightarrow> jsstr \<Rightarrow> jsstr option \<Rightarrow> jsstr \<Rightarrow> 'j settlement" where
  "fall_back env name path why =
     (case read_inline env name of
        Some v \<Rightarrow> Resolved v
      | None \<Rightarrow> Rejected (no_data_message name path why))"

definition on_file :: "'j load_env \<Rightarrow> bool" where
  "on_file env = (case location_protocol env of ProtocolThrows \<Rightarrow> True | Protocol s \<Rightarrow> s = lit ''file:'')"

text \<open>The message handed to \<open>fallback\<close> by the promise's \<open>catch\<close>.\<close>

definition catch_reason :: "reason \<Rightarrow> jsstr" where
  "catch_reason r = or_text r (lit ''fetch failed'')"

text \<open>
  The result: the warnings printed and the settlement of the promise.
\<close>

definition load_data :: "'j load_env \<Rightarrow> load_name \<Rightarrow> jsstr option \<Rightarrow> jsstr list \<times> 'j settlement" where
  "load_data env nm path =
     (case nm of
        NotText \<Rightarrow> ([], Rejected (lit ''Kit.loadData: name must be a non-empty string.''))
      | NameText name \<Rightarrow>
          if name = [] then ([], Rejected (lit ''Kit.loadData: name must be a non-empty string.''))
          else
            let warned =
              (case path of
                 Some (c # _) \<Rightarrow>
                   if c = code_unit (CHR ''/'')
                   then [lit ''[Kit] loadData was given an absolute path ('' @ the path @ lit ''). '' @
                         lit ''These pages are served from a subpath, use a relative path such as '' @
                         lit ''data/'' @ name @ lit ''.json'']
                   else []
               | _ \<Rightarrow> [])
            in (warned,
                if on_file env \<or> fetcher env = NoFetch \<or> or_text path [] = []
                then fall_back env name path
                       (if on_file env then lit ''file: protocol'' else lit ''fetch unavailable or no path'')
                else (case fetcher env of
                        NoFetch \<Rightarrow> Waiting
                      | FetchThrows \<Rightarrow> fall_back env name path (lit ''fetch threw'')
                      | FetchWaits \<Rightarrow> Waiting
                      | FetchRejects r \<Rightarrow> fall_back env name path (catch_reason r)
                      | Responds None \<Rightarrow>
                          fall_back env name path (catch_reason (Some (lit ''HTTP ?'')))
                      | Responds (Some res) \<Rightarrow>
                          if \<not> res_ok res
                          then fall_back env name path
                                 (catch_reason (Some (lit (''HTTP '' @ dec (res_status res)))))
                          else (case res_body res of
                                  BodyJson obj \<Rightarrow> Resolved obj
                                | BodyWaits \<Rightarrow> Waiting
                                | BodyFails r \<Rightarrow> fall_back env name path (catch_reason r)))))"

section \<open>What the network could give\<close>

text \<open>The document the page may use from the network, and whether the browser leaves it waiting.\<close>

definition network_asked :: "'j load_env \<Rightarrow> jsstr option \<Rightarrow> bool" where
  "network_asked env path \<longleftrightarrow> \<not> on_file env \<and> fetcher env \<noteq> NoFetch \<and> or_text path [] \<noteq> []"

definition network_answer :: "'j load_env \<Rightarrow> 'j option" where
  "network_answer env =
     (case fetcher env of
        Responds (Some res) \<Rightarrow>
          (case res_body res of BodyJson obj \<Rightarrow> if res_ok res then Some obj else None | _ \<Rightarrow> None)
      | _ \<Rightarrow> None)"

definition network_waits :: "'j load_env \<Rightarrow> bool" where
  "network_waits env =
     (case fetcher env of
        FetchWaits \<Rightarrow> True
      | Responds (Some res) \<Rightarrow> res_ok res \<and> (case res_body res of BodyWaits \<Rightarrow> True | _ \<Rightarrow> False)
      | _ \<Rightarrow> False)"

text \<open>Why the network gave nothing, in the words the error message uses.\<close>

definition failure_reason :: "'j load_env \<Rightarrow> jsstr option \<Rightarrow> jsstr" where
  "failure_reason env path =
     (if \<not> network_asked env path
      then (if on_file env then lit ''file: protocol'' else lit ''fetch unavailable or no path'')
      else case fetcher env of
             FetchThrows \<Rightarrow> lit ''fetch threw''
           | FetchRejects r \<Rightarrow> or_text r (lit ''fetch failed'')
           | Responds None \<Rightarrow> lit ''HTTP ?''
           | Responds (Some res) \<Rightarrow>
               if \<not> res_ok res then lit (''HTTP '' @ dec (res_status res))
               else (case res_body res of BodyFails r \<Rightarrow> or_text r (lit ''fetch failed'') | _ \<Rightarrow> [])
           | _ \<Rightarrow> [])"

lemma load_data_eq:
  "name \<noteq> [] \<Longrightarrow>
   snd (load_data env (NameText name) path) =
     (if network_asked env path \<and> network_waits env then Waiting
      else case (if network_asked env path then network_answer env else None) of
             Some obj \<Rightarrow> Resolved obj
           | None \<Rightarrow>
               (case read_inline env name of
                  Some v \<Rightarrow> Resolved v
                | None \<Rightarrow> Rejected (no_data_message name path (failure_reason env path))))"
  by (auto simp: load_data_def network_asked_def network_answer_def network_waits_def fall_back_def
      failure_reason_def catch_reason_def or_text_def Let_def
      split: fetching.splits option.splits body.splits)

lemma read_inline_own:
  "read_inline env name = Some v \<longleftrightarrow> (\<exists>b. demo_data env = Some b \<and> own_props b name = Some (Some v))"
  by (auto simp: read_inline_def bag_get_def split: option.splits)

lemma reason_given: "failure_reason env path \<noteq> []" if "network_answer env = None" "\<not> network_waits env"
  using that
  by (auto simp: failure_reason_def network_asked_def network_answer_def network_waits_def or_text_def lit_def
      split: option.splits fetching.splits body.splits)

lemma sublist_part: "sublist ys (xs @ ys @ zs)"
  by (auto simp: sublist_def)

lemma message_parts:
  assumes "why \<noteq> []"
  shows "sublist (quoted name) (no_data_message name path why)"
    and "sublist (or_text path (lit ''(no json path)'')) (no_data_message name path why)"
    and "sublist why (no_data_message name path why)"
    and "sublist (lit ''data/'' @ name @ lit ''.js'') (no_data_message name path why)"
proof -
  let ?path = "or_text path (lit ''(no json path)'')"
  let ?head = "lit ''Kit.loadData: no data for '' @ quoted name @ lit ''. '' @ lit ''Tried ''"
  let ?mid = "lit '', then window.DEMO_DATA['' @ quoted name @ lit '']. '' @ lit ''Load ''"
  let ?fix = "lit ''data/'' @ name @ lit ''.js''"
  let ?tail = "lit '' with a plain <script> tag before kit.js runs.''"
  have m: "no_data_message name path why = ?head @ ?path @ lit '' ('' @ why @ lit '')'' @ ?mid @ ?fix @ ?tail"
    using assms by (simp add: no_data_message_def lit_def)
  show "sublist (quoted name) (no_data_message name path why)"
    using sublist_part [of "quoted name" "lit ''Kit.loadData: no data for ''"] by (simp add: no_data_message_def)
  show "sublist ?path (no_data_message name path why)"
    unfolding m by (rule sublist_part)
  show "sublist why (no_data_message name path why)"
    unfolding m using sublist_part [of why "?head @ ?path @ lit '' (''" "lit '')'' @ ?mid @ ?fix @ ?tail"] by simp
  show "sublist ?fix (no_data_message name path why)"
    unfolding m using sublist_part [of ?fix "?head @ ?path @ lit '' ('' @ why @ lit '')'' @ ?mid" ?tail] by simp
qed

section \<open>Properties\<close>

text \<open>
  C38: the promise stays unsettled only when the browser leaves a request waiting that the code really
  made. It resolves to what the network answers when there is an answer, and after every failure (no
  fetch, an exception, a rejection, a bad status, an unreadable body) to the page's inlined data: a
  property of \<open>DEMO_DATA\<close>'s own, never an inherited one. It resolves to nothing else, so a caller whose
  page inlines what the server sends gets the same object either way. And it is rejected only when both
  sources have nothing, with a message that names the data set, the path tried, a reason, which is never
  empty, and the file to load.
\<close>

theorem load_data_outcome:
  assumes "name \<noteq> []" and "out = snd (load_data env (NameText name) path)"
    and "inlined = (\<lambda>v. \<exists>b. demo_data env = Some b \<and> own_props b name = Some (Some v))"
  shows "(out = Waiting \<longleftrightarrow> network_asked env path \<and> network_waits env) \<and>
    (\<forall>v. out = Resolved v \<longrightarrow> network_asked env path \<and> network_answer env = Some v \<or> inlined v) \<and>
    (\<forall>v. network_asked env path \<and> network_answer env = Some v \<longrightarrow> out = Resolved v) \<and>
    (\<forall>v. inlined v \<and> network_answer env \<in> {None, Some v} \<and> out \<noteq> Waiting \<longrightarrow> out = Resolved v) \<and>
    (\<forall>msg. out = Rejected msg \<longrightarrow>
       \<not> (\<exists>v. inlined v) \<and> (network_asked env path \<longrightarrow> network_answer env = None) \<and>
       failure_reason env path \<noteq> [] \<and>
       (\<forall>part \<in> {quoted name, or_text path (lit ''(no json path)''), failure_reason env path,
          lit ''data/'' @ name @ lit ''.js''}. sublist part msg))"
proof -
  have inl: "inlined v \<longleftrightarrow> read_inline env name = Some v" for v
    by (simp add: assms(3) read_inline_own)
  consider (waits) "network_asked env path" "network_waits env"
    | (answers) v where "network_asked env path" "network_answer env = Some v" "\<not> network_waits env"
    | (fails) "\<not> (network_asked env path \<and> network_waits env)"
        "network_asked env path \<Longrightarrow> network_answer env = None"
    by (cases "network_answer env") auto
  then show ?thesis
  proof cases
    case waits
    moreover have "network_answer env = None"
      using waits(2) by (auto simp: network_waits_def network_answer_def split: fetching.splits option.splits body.splits)
    ultimately show ?thesis
      using load_data_eq [OF assms(1), of env path] by (simp add: assms(2))
  next
    case (answers v)
    then show ?thesis
      using load_data_eq [OF assms(1), of env path] by (auto simp: assms(2))
  next
    case fails
    have why: "failure_reason env path \<noteq> []"
    proof (cases "network_asked env path")
      case True
      with fails show ?thesis by (intro reason_given) auto
    qed (simp add: failure_reason_def lit_def)
    have "out = (case read_inline env name of
        Some v \<Rightarrow> Resolved v | None \<Rightarrow> Rejected (no_data_message name path (failure_reason env path)))"
      using fails load_data_eq [OF assms(1), of env path] by (simp add: assms(2))
    with fails why message_parts [OF why] show ?thesis
      by (cases "read_inline env name") (auto simp: inl)
  qed
qed

definition demo_env :: "nat load_env" where
  "demo_env = \<lparr>location_protocol = Protocol (lit ''https:''),
     demo_data = Some \<lparr>own_props = [lit ''kvstore'' \<mapsto> Some 7], inherited_props = [lit ''toString'' \<mapsto> Some 1]\<rparr>,
     fetcher = Responds (Some \<lparr>res_ok = False, res_status = 404, res_body = BodyJson 9\<rparr>)\<rparr>"

lemma demo_failure:
  "\<not> network_waits demo_env" "network_answer demo_env = None"
  "failure_reason demo_env (Some (lit ''data/x.json'')) = lit ''HTTP 404''"
  by (simp_all add: demo_env_def network_waits_def network_answer_def failure_reason_def network_asked_def
      on_file_def or_text_def lit_def code_unit_def dec.simps digit_char_def)

lemma demo_inlined:
  "(\<exists>b. demo_data demo_env = Some b \<and> own_props b (lit ''kvstore'') = Some (Some 7))"
  "\<not> (\<exists>b. demo_data demo_env = Some b \<and> own_props b (lit ''toString'') = Some (Some v))"
  by (simp_all add: demo_env_def lit_def)

theorem load_data_outcome_witness:
  "snd (load_data demo_env (NameText (lit ''kvstore'')) (Some (lit ''data/x.json''))) = Resolved 7 \<and>
   (\<exists>msg. snd (load_data demo_env (NameText (lit ''toString'')) (Some (lit ''data/x.json''))) = Rejected msg \<and>
      sublist (lit ''HTTP 404'') msg)"
proof -
  let ?out = "\<lambda>name. snd (load_data demo_env (NameText name) (Some (lit ''data/x.json'')))"
  have named: "lit ''kvstore'' \<noteq> []" "lit ''toString'' \<noteq> []"
    by (simp_all add: lit_def)
  note k = load_data_outcome [OF named(1) refl refl, of demo_env "Some (lit ''data/x.json'')"]
  note t = load_data_outcome [OF named(2) refl refl, of demo_env "Some (lit ''data/x.json'')"]
  have "?out (lit ''kvstore'') \<noteq> Waiting" using k demo_failure(1) by blast
  moreover have "network_answer demo_env \<in> {None, Some 7}" using demo_failure(2) by simp
  ultimately have "?out (lit ''kvstore'') = Resolved 7" using k demo_inlined(1) by blast
  moreover have "?out (lit ''toString'') \<noteq> Waiting" using t demo_failure(1) by blast
  moreover have "?out (lit ''toString'') \<noteq> Resolved v" for v
    using t demo_failure(2) demo_inlined(2) [of v] by (metis option.distinct(1))
  ultimately obtain msg where "?out (lit ''toString'') = Rejected msg"
    using settlement.exhaust by metis
  moreover from this t demo_failure(3) have "sublist (lit ''HTTP 404'') msg"
    by (metis insertCI)
  ultimately show ?thesis using \<open>?out (lit ''kvstore'') = Resolved 7\<close> by blast
qed

text \<open>
  The caller gets the same object either way. When the page inlines the very data that
  the server would send, every environment in which the promise settles resolves to it: with
  or without a path, on a file page or over the network, whatever fails on the way.
\<close>

theorem load_data_same_object:
  assumes "name \<noteq> []" and "read_inline env name = Some d"
    and "network_answer env \<in> {None, Some d}"
    and "snd (load_data env (NameText name) path) \<noteq> Waiting"
  shows "snd (load_data env (NameText name) path) = Resolved d"
  using load_data_eq [OF assms(1), of env path] assms(2-4)
  by (auto split: if_splits option.splits)

theorem load_data_same_object_witness:
  "snd (load_data (demo_env\<lparr>location_protocol := ProtocolThrows\<rparr>) (NameText (lit ''kvstore'')) None) = Resolved 7"
  using load_data_same_object
    [of "lit ''kvstore''" "demo_env\<lparr>location_protocol := ProtocolThrows\<rparr>" 7 None]
  by (simp add: demo_env_def network_answer_def read_inline_def bag_get_def load_data_def on_file_def fall_back_def)

end
