(* ===== verification/KitWash.thy ===== *)
theory KitWash
  imports KitDom
begin

text \<open>
  \<open>Kit.heroWash\<close>: the wash layer that follows the mouse over the hero. The closure's variables
  and the two custom properties it writes are one record; animation frames are one-shot
  callbacks of the browser. The percentages are computed in doubles: the rounding of each
  operation is the parameter \<open>fl\<close>, and nothing below depends on it.
\<close>

section \<open>Data\<close>

record rect =
  r_left :: rat
  r_top :: rat
  r_width :: rat
  r_height :: rat

text \<open>
  The window as the script probes it: whether \<open>matchMedia\<close> and \<open>requestAnimationFrame\<close> exist,
  whether the media query object can be subscribed to, and what the two queries say now.
\<close>

record media =
  has_match_media :: bool
  can_subscribe :: bool
  has_raf :: bool
  reduce :: bool
  hover :: bool

record wash_options =
  opt_rest_x :: "jsstr option"
  opt_rest_y :: "jsstr option"

record wash =
  fixed_rest :: "(jsstr \<times> jsstr) option"
  style_x :: "jsstr option"
  style_y :: "jsstr option"
  frame :: nat
  px :: rat
  py :: rat
  attached :: bool
  hero_listens :: bool
  mq_listens :: bool
  dead :: bool
  window_media :: media
  frames :: "unit oneshots"

section \<open>Formatting a percentage\<close>

text \<open>\<open>x.toFixed(2)\<close>: the magnitude rounded to hundredths, a tie away from zero, sign in front.\<close>

definition to_fixed2 :: "rat \<Rightarrow> jsstr" where
  "to_fixed2 x =
     (let n = nat \<lfloor>\<bar>x\<bar> * 100 + 1/2\<rfloor> in
      lit ((if x < 0 then ''-'' else []) @ dec (n div 100) @ ''.'' @
           [digit_char (n mod 100 div 10), digit_char (n mod 10)]))"

definition clamp_percent :: "rat \<Rightarrow> rat" where
  "clamp_percent x = (if x < -20 then -20 else if 120 < x then 120 else x)"

definition percent :: "rat \<Rightarrow> jsstr" where
  "percent x = to_fixed2 x @ lit ''%''"

section \<open>The inner functions\<close>

definition wash_reset :: "wash \<Rightarrow> wash" where
  "wash_reset w =
     (case fixed_rest w of
        Some (x, y) \<Rightarrow> w\<lparr>style_x := Some x, style_y := Some y\<rparr>
      | None \<Rightarrow> w\<lparr>style_x := None, style_y := None\<rparr>)"

definition paint :: "(rat \<Rightarrow> rat) \<Rightarrow> rect \<Rightarrow> wash \<Rightarrow> wash" where
  "paint fl r w0 =
     (let w = w0\<lparr>frame := 0\<rparr> in
      if dead w then w
      else if r_width r = 0 \<or> r_height r = 0 then w
      else let x = fl (fl (fl (px w - r_left r) / r_width r) * 100);
               y = fl (fl (fl (py w - r_top r) / r_height r) * 100)
           in w\<lparr>style_x := Some (percent (clamp_percent x)),
                style_y := Some (percent (clamp_percent y))\<rparr>)"

definition on_move :: "jsstr \<Rightarrow> rat \<Rightarrow> rat \<Rightarrow> wash \<Rightarrow> wash" where
  "on_move pointer_type x y w =
     (if pointer_type \<noteq> [] \<and> pointer_type \<noteq> lit ''mouse'' then w
      else let w1 = w\<lparr>px := x, py := y\<rparr> in
        if frame w1 \<noteq> 0 then w1
        else let (h, q) = register () (frames w1) in w1\<lparr>frame := h, frames := q\<rparr>)"

definition cancel_frame :: "wash \<Rightarrow> wash" where
  "cancel_frame w =
     (if frame w \<noteq> 0 then w\<lparr>frames := withdraw (frame w) (frames w), frame := 0\<rparr> else w)"

definition on_leave :: "wash \<Rightarrow> wash" where
  "on_leave w = wash_reset (cancel_frame w)"

definition attach :: "wash \<Rightarrow> wash" where
  "attach w =
     (if attached w \<or> dead w then w else w\<lparr>hero_listens := True, attached := True\<rparr>)"

definition detach :: "wash \<Rightarrow> wash" where
  "detach w =
     (if \<not> attached w then w
      else wash_reset (cancel_frame (w\<lparr>hero_listens := False, attached := False\<rparr>)))"

definition apply_media :: "wash \<Rightarrow> wash" where
  "apply_media w =
     (if dead w then w
      else let m = window_media w;
               reduced = (has_match_media m \<and> reduce m);
               can_hover = (has_match_media m \<longrightarrow> hover m)
           in if reduced \<or> \<not> can_hover \<or> \<not> has_raf m then detach w else attach w)"

definition wash_destroy :: "wash \<Rightarrow> wash" where
  "wash_destroy w = (detach (w\<lparr>dead := True\<rparr>))\<lparr>mq_listens := False\<rparr>"

text \<open>
  \<open>Kit.heroWash\<close>; the first argument says whether the hero is an element that holds a wash
  layer, \<open>style\<close> is what the layer's inline style holds before. \<open>None\<close> is the inert controller.
\<close>

definition hero_wash ::
  "bool \<Rightarrow> jsstr option \<times> jsstr option \<Rightarrow> wash_options \<Rightarrow> media \<Rightarrow> nat \<Rightarrow> wash option" where
  "hero_wash found style opts m h =
     (if \<not> found then None
      else
        let restX = or_text (opt_rest_x opts) (lit ''82%'');
            restY = or_text (opt_rest_y opts) (lit ''14%'');
            custom = (or_text (opt_rest_x opts) [] \<noteq> [] \<or> or_text (opt_rest_y opts) [] \<noteq> [])
        in Some (apply_media (wash_reset
             \<lparr>fixed_rest = (if custom then Some (restX, restY) else None),
              style_x = fst style, style_y = snd style, frame = 0, px = 0, py = 0,
              attached = False, hero_listens = False,
              mq_listens = (has_match_media m \<and> can_subscribe m), dead = False,
              window_media = m, frames = \<lparr>next_handle = h, waiting = []\<rparr>\<rparr>)))"

section \<open>Events\<close>

text \<open>
  A pointer moves over or leaves the hero, a requested frame is painted (the hero's rectangle
  at that time), the two media queries take new values, or the controller is destroyed. The
  subscription reports a change of the reduced-motion query only.
\<close>

datatype wash_event =
    PointerMove jsstr rat rat | PointerLeave | FramePaints nat rect
  | MediaBecomes bool bool | WashDestroy

fun wash_step :: "(rat \<Rightarrow> rat) \<Rightarrow> wash \<Rightarrow> wash_event \<Rightarrow> wash" where
  "wash_step fl w (PointerMove t x y) = (if hero_listens w then on_move t x y w else w)"
| "wash_step fl w PointerLeave = (if hero_listens w then on_leave w else w)"
| "wash_step fl w (FramePaints h r) =
     (if h \<in> handles (frames w) then paint fl r (w\<lparr>frames := withdraw h (frames w)\<rparr>) else w)"
| "wash_step fl w (MediaBecomes rd hv) =
     (let w1 = w\<lparr>window_media := (window_media w)\<lparr>reduce := rd, hover := hv\<rparr>\<rparr>
      in if mq_listens w \<and> rd \<noteq> reduce (window_media w) then apply_media w1 else w1)"
| "wash_step fl w WashDestroy = wash_destroy w"

section \<open>The invariant\<close>

definition frame_inv :: "wash \<Rightarrow> bool" where
  "frame_inv w \<longleftrightarrow>
     oneshots_ok (frames w) \<and> handles (frames w) = (if frame w = 0 then {} else {frame w})"

definition at_rest :: "wash \<Rightarrow> bool" where
  "at_rest w \<longleftrightarrow>
     style_x w = map_option fst (fixed_rest w) \<and> style_y w = map_option snd (fixed_rest w)"

definition in_range :: "jsstr option \<Rightarrow> bool" where
  "in_range s \<longleftrightarrow> (\<exists>x. -20 \<le> x \<and> x \<le> 120 \<and> s = Some (percent x))"

definition wash_inv :: "wash \<Rightarrow> bool" where
  "wash_inv w \<longleftrightarrow>
     frame_inv w \<and> hero_listens w = attached w \<and> (frame w \<noteq> 0 \<longrightarrow> attached w) \<and>
     (dead w \<longrightarrow> \<not> attached w \<and> \<not> mq_listens w) \<and>
     (mq_listens w \<longrightarrow> has_match_media (window_media w)) \<and>
     (mq_listens w \<and> attached w \<longrightarrow> \<not> reduce (window_media w)) \<and>
     (\<not> attached w \<longrightarrow> at_rest w) \<and>
     (at_rest w \<or> in_range (style_x w) \<and> in_range (style_y w))"

lemma clamp_percent_range: "-20 \<le> clamp_percent x \<and> clamp_percent x \<le> 120"
  by (simp add: clamp_percent_def)

lemma wash_reset_frame [kit_simps]:
  "frame (wash_reset w) = frame w" "frames (wash_reset w) = frames w"
  "attached (wash_reset w) = attached w" "hero_listens (wash_reset w) = hero_listens w"
  "mq_listens (wash_reset w) = mq_listens w" "dead (wash_reset w) = dead w"
  "window_media (wash_reset w) = window_media w" "fixed_rest (wash_reset w) = fixed_rest w"
  by (simp_all add: wash_reset_def split: option.split prod.split)

lemma at_rest_reset [simp]: "at_rest (wash_reset w)"
  by (simp add: wash_reset_def at_rest_def split: option.split prod.split)

lemma cancel_frame_frame [kit_simps]:
  "frame (cancel_frame w) = 0" "attached (cancel_frame w) = attached w"
  "hero_listens (cancel_frame w) = hero_listens w" "mq_listens (cancel_frame w) = mq_listens w"
  "dead (cancel_frame w) = dead w" "window_media (cancel_frame w) = window_media w"
  by (simp_all add: cancel_frame_def)

lemma frame_inv_cancel:
  assumes "frame_inv w"
  shows "frame_inv (cancel_frame w)"
proof (cases "frame w = 0")
  case False
  with assms have "oneshots_ok (frames w)" "handles (frames w) = {frame w}"
    by (simp_all add: frame_inv_def)
  with False show ?thesis
    by (simp add: frame_inv_def cancel_frame_def shots.ok_del shots.del_sole)
qed (use assms in \<open>simp add: cancel_frame_def\<close>)

lemma frame_inv_cong:
  "frames v = frames w \<Longrightarrow> frame v = frame w \<Longrightarrow> frame_inv v = frame_inv w"
  by (simp add: frame_inv_def)

lemma frame_inv_update [simp]:
  "frame_inv (w\<lparr>hero_listens := b\<rparr>) = frame_inv w" "frame_inv (w\<lparr>attached := b\<rparr>) = frame_inv w"
  "frame_inv (w\<lparr>mq_listens := b\<rparr>) = frame_inv w" "frame_inv (w\<lparr>dead := b\<rparr>) = frame_inv w"
  "frame_inv (w\<lparr>window_media := m\<rparr>) = frame_inv w" "frame_inv (w\<lparr>px := x\<rparr>) = frame_inv w"
  "frame_inv (w\<lparr>py := y\<rparr>) = frame_inv w"
  by (rule frame_inv_cong; simp)+

lemma frame_inv_reset [simp]: "frame_inv (wash_reset w) = frame_inv w"
  by (rule frame_inv_cong) (simp_all add: kit_simps)

lemma frame_inv_request:
  assumes "frame_inv w" "frame w = 0"
  shows "frame_inv (w\<lparr>px := x, py := y, frame := fst (register () (frames w)),
           frames := snd (register () (frames w))\<rparr>)"
    and "fst (register () (frames w)) \<noteq> 0"
proof -
  have o: "oneshots_ok (frames w)" and n: "handles (frames w) = {}"
    using assms by (simp_all add: frame_inv_def)
  show "fst (register () (frames w)) \<noteq> 0"
    using shots.hs_fresh [OF o] by (metis neq0_conv)
  then show "frame_inv (w\<lparr>px := x, py := y, frame := fst (register () (frames w)),
      frames := snd (register () (frames w))\<rparr>)"
    using shots.ok_add [OF o] shots.add_sole [OF o n] by (simp add: frame_inv_def)
qed

lemma wash_inv_detach: "frame_inv w \<Longrightarrow> hero_listens w = attached w \<Longrightarrow>
    (\<not> attached w \<longrightarrow> at_rest w \<and> frame w = 0) \<Longrightarrow>
    frame_inv (detach w) \<and> \<not> attached (detach w) \<and> \<not> hero_listens (detach w) \<and>
    frame (detach w) = 0 \<and> at_rest (detach w) \<and> mq_listens (detach w) = mq_listens w \<and>
    dead (detach w) = dead w \<and> window_media (detach w) = window_media w"
  by (cases "attached w") (simp_all add: detach_def kit_simps frame_inv_cancel)

lemma wash_inv_apply:
  assumes "frame_inv w" "hero_listens w = attached w" "\<not> attached w \<longrightarrow> at_rest w \<and> frame w = 0"
    "\<not> dead w" "mq_listens w \<longrightarrow> has_match_media (window_media w)"
    "at_rest w \<or> in_range (style_x w) \<and> in_range (style_y w)"
  shows "wash_inv (apply_media w)"
proof -
  have d: "wash_inv (detach w)"
    using wash_inv_detach [OF assms(1,2,3)] assms(4,5) by (simp add: wash_inv_def)
  have a: "wash_inv (attach w)" if "\<not> (has_match_media (window_media w) \<and> reduce (window_media w))"
    using assms that by (auto simp: wash_inv_def attach_def frame_inv_def at_rest_def)
  show ?thesis using d a assms(4) by (simp add: apply_media_def Let_def)
qed

lemma at_rest_update [simp]:
  "at_rest (w\<lparr>frames := q\<rparr>) = at_rest w" "at_rest (w\<lparr>frame := h\<rparr>) = at_rest w"
  "at_rest (w\<lparr>px := x\<rparr>) = at_rest w" "at_rest (w\<lparr>py := y\<rparr>) = at_rest w"
  "at_rest (w\<lparr>window_media := m\<rparr>) = at_rest w" "at_rest (w\<lparr>dead := b\<rparr>) = at_rest w"
  "at_rest (w\<lparr>mq_listens := b\<rparr>) = at_rest w"
  by (simp_all add: at_rest_def)

lemma wash_inv_move: "wash_inv w \<Longrightarrow> attached w \<Longrightarrow> wash_inv (on_move t x y w)"
proof -
  assume i: "wash_inv w" and a: "attached w"
  show "wash_inv (on_move t x y w)"
  proof (cases "frame w = 0")
    case True
    have f: "frame_inv w" using i by (simp add: wash_inv_def)
    show ?thesis
      using i a True frame_inv_request(1) [OF f True, where x = x and y = y] frame_inv_request(2) [OF f True]
      by (simp add: on_move_def Let_def case_prod_beta wash_inv_def)
  next
    case False
    with i a show ?thesis by (simp add: on_move_def Let_def wash_inv_def frame_inv_def)
  qed
qed

lemma wash_inv_leave: "wash_inv w \<Longrightarrow> attached w \<Longrightarrow> wash_inv (on_leave w)"
  by (auto simp: on_leave_def wash_inv_def kit_simps intro: frame_inv_cancel)

lemma wash_inv_paint:
  assumes "wash_inv w" "h \<in> handles (frames w)"
  shows "wash_inv (paint fl r (w\<lparr>frames := withdraw h (frames w)\<rparr>))"
proof -
  have f: "frame w = h" "frame w \<noteq> 0" and o: "oneshots_ok (frames w)" "handles (frames w) = {h}"
    using assms by (auto simp: wash_inv_def frame_inv_def split: if_splits)
  then have a: "attached w" "\<not> dead w" using assms(1) by (auto simp: wash_inv_def)
  have q: "oneshots_ok (withdraw h (frames w))" "handles (withdraw h (frames w)) = {}"
    using o by (simp_all add: shots.ok_del shots.del_sole)
  have r: "in_range (Some (percent (clamp_percent x)))" for x
    using clamp_percent_range by (auto simp: in_range_def)
  show ?thesis
    using assms(1) a q r by (simp add: paint_def Let_def wash_inv_def frame_inv_def)
qed

lemma wash_inv_listens: "wash_inv w \<Longrightarrow> hero_listens w = attached w"
  by (simp add: wash_inv_def)

lemma wash_inv_step:
  assumes i: "wash_inv w"
  shows "wash_inv (wash_step fl w e)"
proof (cases e)
  case (MediaBecomes rd hv)
  let ?v = "w\<lparr>window_media := (window_media w)\<lparr>reduce := rd, hover := hv\<rparr>\<rparr>"
  have "wash_inv (apply_media ?v)" if "mq_listens w"
    using i that by (intro wash_inv_apply) (auto simp: wash_inv_def frame_inv_def)
  moreover have "wash_inv ?v" if "\<not> (mq_listens w \<and> rd \<noteq> reduce (window_media w))"
    using i that by (auto simp: wash_inv_def frame_inv_def)
  ultimately show ?thesis using MediaBecomes by (auto simp: Let_def)
next
  case WashDestroy
  have "frame_inv (w\<lparr>dead := True\<rparr>)" using i by (simp add: wash_inv_def)
  moreover have "\<not> attached w \<longrightarrow> at_rest w \<and> frame w = 0" using i by (auto simp: wash_inv_def)
  ultimately show ?thesis
    using i wash_inv_detach [of "w\<lparr>dead := True\<rparr>"] wash_inv_listens [OF i]
    by (simp add: WashDestroy wash_destroy_def wash_inv_def)
qed (use i wash_inv_listens [OF i] in \<open>simp_all add: wash_inv_move wash_inv_leave wash_inv_paint\<close>)

interpretation wsh: machine "wash_step fl" wash_inv for fl
  by unfold_locales (rule wash_inv_step)

lemma hero_wash_inv: "0 < h \<Longrightarrow> hero_wash found style opts m h = Some w \<Longrightarrow> wash_inv w"
  by (auto simp: hero_wash_def Let_def kit_simps frame_inv_def oneshots_ok_def handles_def
      split: if_splits intro!: wash_inv_apply)

section \<open>Properties\<close>

text \<open>
  C39: at most one animation frame is pending, it is the one the wash remembers, and only
  while the wash listens to the mouse; after any events the two custom properties are the
  resting ones or percentages between -20 and 120, however the doubles round; and whenever the
  wash is not attached they are the resting ones.
\<close>

theorem wash_frames_and_range:
  assumes "0 < h" and "hero_wash found style opts m h = Some w0"
    and "w = foldl (wash_step fl) w0 es"
  shows "length (waiting (frames w)) = (if frame w = 0 then 0 else 1) \<and>
         (frame w \<noteq> 0 \<longrightarrow> attached w) \<and>
         (at_rest w \<or> in_range (style_x w) \<and> in_range (style_y w)) \<and>
         (\<not> attached w \<longrightarrow> at_rest w)"
proof -
  have i: "wash_inv w" unfolding assms(3) by (rule wsh.runs_inv [OF hero_wash_inv [OF assms(1,2)]])
  then have o: "distinct (map fst (waiting (frames w)))"
    and hs: "handles (frames w) = (if frame w = 0 then {} else {frame w})"
    by (simp_all add: wash_inv_def frame_inv_def oneshots_ok_def)
  have "length (waiting (frames w)) = card (handles (frames w))"
    using distinct_card [OF o] by (simp add: handles_def)
  with hs i show ?thesis by (simp add: wash_inv_def)
qed

definition mouse_media :: media where
  "mouse_media = \<lparr>has_match_media = True, can_subscribe = True, has_raf = True, reduce = False, hover = True\<rparr>"

definition plain_wash :: wash_options where
  "plain_wash = \<lparr>opt_rest_x = None, opt_rest_y = None\<rparr>"

definition demo_wash :: wash where
  "demo_wash = the (hero_wash True (None, None) plain_wash mouse_media 1)"

lemma demo_wash_mounted: "hero_wash True (None, None) plain_wash mouse_media 1 = Some demo_wash"
  by (simp add: demo_wash_def hero_wash_def Let_def)

lemma demo_wash_state: "attached demo_wash" "hero_listens demo_wash" "mq_listens demo_wash"
  "\<not> dead demo_wash" "frame demo_wash = 0" "window_media demo_wash = mouse_media"
  by (simp_all add: demo_wash_def hero_wash_def Let_def plain_wash_def mouse_media_def or_text_def
      wash_reset_def apply_media_def attach_def)

theorem wash_frames_and_range_witness:
  "length (waiting (frames (foldl (wash_step (\<lambda>x. x)) demo_wash
     [PointerMove (lit ''mouse'') 1 2, PointerMove (lit ''mouse'') 3 4]))) \<le> 1"
  using wash_frames_and_range [OF _ demo_wash_mounted refl, of "\<lambda>x. x"
    "[PointerMove (lit ''mouse'') 1 2, PointerMove (lit ''mouse'') 3 4]"]
  by (simp del: foldl.simps)

text \<open>
  The wash can be switched off, by the visitor and by the page. After any events, if the
  media query could be subscribed to and now asks for reduced motion, no pointer listener is
  attached, no frame is pending, the layer is at rest, and a pointer that moves or leaves changes
  nothing. A destroyed wash has no listener, no subscription and no pending frame, stays destroyed,
  and no event changes what the layer shows. A finger or a pen never changes anything at all.
\<close>

theorem wash_can_be_switched_off:
  assumes "0 < h" and "hero_wash found style opts m h = Some w0"
    and "w = foldl (wash_step fl) w0 es"
  shows "(mq_listens w \<and> reduce (window_media w) \<longrightarrow>
            \<not> hero_listens w \<and> waiting (frames w) = [] \<and> at_rest w \<and>
            wash_step fl w (PointerMove t x y) = w \<and> wash_step fl w PointerLeave = w) \<and>
         dead (wash_step fl w WashDestroy) \<and>
         (dead w \<longrightarrow> \<not> hero_listens w \<and> \<not> mq_listens w \<and> waiting (frames w) = [] \<and>
            dead (wash_step fl w e) \<and> style_x (wash_step fl w e) = style_x w \<and>
            style_y (wash_step fl w e) = style_y w) \<and>
         (t \<notin> {[], lit ''mouse''} \<longrightarrow> wash_step fl w (PointerMove t x y) = w)"
proof -
  have i: "wash_inv w" unfolding assms(3) by (rule wsh.runs_inv [OF hero_wash_inv [OF assms(1,2)]])
  have "dead (wash_step fl w e) \<and> style_x (wash_step fl w e) = style_x w \<and>
      style_y (wash_step fl w e) = style_y w" if "dead w"
    using i that
    by (cases e) (auto simp: Let_def wash_destroy_def detach_def wash_inv_def frame_inv_def)
  moreover have "dead (wash_step fl w WashDestroy)"
    by (simp add: wash_destroy_def detach_def kit_simps)
  ultimately show ?thesis
    using i by (auto simp: wash_inv_def frame_inv_def on_move_def oneshots_empty)
qed

theorem wash_can_be_switched_off_witness:
  "hero_listens (wash_step (\<lambda>x. x) demo_wash (MediaBecomes True True)) = False"
proof -
  let ?w = "wash_step (\<lambda>x. x) demo_wash (MediaBecomes True True)"
  let ?v = "demo_wash\<lparr>window_media := mouse_media\<lparr>reduce := True, hover := True\<rparr>\<rparr>"
  have "?w = apply_media ?v"
    using demo_wash_state by (simp add: mouse_media_def)
  also have "\<dots> = detach ?v"
    using demo_wash_state by (simp add: apply_media_def mouse_media_def)
  finally have w: "?w = detach ?v" .
  have s: "mq_listens ?w" "reduce (window_media ?w)"
    unfolding w using demo_wash_state by (simp_all add: detach_def kit_simps)
  show ?thesis
    using wash_can_be_switched_off [OF _ demo_wash_mounted, of ?w "\<lambda>x. x" "[MediaBecomes True True]"] s
    by (simp del: wash_step.simps)
qed

end
