(* ===== verification/KitStart.thy ===== *)
theory KitStart
  imports KitTheme KitWash
begin

text \<open>
  What docs/kit.js does when it runs: the guard against a second load, the saved theme, and
  \<open>autoInit\<close>, at once or when the document has been parsed. The page is what the script finds: its
  heroes, its theme toggles, and how far the browser has got with it.
\<close>

section \<open>The page\<close>

datatype ready_state = Loading | Interactive | Complete

text \<open>A hero with the washes that were made for it, and how often \<open>heroWash\<close> was called on it.\<close>

record hero =
  hero_layer :: bool
  hero_style :: "jsstr option \<times> jsstr option"
  hero_calls :: nat
  hero_washes :: "wash list"

record toggle =
  tg_button :: toggle_btn
  tg_listeners :: nat

record kit_page =
  kit_loaded :: bool
  ready :: ready_state
  on_parsed :: nat
  parsed :: bool
  heroes :: "hero list"
  toggles :: "toggle list"
  page_theme :: theme_env
  page_media :: media

section \<open>The script\<close>

definition wire_hero :: "media \<Rightarrow> hero \<Rightarrow> hero" where
  "wire_hero m h =
     (case hero_wash (hero_layer h) (hero_style h) \<lparr>opt_rest_x = None, opt_rest_y = None\<rparr> m 1 of
        None \<Rightarrow> h\<lparr>hero_calls := hero_calls h + 1\<rparr>
      | Some w \<Rightarrow> h\<lparr>hero_calls := hero_calls h + 1, hero_washes := hero_washes h @ [w],
                  hero_style := (style_x w, style_y w)\<rparr>)"

definition mount_toggle :: "theme_env \<Rightarrow> toggle \<Rightarrow> toggle" where
  "mount_toggle env t =
     (case theme_mount (Some (tg_button t)) env of
        None \<Rightarrow> t
      | Some b \<Rightarrow> t\<lparr>tg_button := b, tg_listeners := tg_listeners t + 1\<rparr>)"

definition auto_init :: "kit_page \<Rightarrow> kit_page" where
  "auto_init p =
     p\<lparr>heroes := map (wire_hero (page_media p)) (heroes p),
       toggles := map (mount_toggle (page_theme p)) (toggles p)\<rparr>"

definition kit_script :: "kit_page \<Rightarrow> kit_page" where
  "kit_script p =
     (if kit_loaded p then p
      else let p1 = p\<lparr>page_theme := snd (theme_restore (page_theme p))\<rparr>;
               p2 = (if ready p1 = Loading then p1\<lparr>on_parsed := on_parsed p1 + 1\<rparr> else auto_init p1)
           in p2\<lparr>kit_loaded := True\<rparr>)"

section \<open>What happens to a page\<close>

text \<open>
  The parser adds elements and ends, \<open>DOMContentLoaded\<close> runs what is registered for it, the load
  completes; the script may run at any time and any number of times; a toggle is clicked, and each
  of its listeners runs.
\<close>

datatype page_event =
    AddHero bool "jsstr option \<times> jsstr option" | AddToggle toggle_btn | ParsingEnds | ContentLoaded
  | LoadCompletes | RunKit | ClickOn nat

fun page_step :: "kit_page \<Rightarrow> page_event \<Rightarrow> kit_page" where
  "page_step p (AddHero l st) =
     p\<lparr>heroes := heroes p @ [\<lparr>hero_layer = l, hero_style = st, hero_calls = 0, hero_washes = []\<rparr>]\<rparr>"
| "page_step p (AddToggle b) = p\<lparr>toggles := toggles p @ [\<lparr>tg_button = b, tg_listeners = 0\<rparr>]\<rparr>"
| "page_step p ParsingEnds = p\<lparr>ready := Interactive\<rparr>"
| "page_step p ContentLoaded = ((auto_init ^^ on_parsed p) p)\<lparr>parsed := True\<rparr>"
| "page_step p LoadCompletes = p\<lparr>ready := Complete\<rparr>"
| "page_step p RunKit = kit_script p"
| "page_step p (ClickOn i) =
     (if i < length (toggles p) then
        (case (theme_click ^^ tg_listeners (toggles p ! i)) (page_theme p, tg_button (toggles p ! i)) of
           (env, b) \<Rightarrow> p\<lparr>page_theme := env, toggles := (toggles p)[i := (toggles p ! i)\<lparr>tg_button := b\<rparr>]\<rparr>)
      else p)"

fun browser_order :: "kit_page \<Rightarrow> page_event \<Rightarrow> bool" where
  "browser_order p (AddHero l st) \<longleftrightarrow> ready p = Loading"
| "browser_order p (AddToggle b) \<longleftrightarrow> ready p = Loading"
| "browser_order p ParsingEnds \<longleftrightarrow> ready p = Loading"
| "browser_order p ContentLoaded \<longleftrightarrow> ready p = Interactive \<and> \<not> parsed p"
| "browser_order p LoadCompletes \<longleftrightarrow> parsed p"
| "browser_order p RunKit \<longleftrightarrow> True"
| "browser_order p (ClickOn i) \<longleftrightarrow> True"

definition empty_page :: "theme_env \<Rightarrow> media \<Rightarrow> kit_page" where
  "empty_page env m =
     \<lparr>kit_loaded = False, ready = Loading, on_parsed = 0, parsed = False, heroes = [], toggles = [],
      page_theme = env, page_media = m\<rparr>"

section \<open>The invariant\<close>

definition hero_wired :: "nat \<Rightarrow> hero \<Rightarrow> bool" where
  "hero_wired n h \<longleftrightarrow> hero_calls h = n \<and> length (hero_washes h) = (if hero_layer h then n else 0)"

text \<open>How often everything on the page has been wired: never or once.\<close>

definition wirings :: "kit_page \<Rightarrow> nat" where
  "wirings p = (if kit_loaded p \<and> (on_parsed p = 0 \<or> parsed p) then 1 else 0)"

definition phase_ok :: "kit_page \<Rightarrow> bool" where
  "phase_ok p \<longleftrightarrow> on_parsed p \<le> 1 \<and> (0 < on_parsed p \<longrightarrow> kit_loaded p) \<and>
     (ready p = Loading \<longrightarrow> \<not> parsed p \<and> (kit_loaded p \<longrightarrow> on_parsed p = 1))"

definition start_ok :: "kit_page \<Rightarrow> bool" where
  "start_ok p \<longleftrightarrow> phase_ok p \<and> (\<forall>h \<in> set (heroes p). hero_wired (wirings p) h) \<and>
     (\<forall>t \<in> set (toggles p). tg_listeners t = wirings p)"

lemma hero_wired_again: "hero_wired n h \<Longrightarrow> hero_wired (Suc n) (wire_hero m h)"
  by (auto simp: hero_wired_def wire_hero_def hero_wash_def Let_def split: option.split)

lemma mounted_listeners [simp]: "tg_listeners (mount_toggle env t) = Suc (tg_listeners t)"
  by (simp add: mount_toggle_def theme_mount_def)

lemma auto_init_fields [simp]:
  "kit_loaded (auto_init p) = kit_loaded p" "ready (auto_init p) = ready p"
  "on_parsed (auto_init p) = on_parsed p" "parsed (auto_init p) = parsed p"
  "heroes (auto_init p) = map (wire_hero (page_media p)) (heroes p)"
  "toggles (auto_init p) = map (mount_toggle (page_theme p)) (toggles p)"
  by (simp_all add: auto_init_def)

lemma start_ok_script: "start_ok p \<Longrightarrow> start_ok (kit_script p)"
  by (auto simp: start_ok_def phase_ok_def wirings_def kit_script_def Let_def
      intro: hero_wired_again [where n = 0, simplified])

lemma start_ok_parsed:
  assumes "start_ok p" "ready p = Interactive" "\<not> parsed p"
  shows "start_ok (page_step p ContentLoaded)"
proof (cases "on_parsed p = 0")
  case True
  with assms show ?thesis by (auto simp: start_ok_def phase_ok_def wirings_def)
next
  case False
  with assms(1) have "on_parsed p = 1" by (auto simp: start_ok_def phase_ok_def)
  with assms show ?thesis
    by (auto simp: start_ok_def phase_ok_def wirings_def intro: hero_wired_again [where n = 0, simplified])
qed

lemma start_ok_click:
  assumes "start_ok p"
  shows "start_ok (page_step p (ClickOn i))"
proof (cases "i < length (toggles p)")
  case True
  let ?t = "toggles p ! i"
  obtain env b where c: "(theme_click ^^ tg_listeners ?t) (page_theme p, tg_button ?t) = (env, b)"
    by (metis surj_pair)
  let ?q = "p\<lparr>page_theme := env, toggles := (toggles p)[i := ?t\<lparr>tg_button := b\<rparr>]\<rparr>"
  have "wirings ?q = wirings p" "phase_ok ?q = phase_ok p"
    by (simp_all add: wirings_def phase_ok_def)
  moreover have "tg_listeners u = wirings p" if "u \<in> set (toggles ?q)" for u
    using that assms nth_mem [OF True] set_update_subset_insert [of "toggles p" i "?t\<lparr>tg_button := b\<rparr>"]
    by (auto simp: start_ok_def)
  ultimately have "start_ok ?q"
    using assms by (simp add: start_ok_def)
  with True c show ?thesis by simp
qed (use assms in simp)

lemma start_ok_step:
  assumes "start_ok p" "browser_order p e"
  shows "start_ok (page_step p e)"
proof (cases e)
  case ContentLoaded
  with assms start_ok_parsed [of p] show ?thesis by (simp del: page_step.simps)
next
  case (ClickOn i)
  with assms(1) show ?thesis by (simp add: start_ok_click del: page_step.simps)
next
  case RunKit
  with assms(1) show ?thesis by (simp add: start_ok_script)
next
  case (AddHero l st)
  with assms show ?thesis
    by (auto simp: start_ok_def phase_ok_def wirings_def hero_wired_def)
next
  case (AddToggle b)
  with assms show ?thesis
    by (auto simp: start_ok_def phase_ok_def wirings_def)
qed (use assms in \<open>auto simp: start_ok_def phase_ok_def wirings_def\<close>)

interpretation kitstart: guarded_machine page_step browser_order start_ok
  by unfold_locales (rule start_ok_step)

lemma start_ok_run:
  "allowed page_step browser_order (empty_page env m) es \<Longrightarrow> start_ok (foldl page_step (empty_page env m) es)"
  by (rule kitstart.run_inv) (simp_all add: start_ok_def phase_ok_def wirings_def empty_page_def)

text \<open>
  What was parsed is remembered by the page: the events that have put a hero or a toggle on it.
\<close>

lemma loaded_stays: "kit_loaded p \<Longrightarrow> kit_loaded (foldl page_step p es)"
proof (induction es arbitrary: p)
  case (Cons e es)
  have "kit_loaded ((auto_init ^^ n) p)" for n
    using Cons.prems by (induction n) simp_all
  then have "kit_loaded (page_step p e)"
    using Cons.prems by (cases e) (simp_all add: kit_script_def split: prod.split)
  with Cons.IH show ?case by simp
qed simp

section \<open>Properties\<close>

text \<open>
  C37: wherever the script tag stands and however often the script is run, once the document has been
  parsed every hero of the page has had exactly one call of \<open>heroWash\<close>, with one wash if it holds a
  wash layer, and every theme toggle has exactly one listener, so that a click moves the theme on by
  exactly one mode; before that nothing has been wired twice, and a further run of the script
  changes nothing at all.
\<close>

theorem page_is_wired_exactly_once:
  assumes "allowed page_step browser_order (empty_page env m) es"
    and "p = foldl page_step (empty_page env m) es"
  shows "(kit_loaded p \<and> parsed p \<longrightarrow>
      (\<forall>h \<in> set (heroes p). hero_wired 1 h) \<and> (\<forall>t \<in> set (toggles p). tg_listeners t = 1) \<and>
      (i < length (toggles p) \<longrightarrow>
        theme_get (page_theme (page_step p (ClickOn i))) =
          (if theme_get (page_theme p) = lit ''system'' then lit ''light''
           else if theme_get (page_theme p) = lit ''light'' then lit ''dark'' else lit ''system''))) \<and>
    (\<forall>h \<in> set (heroes p). hero_calls h \<le> 1) \<and> (\<forall>t \<in> set (toggles p). tg_listeners t \<le> 1) \<and>
    (kit_loaded p \<longrightarrow> page_step p RunKit = p)"
proof -
  have ok: "start_ok p"
    using start_ok_run [OF assms(1)] by (simp add: assms(2))
  have w: "wirings p \<le> 1" "kit_loaded p \<and> parsed p \<Longrightarrow> wirings p = 1"
    by (auto simp: wirings_def)
  have "theme_get (page_theme (page_step p (ClickOn i))) =
      (if theme_get (page_theme p) = lit ''system'' then lit ''light''
       else if theme_get (page_theme p) = lit ''light'' then lit ''dark'' else lit ''system'')"
    if "kit_loaded p \<and> parsed p" "i < length (toggles p)"
  proof -
    have "tg_listeners (toggles p ! i) = 1"
      using ok w(2) [OF that(1)] nth_mem [OF that(2)] by (auto simp: start_ok_def)
    then show ?thesis
      using that(2) theme_click_cycle [of "page_theme p" "tg_button (toggles p ! i)"]
      by (auto split: prod.split)
  qed
  then show ?thesis
    using ok w by (auto simp: start_ok_def hero_wired_def kit_script_def)
qed

definition demo_toggle :: toggle_btn where
  "demo_toggle = \<lparr>tg_btn = blank_elem, tg_slot = None\<rparr>"

theorem page_is_wired_exactly_once_witness:
  "map tg_listeners (toggles (foldl page_step (empty_page (fst demo_visit) mouse_media)
     [AddToggle demo_toggle, RunKit, AddToggle demo_toggle, RunKit, ParsingEnds, ContentLoaded, RunKit])) = [1, 1]"
proof -
  let ?es = "[AddToggle demo_toggle, RunKit, AddToggle demo_toggle, RunKit, ParsingEnds, ContentLoaded, RunKit]"
  let ?p = "foldl page_step (empty_page (fst demo_visit) mouse_media) ?es"
  have "allowed page_step browser_order (empty_page (fst demo_visit) mouse_media) ?es"
    by (simp add: empty_page_def kit_script_def)
  note once = page_is_wired_exactly_once [OF this refl, of 0]
  have p: "kit_loaded ?p \<and> parsed ?p" "length (toggles ?p) = 2"
    by (simp_all add: empty_page_def kit_script_def)
  then have "\<forall>t \<in> set (toggles ?p). tg_listeners t = 1"
    using once by blast
  with p(2) show ?thesis
    by (auto simp: numeral_2_eq_2 length_Suc_conv simp del: foldl.simps)
qed

text \<open>
  Several toggles do not know of each other: a click relabels its own button only, so the others go
  on naming the mode that has been left.
\<close>

lemma other_toggles_are_not_relabelled:
  "i < length (toggles p) \<Longrightarrow> j \<noteq> i \<Longrightarrow> toggles (page_step p (ClickOn i)) ! j = toggles p ! j"
  by (simp split: prod.split)

end
