(* ===== verification/GoMem.thy ===== *)
theory GoMem
  imports Prelude
begin

unbundle bit_operations_syntax

text \<open>
  The linear memory of the Go program as docs/wasm_exec.js reads and writes it through its
  \<open>DataView\<close>: little-endian 32-bit words, doubles as two words, and the 64-bit integers that the
  code splits by hand. An access past the end throws, which is \<open>None\<close> here.
\<close>

section \<open>Bytes\<close>

record memory =
  mem_size :: nat
  mem_byte :: "nat \<Rightarrow> 8 word"

definition load_bytes :: "nat \<Rightarrow> nat \<Rightarrow> memory \<Rightarrow> 8 word list option" where
  "load_bytes a n m = (if a + n \<le> mem_size m then Some (map (mem_byte m) [a..<a + n]) else None)"

definition store_bytes :: "nat \<Rightarrow> 8 word list \<Rightarrow> memory \<Rightarrow> memory option" where
  "store_bytes a bs m =
     (if a + length bs \<le> mem_size m
      then Some (m\<lparr>mem_byte := (\<lambda>i. if a \<le> i \<and> i < a + length bs then bs ! (i - a) else mem_byte m i)\<rparr>)
      else None)"

lemma store_bytes_size: "store_bytes a bs m = Some m' \<Longrightarrow> mem_size m' = mem_size m"
  by (auto simp: store_bytes_def split: if_splits)

lemma load_store_same:
  assumes "store_bytes a bs m = Some m'"
  shows "load_bytes a (length bs) m' = Some bs"
proof -
  have "map (\<lambda>i. if a \<le> i \<and> i < a + length bs then bs ! (i - a) else f i) [a..<a + length bs] = bs" for f
    by (rule nth_equalityI) simp_all
  with assms show ?thesis
    by (auto simp: store_bytes_def load_bytes_def split: if_splits)
qed

lemma load_store_apart:
  assumes "store_bytes a bs m = Some m'" "b + n \<le> a \<or> a + length bs \<le> b"
  shows "load_bytes b n m' = load_bytes b n m"
  using assms by (auto simp: store_bytes_def load_bytes_def split: if_splits)

section \<open>Words of 32 bits\<close>

definition le_bytes :: "32 word \<Rightarrow> 8 word list" where
  "le_bytes w = [ucast w, ucast (drop_bit 8 w), ucast (drop_bit 16 w), ucast (drop_bit 24 w)]"

fun le_word :: "8 word list \<Rightarrow> 32 word" where
  "le_word [a, b, c, d] =
     ucast a OR push_bit 8 (ucast b) OR push_bit 16 (ucast c) OR push_bit 24 (ucast d)"
| "le_word _ = 0"

lemma le_word_bytes [simp]: "le_word (le_bytes w) = w"
proof (rule bit_word_eqI)
  fix n :: nat
  assume n: "n < LENGTH(32)"
  consider "n < 8" | "8 \<le> n" "n < 16" | "16 \<le> n" "n < 24" | "24 \<le> n" by linarith
  then show "bit (le_word (le_bytes w)) n = bit w n"
    by cases (use n in \<open>auto simp: le_bytes_def bit_simps\<close>)
qed

lemma length_le_bytes [simp]: "length (le_bytes w) = 4"
  by (simp add: le_bytes_def)

definition get_uint32 :: "nat \<Rightarrow> memory \<Rightarrow> 32 word option" where
  "get_uint32 a m = map_option le_word (load_bytes a 4 m)"

lemma get_uint32_bytes:
  "a + 4 \<le> mem_size m \<Longrightarrow>
   get_uint32 a m = Some (le_word [mem_byte m a, mem_byte m (a + 1), mem_byte m (a + 2), mem_byte m (a + 3)])"
  by (simp add: get_uint32_def load_bytes_def numeral_eq_Suc upt_rec)

definition set_uint32 :: "nat \<Rightarrow> 32 word \<Rightarrow> memory \<Rightarrow> memory option" where
  "set_uint32 a w m = store_bytes a (le_bytes w) m"

lemma set_uint32_size: "set_uint32 a w m = Some m' \<Longrightarrow> mem_size m' = mem_size m"
  by (simp add: set_uint32_def store_bytes_size)

lemma get_set_uint32: "set_uint32 a w m = Some m' \<Longrightarrow> get_uint32 a m' = Some w"
  using load_store_same [of a "le_bytes w" m m'] by (simp add: set_uint32_def get_uint32_def)

lemma get_set_uint32_apart:
  "set_uint32 a w m = Some m' \<Longrightarrow> b + 4 \<le> a \<or> a + 4 \<le> b \<Longrightarrow> get_uint32 b m' = get_uint32 b m"
  using load_store_apart [of a "le_bytes w" m m' b 4] by (simp add: set_uint32_def get_uint32_def)

section \<open>Doubles\<close>

text \<open>
  A double is its bit pattern, as the two words that \<open>setFloat64\<close> writes: the high word holds
  the sign, the exponent and the upper fraction bits.
\<close>

record double =
  hi_word :: "32 word"
  lo_word :: "32 word"

definition is_nan :: "double \<Rightarrow> bool" where
  "is_nan d \<longleftrightarrow>
     hi_word d AND 0x7FF00000 = 0x7FF00000 \<and> (hi_word d AND 0x000FFFFF \<noteq> 0 \<or> lo_word d \<noteq> 0)"

definition is_zero :: "double \<Rightarrow> bool" where
  "is_zero d \<longleftrightarrow> hi_word d AND 0x7FFFFFFF = 0 \<and> lo_word d = 0"

definition get_float64 :: "nat \<Rightarrow> memory \<Rightarrow> double option" where
  "get_float64 a m =
     (case (get_uint32 a m, get_uint32 (a + 4) m) of
        (Some l, Some h) \<Rightarrow> Some \<lparr>hi_word = h, lo_word = l\<rparr>
      | _ \<Rightarrow> None)"

definition set_words :: "nat \<Rightarrow> 32 word \<Rightarrow> 32 word \<Rightarrow> memory \<Rightarrow> memory option" where
  "set_words a h l m = Option.bind (set_uint32 (a + 4) h m) (set_uint32 a l)"

definition set_float64 :: "nat \<Rightarrow> double \<Rightarrow> memory \<Rightarrow> memory option" where
  "set_float64 a d m = set_words a (hi_word d) (lo_word d) m"

lemma get_set_words:
  assumes "set_words a h l m = Some m'"
  shows "get_uint32 a m' = Some l" and "get_uint32 (a + 4) m' = Some h"
  using assms
  by (auto simp: set_words_def bind_eq_Some_conv get_set_uint32 get_set_uint32_apart)

lemma get_float64_words:
  "set_words a h l m = Some m' \<Longrightarrow> get_float64 a m' = Some \<lparr>hi_word = h, lo_word = l\<rparr>"
  by (simp add: get_float64_def get_set_words)

lemma set_words_defined: "a + 8 \<le> mem_size m \<Longrightarrow> \<exists>m'. set_words a h l m = Some m'"
  by (auto simp: set_words_def bind_eq_Some_conv set_uint32_def store_bytes_def)

section \<open>Integers of 64 bits\<close>

text \<open>
  The number a double holds after an integer result is rounded to it: 53 significant bits,
  the nearest, a tie to the even one. \<open>excess_bits\<close> is how many low bits do not fit.
\<close>

fun excess_bits :: "nat \<Rightarrow> nat" where
  "excess_bits n = (if n < 9007199254740992 then 0 else Suc (excess_bits (n div 2)))"

declare excess_bits.simps [simp del]

definition round_nat :: "nat \<Rightarrow> nat" where
  "round_nat n =
     (let e = excess_bits n; q = n div 2 ^ e; r = n mod 2 ^ e in
      (if 2 ^ e < 2 * r \<or> (2 ^ e = 2 * r \<and> odd q) then q + 1 else q) * 2 ^ e)"

definition round_double :: "int \<Rightarrow> int" where
  "round_double i = sgn i * int (round_nat (nat \<bar>i\<bar>))"

text \<open>\<open>ToUint32\<close> of a number: truncated towards zero, then modulo \<open>2 ^ 32\<close>.\<close>

definition trunc_rat :: "rat \<Rightarrow> int" where
  "trunc_rat v = (if v < 0 then - \<lfloor>- v\<rfloor> else \<lfloor>v\<rfloor>)"

definition to_uint32 :: "rat \<Rightarrow> 32 word" where
  "to_uint32 v = word_of_int (trunc_rat v)"

definition set_int64 :: "nat \<Rightarrow> rat \<Rightarrow> memory \<Rightarrow> memory option" where
  "set_int64 a v m =
     Option.bind (set_uint32 (a + 0) (to_uint32 v) m)
       (set_uint32 (a + 4) (to_uint32 (of_int \<lfloor>v / 4294967296\<rfloor>)))"

definition set_int32 :: "nat \<Rightarrow> rat \<Rightarrow> memory \<Rightarrow> memory option" where
  "set_int32 a v m = set_uint32 (a + 0) (to_uint32 v) m"

definition get_int64 :: "nat \<Rightarrow> memory \<Rightarrow> int option" where
  "get_int64 a m =
     (case (get_uint32 (a + 0) m, get_uint32 (a + 4) m) of
        (Some low, Some high) \<Rightarrow> Some (round_double (uint low + sint high * 4294967296))
      | _ \<Rightarrow> None)"

lemma trunc_rat_of_int [simp]: "trunc_rat (of_int i) = i"
  by (simp add: trunc_rat_def flip: of_int_minus)

lemma excess_bits_small: "n < 2 ^ 53 \<Longrightarrow> excess_bits n = 0"
  by (subst excess_bits.simps) simp

lemma round_nat_exact: "n \<le> 2 ^ 53 \<Longrightarrow> round_nat n = n"
proof (cases "n = 2 ^ 53")
  case True
  have "excess_bits 9007199254740992 = 1"
    by (subst excess_bits.simps) (simp add: excess_bits_small)
  with True show ?thesis by (simp add: round_nat_def)
qed (simp add: round_nat_def excess_bits_small)

lemma round_double_exact: "\<bar>i\<bar> \<le> 2 ^ 53 \<Longrightarrow> round_double i = i"
  by (cases "i < 0") (auto simp: round_double_def round_nat_exact sgn_if)

lemma int64_parts:
  assumes "- (2 ^ 63) \<le> v" "v < 2 ^ 63"
  shows "uint (to_uint32 (of_int v)) + sint (to_uint32 (of_int \<lfloor>of_int v / 4294967296 :: rat\<rfloor>)) * 4294967296 = v"
proof -
  have d: "\<lfloor>of_int v / 4294967296 :: rat\<rfloor> = v div 4294967296"
    using floor_divide_of_int_eq [of v 4294967296, where 'a = rat] by simp
  have "- (2 ^ 31) \<le> v div 4294967296" "v div 4294967296 < 2 ^ 31"
    using assms by auto
  then have "sint (word_of_int (v div 4294967296) :: 32 word) = v div 4294967296"
    by (simp add: sint_sbintrunc' signed_take_bit_int_eq_self)
  moreover have "uint (word_of_int v :: 32 word) = v mod 4294967296"
    by (simp add: uint_word_of_int take_bit_eq_mod)
  ultimately show ?thesis by (simp add: to_uint32_def d)
qed

section \<open>Properties\<close>

text \<open>
  A 64-bit integer written by \<open>setInt64\<close> is read back by \<open>getInt64\<close> as its nearest
  double: exactly up to \<open>2 ^ 53\<close> in magnitude, negative numbers included, although the two halves
  are written separately; and nothing outside the eight bytes changes.
\<close>

theorem int64_roundtrip:
  assumes "set_int64 a (of_int v) m = Some m'" and "- (2 ^ 63) \<le> v" and "v < 2 ^ 63"
  shows "get_int64 a m' = Some (round_double v) \<and>
         (\<bar>v\<bar> \<le> 2 ^ 53 \<longrightarrow> get_int64 a m' = Some v) \<and>
         (\<forall>b. b + 4 \<le> a \<or> a + 8 \<le> b \<longrightarrow> get_uint32 b m' = get_uint32 b m)"
proof -
  from assms(1) obtain m1 where m1: "set_uint32 a (to_uint32 (of_int v)) m = Some m1"
    and m': "set_uint32 (a + 4) (to_uint32 (of_int \<lfloor>of_int v / 4294967296 :: rat\<rfloor>)) m1 = Some m'"
    by (auto simp: set_int64_def bind_eq_Some_conv)
  have "get_uint32 a m' = Some (to_uint32 (of_int v))"
    using get_set_uint32 [OF m1] get_set_uint32_apart [OF m', of a] by simp
  then have r: "get_int64 a m' = Some (round_double v)"
    using get_set_uint32 [OF m'] int64_parts [OF assms(2,3)] by (simp add: get_int64_def)
  then show ?thesis
    using get_set_uint32_apart [OF m1] get_set_uint32_apart [OF m'] by (simp add: round_double_exact)
qed

definition demo_memory :: memory where
  "demo_memory = \<lparr>mem_size = 64, mem_byte = (\<lambda>_. 0)\<rparr>"

theorem int64_roundtrip_witness:
  "\<exists>m'. set_int64 8 (of_int (- 5)) demo_memory = Some m' \<and> get_int64 8 m' = Some (- 5)"
proof -
  obtain m' where m': "set_int64 8 (of_int (- 5)) demo_memory = Some m'"
    by (simp add: set_int64_def set_uint32_def store_bytes_def demo_memory_def bind_eq_Some_conv)
  have "get_int64 8 m' = Some (- 5)"
    by (rule int64_roundtrip [OF m', THEN conjunct2, THEN conjunct1, rule_format]) simp_all
  with m' show ?thesis by blast
qed

end
