(* ===== verification/GoRefs.thy ===== *)
theory GoRefs
  imports GoMem
begin

unbundle bit_operations_syntax

text \<open>
  The table of JavaScript values that a Go program refers to (docs/wasm_exec.js): a reference is
  eight bytes of linear memory, either a double that stands for itself or a NaN whose low word
  is an index into \<open>_values\<close>. \<open>storeValue\<close> takes a reference, \<open>finalizeRef\<close> gives it back, and
  \<open>loadValue\<close> follows it.
\<close>

section \<open>Values\<close>

text \<open>
  Objects, functions and symbols are identities. A number is its bit pattern. A \<open>Map\<close> compares
  its keys up to the sign of zero and the payload of NaN, which \<open>map_key\<close> normalises.
\<close>

datatype jsval =
  Undef | JNull | JBool bool | JNumber double | JString jsstr | JSymbol nat | JObject nat
| JFunction nat | JBigInt int

definition zero_double :: double where
  "zero_double = \<lparr>hi_word = 0, lo_word = 0\<rparr>"

definition nan_double :: double where
  "nan_double = \<lparr>hi_word = 0x7FF80000, lo_word = 0\<rparr>"

definition map_key :: "jsval \<Rightarrow> jsval" where
  "map_key v =
     (case v of
        JNumber d \<Rightarrow>
          if is_zero d then JNumber zero_double else if is_nan d then JNumber nan_double else v
      | _ \<Rightarrow> v)"

text \<open>
  An entry of \<open>_goRefCounts\<close>: \<open>Infinity\<close>, a number, or the NaN that decrementing an entry that is
  not there leaves.
\<close>

datatype count = Forever | Count int | CountNaN

text \<open>
  \<open>_values\<close> is an array with its length; reading where there is no element is \<open>undefined\<close>.
\<close>

record refs =
  vals :: "nat \<rightharpoonup> jsval"
  vals_len :: nat
  ref_counts :: "nat \<rightharpoonup> count"
  ids :: "jsval \<rightharpoonup> nat"
  id_pool :: "nat list"
  mem :: memory

definition value_at :: "nat \<Rightarrow> refs \<Rightarrow> jsval" where
  "value_at i s = (case vals s i of None \<Rightarrow> Undef | Some v \<Rightarrow> v)"

definition set_value :: "nat \<Rightarrow> jsval \<Rightarrow> refs \<Rightarrow> refs" where
  "set_value i v s = s\<lparr>vals := (vals s)(i \<mapsto> v), vals_len := max (vals_len s) (Suc i)\<rparr>"

definition add_count :: "int \<Rightarrow> nat \<Rightarrow> refs \<Rightarrow> refs" where
  "add_count k i s = s\<lparr>ref_counts := (ref_counts s)(i \<mapsto>
     (case ref_counts s i of
        Some Forever \<Rightarrow> Forever
      | Some (Count n) \<Rightarrow> Count (n + k)
      | _ \<Rightarrow> CountNaN))\<rparr>"

definition js_global :: jsval where "js_global = JObject 0"

definition js_go :: jsval where "js_go = JObject 1"

definition first_values :: "jsval list" where
  "first_values =
     [JNumber nan_double, JNumber zero_double, JNull, JBool True, JBool False, js_global, js_go]"

definition fixed_ids :: "jsval \<rightharpoonup> nat" where
  "fixed_ids = [JNumber zero_double \<mapsto> 1, JNull \<mapsto> 2, JBool True \<mapsto> 3, JBool False \<mapsto> 4,
                js_global \<mapsto> 5, js_go \<mapsto> 6]"

definition run_tables :: "memory \<Rightarrow> refs" where
  "run_tables m =
     \<lparr>vals = (\<lambda>i. if i < 7 then Some (first_values ! i) else None), vals_len = 7,
      ref_counts = (\<lambda>i. if i < 7 then Some Forever else None), ids = fixed_ids, id_pool = [],
      mem = m\<rparr>"

section \<open>The operations\<close>

definition load_value :: "nat \<Rightarrow> refs \<Rightarrow> jsval option" where
  "load_value a s =
     (case get_float64 a (mem s) of
        None \<Rightarrow> None
      | Some f \<Rightarrow>
          if is_zero f then Some Undef
          else if \<not> is_nan f then Some (JNumber f)
          else map_option (\<lambda>w. value_at (unat w) s) (get_uint32 a (mem s)))"

text \<open>A write that throws leaves the state as it was before it: the first component is \<open>False\<close>.\<close>

definition writing :: "(memory \<Rightarrow> memory option) \<Rightarrow> refs \<Rightarrow> bool \<times> refs" where
  "writing f s = (case f (mem s) of None \<Rightarrow> (False, s) | Some m \<Rightarrow> (True, s\<lparr>mem := m\<rparr>))"

definition and_then :: "bool \<times> refs \<Rightarrow> (refs \<Rightarrow> bool \<times> refs) \<Rightarrow> bool \<times> refs" where
  "and_then r f = (if fst r then f (snd r) else r)"

definition type_flag :: "jsval \<Rightarrow> 32 word" where
  "type_flag v =
     (case v of JObject _ \<Rightarrow> 1 | JString _ \<Rightarrow> 2 | JSymbol _ \<Rightarrow> 3 | JFunction _ \<Rightarrow> 4 | _ \<Rightarrow> 0)"

text \<open>The identifier of a value: the one it has, or the last one freed, or the next new one.\<close>

definition intern :: "jsval \<Rightarrow> refs \<Rightarrow> nat \<times> refs" where
  "intern v s =
     (case ids s (map_key v) of
        Some i \<Rightarrow> (i, s)
      | None \<Rightarrow>
          (let (i, s1) = (if id_pool s = [] then (vals_len s, s)
                          else (last (id_pool s), s\<lparr>id_pool := butlast (id_pool s)\<rparr>));
               s2 = set_value i v s1;
               s3 = s2\<lparr>ref_counts := (ref_counts s2)(i \<mapsto> Count 0)\<rparr>
           in (i, s3\<lparr>ids := (ids s3)(map_key v \<mapsto> i)\<rparr>)))"

definition by_itself :: "jsval \<Rightarrow> double option" where
  "by_itself v = (case v of JNumber d \<Rightarrow> if is_zero d then None else Some d | _ \<Rightarrow> None)"

definition store_value :: "nat \<Rightarrow> jsval \<Rightarrow> refs \<Rightarrow> bool \<times> refs" where
  "store_value a v s =
     (case by_itself v of
        Some d \<Rightarrow>
          if is_nan d
          then and_then (writing (set_uint32 (a + 4) 0x7FF80000) s) (writing (set_uint32 a 0))
          else writing (set_float64 a d) s
      | None \<Rightarrow>
          if v = Undef then writing (set_float64 a zero_double) s
          else (let (i, s1) = intern v s; s2 = add_count 1 i s1 in
                and_then (writing (set_uint32 (a + 4) (0x7FF80000 OR type_flag v)) s2)
                  (writing (set_uint32 a (word_of_nat i)))))"

definition release :: "nat \<Rightarrow> refs \<Rightarrow> refs" where
  "release i s =
     (let s1 = add_count (- 1) i s in
      if ref_counts s1 i = Some (Count 0)
      then (let v = value_at i s1; s2 = set_value i JNull s1 in
            s2\<lparr>ids := (ids s2)(map_key v := None), id_pool := id_pool s2 @ [i]\<rparr>)
      else s1)"

definition finalize_ref :: "nat \<Rightarrow> refs \<Rightarrow> bool \<times> refs" where
  "finalize_ref sp s =
     (case get_uint32 (sp + 8) (mem s) of
        None \<Rightarrow> (False, s)
      | Some w \<Rightarrow> (True, release (unat w) s))"

section \<open>The references that Go holds\<close>

text \<open>
  What the Go side owes and is owed is a ghost list: one pair (identifier, value) for every
  reference that was stored in the table and not given back. \<open>GoWrites\<close> is the Go program
  changing its own memory, in any way.
\<close>

record go_world =
  tab :: refs
  held :: "(nat \<times> jsval) list"

datatype ref_event = TakeRef nat jsval | GiveBack nat | GoWrites memory

definition tabled :: "jsval \<Rightarrow> bool" where
  "tabled v \<longleftrightarrow> by_itself v = None \<and> v \<noteq> Undef"

fun drop_first :: "nat \<Rightarrow> (nat \<times> jsval) list \<Rightarrow> (nat \<times> jsval) list" where
  "drop_first i [] = []"
| "drop_first i (p # ps) = (if fst p = i then ps else p # drop_first i ps)"

fun ref_step :: "go_world \<Rightarrow> ref_event \<Rightarrow> go_world" where
  "ref_step w (TakeRef a v) =
     (let (fine, s) = store_value a v (tab w) in
      w\<lparr>tab := s, held := (if fine \<and> tabled v then (fst (intern v (tab w)), v) # held w else held w)\<rparr>)"
| "ref_step w (GiveBack sp) =
     w\<lparr>tab := snd (finalize_ref sp (tab w)),
       held := (case get_uint32 (sp + 8) (mem (tab w)) of
                  None \<Rightarrow> held w | Some i \<Rightarrow> drop_first (unat i) (held w))\<rparr>"
| "ref_step w (GoWrites m) = w\<lparr>tab := (tab w)\<lparr>mem := m\<rparr>\<rparr>"

text \<open>
  What Go guarantees: it stores a reference inside its memory, and gives back what it holds. A
  JavaScript array has at most \<open>2 ^ 32 - 1\<close> elements.
\<close>

fun ref_ok :: "go_world \<Rightarrow> ref_event \<Rightarrow> bool" where
  "ref_ok w (TakeRef a v) \<longleftrightarrow> a + 8 \<le> mem_size (mem (tab w)) \<and> vals_len (tab w) < 4294967295"
| "ref_ok w (GiveBack sp) \<longleftrightarrow>
     (case get_uint32 (sp + 8) (mem (tab w)) of None \<Rightarrow> False | Some i \<Rightarrow> unat i \<in> fst ` set (held w))"
| "ref_ok w (GoWrites m) \<longleftrightarrow> True"

definition uses :: "(nat \<times> jsval) list \<Rightarrow> nat \<Rightarrow> nat" where
  "uses h i = length (filter (\<lambda>p. fst p = i) h)"

lemma uses_Nil [simp]: "uses [] i = 0"
  by (simp add: uses_def)

lemma uses_Cons [simp]: "uses (p # h) i = (if fst p = i then Suc (uses h i) else uses h i)"
  by (simp add: uses_def)

lemma uses_zero: "uses h i = 0 \<longleftrightarrow> i \<notin> fst ` set h"
  by (induction h) auto

lemma uses_drop_first: "uses (drop_first i h) j = (if i = j then uses h j - 1 else uses h j)"
  by (induction h) auto

lemma set_drop_first: "set (drop_first i h) \<subseteq> set h"
  by (induction h) auto

section \<open>The invariant of the table\<close>

definition counts_right :: "refs \<Rightarrow> (nat \<times> jsval) list \<Rightarrow> bool" where
  "counts_right s h \<longleftrightarrow> 7 \<le> vals_len s \<and>
     (\<forall>i < vals_len s. ref_counts s i = Some (if i < 7 then Forever else Count (int (uses h i))))"

definition fixed_part :: "refs \<Rightarrow> bool" where
  "fixed_part s \<longleftrightarrow> (\<forall>i < 7. vals s i = Some (first_values ! i)) \<and> (\<forall>k \<in> dom fixed_ids. ids s k = fixed_ids k)"

definition held_right :: "refs \<Rightarrow> (nat \<times> jsval) list \<Rightarrow> bool" where
  "held_right s h \<longleftrightarrow> (\<forall>(i, v) \<in> set h. tabled v \<and> i < vals_len s \<and>
     vals s i = Some (map_key v) \<and> ids s (map_key v) = Some i)"

definition ids_right :: "refs \<Rightarrow> (nat \<times> jsval) list \<Rightarrow> bool" where
  "ids_right s h \<longleftrightarrow> (\<forall>k i. ids s k = Some i \<longrightarrow> i < vals_len s \<and> vals s i = Some k \<and>
     map_key k = k \<and> (7 \<le> i \<longrightarrow> 0 < uses h i))"

definition pool_right :: "refs \<Rightarrow> (nat \<times> jsval) list \<Rightarrow> bool" where
  "pool_right s h \<longleftrightarrow> distinct (id_pool s) \<and>
     set (id_pool s) = {i. 7 \<le> i \<and> i < vals_len s \<and> uses h i = 0} \<and>
     (\<forall>i \<in> set (id_pool s). vals s i = Some JNull)"

definition table_ok :: "refs \<Rightarrow> (nat \<times> jsval) list \<Rightarrow> bool" where
  "table_ok s h \<longleftrightarrow> counts_right s h \<and> fixed_part s \<and> held_right s h \<and> ids_right s h \<and> pool_right s h"

lemmas table_defs = table_ok_def counts_right_def fixed_part_def held_right_def ids_right_def pool_right_def

lemma held_D:
  "table_ok s h \<Longrightarrow> (i, v) \<in> set h \<Longrightarrow>
   tabled v \<and> i < vals_len s \<and> vals s i = Some (map_key v) \<and> ids s (map_key v) = Some i"
  by (auto simp: table_ok_def held_right_def)

lemma ids_D:
  "table_ok s h \<Longrightarrow> ids s k = Some i \<Longrightarrow>
   i < vals_len s \<and> vals s i = Some k \<and> map_key k = k \<and> (7 \<le> i \<longrightarrow> 0 < uses h i)"
  by (simp add: table_ok_def ids_right_def)

lemma count_D:
  "table_ok s h \<Longrightarrow> i < vals_len s \<Longrightarrow>
   ref_counts s i = Some (if i < 7 then Forever else Count (int (uses h i)))"
  by (simp add: table_ok_def counts_right_def)

lemma table_ok_mem [simp]: "table_ok (s\<lparr>mem := m\<rparr>) h = table_ok s h"
  by (simp add: table_defs)

lemma table_ok_run_tables: "table_ok (run_tables m) []"
  by (auto simp: table_defs run_tables_def fixed_ids_def first_values_def map_key_def
      js_global_def js_go_def zero_double_def is_zero_def split: if_splits)

lemma fixed_ids_zero: "fixed_ids (JNumber zero_double) = Some 1"
  by (simp add: fixed_ids_def js_global_def js_go_def)

lemma tabled_key: "tabled v \<Longrightarrow> map_key v = JNumber zero_double \<or> map_key v = v"
  by (auto simp: tabled_def by_itself_def map_key_def split: jsval.splits if_splits)

lemma fresh_key: "fixed_part s \<Longrightarrow> tabled v \<Longrightarrow> ids s (map_key v) = None \<Longrightarrow> map_key v = v"
  using tabled_key [of v] fixed_ids_zero by (auto simp: fixed_part_def dom_def)

lemma table_ok_intern_old:
  assumes "table_ok s h" "tabled v" "ids s (map_key v) = Some i"
  shows "table_ok (add_count 1 i s) ((i, v) # h)"
  using assms ids_right_def [of s h] by (fastforce simp: table_defs add_count_def)

text \<open>The identifier that a new value gets is nobody's: past the end, or in the pool.\<close>

definition fresh_id :: "refs \<Rightarrow> nat" where
  "fresh_id s = (if id_pool s = [] then vals_len s else last (id_pool s))"

lemma fresh_id_unused:
  assumes "table_ok s h"
  shows "7 \<le> fresh_id s" "uses h (fresh_id s) = 0" "k \<notin> dom (ids s) \<or> ids s k \<noteq> Some (fresh_id s)"
proof -
  have "uses h (vals_len s) = 0"
    using assms by (force simp: table_defs uses_zero)
  then show "7 \<le> fresh_id s" and u: "uses h (fresh_id s) = 0"
    using assms last_in_set [of "id_pool s"] by (auto simp: table_defs fresh_id_def)
  show "k \<notin> dom (ids s) \<or> ids s k \<noteq> Some (fresh_id s)"
    using assms u \<open>7 \<le> fresh_id s\<close> by (metis ids_right_def less_irrefl table_ok_def)
qed

lemma intern_new:
  assumes "ids s (map_key v) = None"
  shows "intern v s = (fresh_id s,
    s\<lparr>vals := (vals s)(fresh_id s \<mapsto> v), vals_len := max (vals_len s) (Suc (fresh_id s)),
      ref_counts := (ref_counts s)(fresh_id s \<mapsto> Count 0), ids := (ids s)(map_key v \<mapsto> fresh_id s),
      id_pool := butlast (id_pool s)\<rparr>)"
  using assms by (simp add: intern_def fresh_id_def set_value_def)

lemma table_ok_intern_new:
  assumes ok: "table_ok s h" and v: "tabled v" "ids s (map_key v) = None"
  shows "table_ok (add_count 1 (fresh_id s) (snd (intern v s))) ((fresh_id s, v) # h)"
proof -
  let ?i = "fresh_id s" and ?t = "add_count 1 (fresh_id s) (snd (intern v s))"
  let ?h = "(fresh_id s, v) # h"
  note new = fresh_id_unused [OF ok]
  have key: "map_key v = v"
    using ok v fresh_key [of s v] by (simp add: table_ok_def)
  have not_held: "?i \<notin> fst ` set h"
    using new(2) by (simp add: uses_zero)
  have i: "?i \<le> vals_len s"
    using ok last_in_set [of "id_pool s"] by (auto simp: fresh_id_def table_defs less_imp_le)
  note unfold = intern_new [OF v(2)] add_count_def
  have "counts_right ?t ?h"
    using ok new i by (auto simp: table_defs unfold less_max_iff_disj less_Suc_eq)
  moreover have "fixed_part ?t"
  proof -
    have "map_key v \<notin> dom fixed_ids"
      using ok v(2) by (metis domIff fixed_part_def table_ok_def)
    then show ?thesis
      using ok new(1) by (auto simp: table_defs unfold)
  qed
  moreover have "held_right ?t ?h"
    unfolding held_right_def
  proof (clarify)
    fix j u assume ju: "(j, u) \<in> set ?h"
    show "tabled u \<and> j < vals_len ?t \<and> vals ?t j = Some (map_key u) \<and> ids ?t (map_key u) = Some j"
    proof (cases "(j, u) \<in> set h")
      case True
      then have "j \<noteq> ?i" "map_key u \<noteq> map_key v"
        using not_held held_D [OF ok True] v(2) by force+
      with held_D [OF ok True] show ?thesis by (auto simp: unfold)
    next
      case False
      with ju v(1) show ?thesis by (auto simp: unfold key)
    qed
  qed
  moreover have "ids_right ?t ?h"
    using ok new i by (fastforce simp: table_defs unfold key)
  moreover have "pool_right ?t ?h"
  proof (cases "id_pool s = []")
    case True
    then show ?thesis using ok by (auto simp: table_defs unfold fresh_id_def)
  next
    case False
    then obtain p where p: "id_pool s = p @ [?i]"
      by (metis append_butlast_last_id fresh_id_def)
    have pool: "pool_right s h"
      using ok by (simp add: table_ok_def)
    with p have "?i < vals_len s" by (auto simp: pool_right_def)
    then have t: "vals_len ?t = vals_len s" "id_pool ?t = p" "vals ?t = (vals s)(?i \<mapsto> v)"
      using p by (auto simp: unfold max_def)
    from pool p have "distinct p" "?i \<notin> set p" by (auto simp: pool_right_def)
    moreover from pool p have "set p = {i. 7 \<le> i \<and> i < vals_len s \<and> uses h i = 0} - {?i}"
      by (auto simp: pool_right_def)
    moreover have "\<forall>i \<in> set p. vals s i = Some JNull"
      using pool p by (simp add: pool_right_def)
    ultimately show ?thesis
      by (auto simp: pool_right_def t)
  qed
  ultimately show ?thesis by (simp add: table_ok_def)
qed

lemma table_ok_intern:
  assumes "table_ok s h" "tabled v"
  shows "table_ok (add_count 1 (fst (intern v s)) (snd (intern v s))) ((fst (intern v s), v) # h)"
proof (cases "ids s (map_key v)")
  case None
  with table_ok_intern_new [OF assms] show ?thesis by (simp add: intern_new)
next
  case (Some i)
  with table_ok_intern_old [OF assms Some] show ?thesis by (simp add: intern_def)
qed

lemma release_kept:
  assumes "table_ok s h" "i < 7 \<or> 1 < uses h i" "i \<in> fst ` set h"
  shows "release i s = add_count (- 1) i s"
proof -
  have "i < vals_len s"
    using held_D [OF assms(1)] assms(3) by force
  from count_D [OF assms(1) this] assms(2) show ?thesis
    by (auto simp: release_def add_count_def Let_def)
qed

lemma table_ok_release_kept:
  assumes "table_ok s h" "i < 7 \<or> 1 < uses h i" "i \<in> fst ` set h"
  shows "table_ok (release i s) (drop_first i h)"
proof -
  have "i < vals_len s" "0 < uses h i"
    using assms uses_zero [of h i] by (auto simp: table_defs)
  moreover have "\<forall>p \<in> set (drop_first i h). p \<in> set h"
    using set_drop_first by blast
  ultimately show ?thesis
    unfolding release_kept [OF assms]
    using assms(1,2) by (auto simp: table_defs add_count_def uses_drop_first)
qed

lemma release_last:
  assumes "table_ok s h" "7 \<le> i" "uses h i = 1" "(i, v) \<in> set h"
  shows "release i s =
    s\<lparr>vals := (vals s)(i \<mapsto> JNull), ref_counts := (ref_counts s)(i \<mapsto> Count 0),
      ids := (ids s)(map_key v := None), id_pool := id_pool s @ [i]\<rparr>"
proof -
  have i: "i < vals_len s" "vals s i = Some (map_key v)" "ids s (map_key v) = Some i"
    using held_D [OF assms(1,4)] by auto
  then have "map_key (map_key v) = map_key v" "max (vals_len s) (Suc i) = vals_len s"
    using ids_D [OF assms(1) i(3)] by auto
  with i(2) count_D [OF assms(1) i(1)] assms(2,3) show ?thesis
    by (simp add: release_def add_count_def set_value_def value_at_def)
qed

lemma uses_one_unique: "uses h i = 1 \<Longrightarrow> (j, u) \<in> set (drop_first i h) \<Longrightarrow> j \<noteq> i"
  by (metis One_nat_def diff_self_eq_0 fst_conv image_eqI uses_drop_first uses_zero)

lemma table_ok_release_last:
  assumes ok: "table_ok s h" and i: "7 \<le> i" "uses h i = 1" "(i, v) \<in> set h"
  shows "table_ok (release i s) (drop_first i h)"
proof -
  let ?t = "release i s" and ?h = "drop_first i h"
  note unfold = release_last [OF ok i]
  have own: "i < vals_len s" "vals s i = Some (map_key v)" "ids s (map_key v) = Some i"
    using held_D [OF ok i(3)] by auto
  have sub: "\<forall>p \<in> set ?h. p \<in> set h"
    using set_drop_first by blast
  have only: "k = map_key v" if "ids s k = Some i" for k
    using own(2) ids_D [OF ok that] by simp
  have "counts_right ?t ?h"
    using ok i by (auto simp: table_defs unfold uses_drop_first)
  moreover have "fixed_part ?t"
  proof -
    have "fixed_ids k \<noteq> Some i" for k
      using i(1) by (auto simp: fixed_ids_def)
    then have "map_key v \<notin> dom fixed_ids"
      using ok own(3) by (metis domIff fixed_part_def option.exhaust_sel domI table_ok_def)
    then show ?thesis using ok i(1) by (auto simp: table_defs unfold)
  qed
  moreover have "held_right ?t ?h"
    unfolding held_right_def
  proof (clarify, intro conjI)
    fix j u assume ju: "(j, u) \<in> set ?h"
    then have j: "j \<noteq> i" "tabled u" "j < vals_len s" "vals s j = Some (map_key u)" "ids s (map_key u) = Some j"
      using ok sub uses_one_unique [OF i(2)] by (auto simp: table_ok_def held_right_def)
    with own show "tabled u" "j < vals_len ?t" "vals ?t j = Some (map_key u)" "ids ?t (map_key u) = Some j"
      by (auto simp: unfold)
  qed
  moreover have "ids_right ?t ?h"
    using ok only by (auto simp: table_defs unfold uses_drop_first)
  moreover have "pool_right ?t ?h"
    using ok i own(1) by (auto simp: table_defs unfold uses_drop_first)
  ultimately show ?thesis by (simp add: table_ok_def)
qed

lemma table_ok_release:
  assumes "table_ok s h" "i \<in> fst ` set h"
  shows "table_ok (release i s) (drop_first i h)"
proof (cases "i < 7 \<or> 1 < uses h i")
  case True
  then show ?thesis by (rule table_ok_release_kept [OF assms(1) _ assms(2)])
next
  case False
  with assms(2) have "7 \<le> i" "uses h i = 1"
    using uses_zero [of h i] by auto
  with assms table_ok_release_last show ?thesis by fastforce
qed

section \<open>Steps\<close>

lemma write_pair_fine:
  assumes "a + 8 \<le> mem_size (mem s)"
  shows "\<exists>m. and_then (writing (set_uint32 (a + 4) h) s) (writing (set_uint32 a l)) = (True, s\<lparr>mem := m\<rparr>)
    \<and> set_words a h l (mem s) = Some m"
proof -
  obtain m m1 where m: "set_words a h l (mem s) = Some m"
    and m1: "set_uint32 (a + 4) h (mem s) = Some m1" "set_uint32 a l m1 = Some m"
    using set_words_defined [OF assms, of h l] by (auto simp: set_words_def bind_eq_Some_conv)
  then have "and_then (writing (set_uint32 (a + 4) h) s) (writing (set_uint32 a l)) = (True, s\<lparr>mem := m\<rparr>)"
    by (simp add: and_then_def writing_def)
  with m show ?thesis by blast
qed

lemma mem_add_count [simp]: "mem (add_count k i s) = mem s" "vals (add_count k i s) = vals s"
  "ids (add_count k i s) = ids s" "vals_len (add_count k i s) = vals_len s"
  by (simp_all add: add_count_def)

lemma mem_intern [simp]: "mem (snd (intern v s)) = mem s"
  by (simp add: intern_def set_value_def Let_def split: option.split)

lemma store_tabled:
  assumes "a + 8 \<le> mem_size (mem s)" "tabled v"
  obtains m where "store_value a v s = (True, (add_count 1 (fst (intern v s)) (snd (intern v s)))\<lparr>mem := m\<rparr>)"
    "set_words a (0x7FF80000 OR type_flag v) (word_of_nat (fst (intern v s))) (mem s) = Some m"
  using write_pair_fine [of a "add_count 1 (fst (intern v s)) (snd (intern v s))"
      "0x7FF80000 OR type_flag v" "word_of_nat (fst (intern v s))"] assms
  by (auto simp: store_value_def tabled_def Let_def case_prod_beta)

definition plain_double :: "jsval \<Rightarrow> double" where
  "plain_double v =
     (case by_itself v of Some d \<Rightarrow> if is_nan d then nan_double else d | None \<Rightarrow> zero_double)"

lemma store_direct:
  assumes "a + 8 \<le> mem_size (mem s)" "\<not> tabled v"
  obtains m where "store_value a v s = (True, s\<lparr>mem := m\<rparr>)"
    "set_words a (hi_word (plain_double v)) (lo_word (plain_double v)) (mem s) = Some m"
proof -
  let ?h = "hi_word (plain_double v)" and ?l = "lo_word (plain_double v)"
  obtain m where m: "set_words a ?h ?l (mem s) = Some m"
    using set_words_defined [OF assms(1)] by blast
  have "store_value a v s = (True, s\<lparr>mem := m\<rparr>)"
  proof (cases "\<exists>d. by_itself v = Some d \<and> is_nan d")
    case True
    then show ?thesis
      using write_pair_fine [OF assms(1), of ?h ?l] m
      by (auto simp: store_value_def plain_double_def nan_double_def)
  next
    case False
    then show ?thesis
      using assms(2) m
      by (auto simp: store_value_def plain_double_def set_float64_def writing_def tabled_def split: option.splits)
  qed
  with m that show thesis by blast
qed

definition world_ok :: "go_world \<Rightarrow> bool" where
  "world_ok w \<longleftrightarrow> table_ok (tab w) (held w)"

lemma world_ok_step:
  assumes "world_ok w" "ref_ok w e"
  shows "world_ok (ref_step w e)"
proof (cases e)
  case (TakeRef a v)
  with assms(2) have room: "a + 8 \<le> mem_size (mem (tab w))" by simp
  show ?thesis
  proof (cases "tabled v")
    case True
    from store_tabled [OF room True] obtain m where
      "store_value a v (tab w) =
         (True, (add_count 1 (fst (intern v (tab w))) (snd (intern v (tab w))))\<lparr>mem := m\<rparr>)" .
    with True TakeRef table_ok_intern [OF assms(1)[unfolded world_ok_def] True] show ?thesis
      by (simp add: world_ok_def)
  next
    case False
    from store_direct [OF room False] obtain m where "store_value a v (tab w) = (True, (tab w)\<lparr>mem := m\<rparr>)" .
    with False TakeRef assms(1) show ?thesis by (simp add: world_ok_def)
  qed
next
  case (GiveBack sp)
  with assms show ?thesis
    by (auto simp: world_ok_def finalize_ref_def table_ok_release split: option.splits)
next
  case (GoWrites m)
  with assms show ?thesis by (simp add: world_ok_def)
qed

interpretation goref: guarded_machine ref_step ref_ok world_ok
  by unfold_locales (rule world_ok_step)

definition boot_world :: "memory \<Rightarrow> go_world" where
  "boot_world m = \<lparr>tab = run_tables m, held = []\<rparr>"

lemma world_ok_run: "allowed ref_step ref_ok (boot_world m) es \<Longrightarrow> world_ok (foldl ref_step (boot_world m) es)"
  by (rule goref.run_inv) (simp_all add: world_ok_def boot_world_def table_ok_run_tables)

lemma value_at_mem [simp]: "value_at i (s\<lparr>mem := m\<rparr>) = value_at i s" "value_at i (add_count k j s) = value_at i s"
  by (simp_all add: value_at_def)

lemma load_nan_form:
  assumes "set_words a (0x7FF80000 OR type_flag v) l (mem s) = Some m"
  shows "load_value a (s\<lparr>mem := m\<rparr>) = Some (value_at (unat l) s)"
proof -
  have "(0x7FF80000 OR type_flag v) AND 0x7FFFFFFF \<noteq> 0"
    "(0x7FF80000 OR type_flag v) AND 0x7FF00000 = 0x7FF00000"
    "(0x7FF80000 OR type_flag v) AND 0x000FFFFF \<noteq> 0"
    by (simp_all add: type_flag_def split: jsval.split)
  with get_set_words [OF assms] get_float64_words [OF assms] show ?thesis
    by (simp add: load_value_def is_zero_def is_nan_def)
qed

lemma held_taken:
  assumes "a + 8 \<le> mem_size (mem (tab w))" "tabled v"
  shows "held (ref_step w (TakeRef a v)) = (fst (intern v (tab w)), v) # held w"
proof -
  from store_tabled [OF assms] obtain m where
    "store_value a v (tab w) = (True, (add_count 1 (fst (intern v (tab w))) (snd (intern v (tab w))))\<lparr>mem := m\<rparr>)" .
  with assms(2) show ?thesis by simp
qed

lemma load_taken:
  assumes "world_ok w" "ref_ok w (TakeRef a v)" "tabled v"
  shows "load_value a (tab (ref_step w (TakeRef a v))) = Some (map_key v)"
proof -
  let ?w = "ref_step w (TakeRef a v)" and ?i = "fst (intern v (tab w))"
  have room: "a + 8 \<le> mem_size (mem (tab w))" "vals_len (tab w) < 4294967295"
    using assms(2) by auto
  from store_tabled [OF room(1) assms(3)] obtain m where
    st: "store_value a v (tab w) = (True, (add_count 1 ?i (snd (intern v (tab w))))\<lparr>mem := m\<rparr>)" and
    m: "set_words a (0x7FF80000 OR type_flag v) (word_of_nat ?i) (mem (tab w)) = Some m" .
  then have "table_ok (tab ?w) ((?i, v) # held w)"
    using world_ok_step [OF assms(1,2)] assms(3) by (simp add: world_ok_def)
  from held_D [OF this, of ?i v] have "value_at ?i (tab ?w) = map_key v" "?i < vals_len (tab ?w)"
    by (simp_all add: value_at_def del: ref_step.simps)
  moreover have "vals_len (tab ?w) \<le> 4294967295"
  proof -
    have "vals_len (snd (intern v (tab w))) \<le> Suc (vals_len (tab w))"
    proof (cases "ids (tab w) (map_key v)")
      case None
      have "fresh_id (tab w) \<le> vals_len (tab w)"
        using assms(1) last_in_set [of "id_pool (tab w)"]
        by (auto simp: fresh_id_def world_ok_def table_ok_def pool_right_def less_imp_le)
      with None show ?thesis by (simp add: intern_new)
    qed (simp add: intern_def)
    with room st show ?thesis by simp
  qed
  ultimately show ?thesis
    using load_nan_form [of a v "word_of_nat ?i" "add_count 1 ?i (snd (intern v (tab w)))" m] m st
    by (simp add: unsigned_of_nat take_bit_nat_eq_self)
qed

lemma load_plain:
  assumes "world_ok w" "ref_ok w (TakeRef a v)" "\<not> tabled v"
  shows "load_value a (tab (ref_step w (TakeRef a v))) = Some (map_key v)"
proof -
  have "a + 8 \<le> mem_size (mem (tab w))"
    using assms(2) by simp
  from store_direct [OF this assms(3)] obtain m where
    st: "store_value a v (tab w) = (True, (tab w)\<lparr>mem := m\<rparr>)" and
    m: "set_words a (hi_word (plain_double v)) (lo_word (plain_double v)) (mem (tab w)) = Some m" .
  have g: "get_float64 a m = Some (plain_double v)" "get_uint32 a m = Some (lo_word (plain_double v))"
    using get_float64_words [OF m] get_set_words [OF m] by simp_all
  have "vals (tab w) 0 = Some (JNumber nan_double)"
    using assms(1) by (simp add: world_ok_def table_ok_def fixed_part_def first_values_def)
  moreover have "is_zero zero_double" "is_nan nan_double" "\<not> is_zero nan_double" "lo_word nan_double = 0"
    by (simp_all add: is_zero_def is_nan_def zero_double_def nan_double_def)
  ultimately show ?thesis
    using assms(3) st g
    by (auto simp: load_value_def plain_double_def tabled_def by_itself_def map_key_def value_at_def
        split: jsval.splits if_splits)
qed

section \<open>Properties\<close>

text \<open>
  C18: a value stored for Go is the value Go's reference loads, whatever was stored and given
  back before: numbers bit for bit except that every NaN becomes the canonical one and minus zero
  becomes zero; undefined, zero and the values of the table through their identifiers.
\<close>

theorem reference_roundtrip:
  assumes "allowed ref_step ref_ok (boot_world m) (es @ [TakeRef a v])"
  shows "load_value a (tab (foldl ref_step (boot_world m) (es @ [TakeRef a v]))) = Some (map_key v)"
proof -
  let ?w = "foldl ref_step (boot_world m) es"
  have "world_ok ?w" "ref_ok ?w (TakeRef a v)"
    using assms world_ok_run by (auto simp: allowed_append)
  then show ?thesis
    using load_taken load_plain by (cases "tabled v") auto
qed

theorem reference_roundtrip_witness:
  "load_value 8 (tab (ref_step (boot_world demo_memory) (TakeRef 8 (JString (lit ''key''))))) =
     Some (JString (lit ''key''))"
  using reference_roundtrip [of demo_memory "[]" 8 "JString (lit ''key'')"]
  by (simp add: boot_world_def run_tables_def demo_memory_def map_key_def)

text \<open>
  C19: the table is exactly what Go holds. No reference dangles and none is confused with another:
  as long as Go has not given a reference back, its entry holds the value it was taken for, and two
  held references have one identifier exactly when they are the same value. Nothing leaks: a value
  has an identifier only while it is one of the six fixed ones or held, its count is the number of
  references Go holds, and an identifier of no held reference has dropped its value and waits in the
  pool to be used again.
\<close>

theorem table_is_what_go_holds:
  assumes "allowed ref_step ref_ok (boot_world m) es"
    and "w = foldl ref_step (boot_world m) es"
  shows "((i, v) \<in> set (held w) \<longrightarrow> value_at i (tab w) = map_key v) \<and>
    ((i, v) \<in> set (held w) \<and> (j, u) \<in> set (held w) \<longrightarrow> (i = j \<longleftrightarrow> map_key v = map_key u)) \<and>
    (ids (tab w) k = Some i \<longrightarrow> i < 7 \<or> i \<in> fst ` set (held w)) \<and>
    (7 \<le> i \<and> i < vals_len (tab w) \<longrightarrow>
       ref_counts (tab w) i = Some (Count (int (uses (held w) i))) \<and>
       (i \<notin> fst ` set (held w) \<longrightarrow> value_at i (tab w) = JNull \<and> i \<in> set (id_pool (tab w))))"
proof -
  have ok: "table_ok (tab w) (held w)"
    using world_ok_run [OF assms(1)] by (simp add: world_ok_def assms(2))
  have "i < 7 \<or> i \<in> fst ` set (held w)" if "ids (tab w) k = Some i"
    using ids_D [OF ok that] uses_zero [of "held w" i] by auto
  moreover have "value_at i (tab w) = JNull \<and> i \<in> set (id_pool (tab w))"
    if "7 \<le> i" "i < vals_len (tab w)" "i \<notin> fst ` set (held w)"
    using ok that uses_zero [of "held w" i] by (simp add: table_ok_def pool_right_def value_at_def)
  moreover have "ref_counts (tab w) i = Some (Count (int (uses (held w) i)))"
    if "7 \<le> i" "i < vals_len (tab w)"
    using count_D [OF ok that(2)] that(1) by simp
  moreover have "value_at i (tab w) = map_key v" if "(i, v) \<in> set (held w)"
    using held_D [OF ok that] by (simp add: value_at_def)
  moreover have "i = j \<longleftrightarrow> map_key v = map_key u" if "(i, v) \<in> set (held w)" "(j, u) \<in> set (held w)"
    using held_D [OF ok that(1)] held_D [OF ok that(2)] by auto
  ultimately show ?thesis by blast
qed

theorem table_is_what_go_holds_witness:
  "value_at 7 (tab (foldl ref_step (boot_world demo_memory) [TakeRef 8 (JFunction 3), GoWrites demo_memory])) = JFunction 3"
proof -
  let ?w = "foldl ref_step (boot_world demo_memory) [TakeRef 8 (JFunction 3), GoWrites demo_memory]"
  have "(7, JFunction 3) \<in> set (held ?w)"
    using held_taken [of 8 "boot_world demo_memory" "JFunction 3"]
    by (simp add: boot_world_def run_tables_def demo_memory_def tabled_def by_itself_def intern_def map_key_def
        fixed_ids_def js_global_def js_go_def Let_def del: ref_step.simps(1))
  moreover have "allowed ref_step ref_ok (boot_world demo_memory) [TakeRef 8 (JFunction 3), GoWrites demo_memory]"
    by (simp add: boot_world_def run_tables_def demo_memory_def)
  ultimately show ?thesis
    using table_is_what_go_holds [of demo_memory "[TakeRef 8 (JFunction 3), GoWrites demo_memory]" ?w 7 "JFunction 3"]
    by (simp add: map_key_def del: foldl.simps)
qed

end
