(* ===== verification/GoHost.thy ===== *)
theory GoHost
  imports GoMem
begin

text \<open>
  What docs/wasm_exec.js gives a Go program as its host: the output half of the file system shim,
  which turns writes into lines of the console, and the timeouts of the Go scheduler with
  \<open>_resume\<close>. What the Go program does each time it is resumed is a parameter, a list of its calls.
\<close>

section \<open>Console output\<close>

text \<open>
  \<open>decode\<close> is the browser's \<open>TextDecoder\<close>, called on each written chunk by itself. The pair is
  what was logged (one entry per call of \<open>console.log\<close>) and \<open>outputBuf\<close>.
\<close>

definition js_newline :: "16 word" where
  "js_newline = 10"

text \<open>The text before and after the last newline, if there is one.\<close>

fun cut_last_newline :: "jsstr \<Rightarrow> (jsstr \<times> jsstr) option" where
  "cut_last_newline [] = None"
| "cut_last_newline (c # cs) =
     (case cut_last_newline cs of
        Some (l, r) \<Rightarrow> Some (c # l, r)
      | None \<Rightarrow> if c = js_newline then Some ([], cs) else None)"

definition write_sync ::
  "(8 word list \<Rightarrow> jsstr) \<Rightarrow> 8 word list \<Rightarrow> jsstr list \<times> jsstr \<Rightarrow> nat \<times> jsstr list \<times> jsstr" where
  "write_sync decode buf st =
     (let text = snd st @ decode buf in
      case cut_last_newline text of
        Some (l, r) \<Rightarrow> (length buf, fst st @ [l], r)
      | None \<Rightarrow> (length buf, fst st, text))"

text \<open>
  \<open>write\<close>: anything but a whole buffer at the current position is not implemented; the callback
  gets an error (\<open>None\<close>) or the count.
\<close>

definition fs_write ::
  "(8 word list \<Rightarrow> jsstr) \<Rightarrow> 8 word list \<Rightarrow> int \<Rightarrow> int \<Rightarrow> int option \<Rightarrow> jsstr list \<times> jsstr \<Rightarrow>
   nat option \<times> jsstr list \<times> jsstr" where
  "fs_write decode buf offset len position st =
     (if offset \<noteq> 0 \<or> len \<noteq> int (length buf) \<or> position \<noteq> None then (None, st)
      else (case write_sync decode buf st of (n, st') \<Rightarrow> (Some n, st')))"

lemma cut_last_newline_some:
  "cut_last_newline s = Some (l, r) \<Longrightarrow> s = l @ js_newline # r \<and> js_newline \<notin> set r"
proof (induction s arbitrary: l)
  case (Cons c cs)
  have none: "js_newline \<notin> set cs" if "cut_last_newline cs = None" for cs
    using that by (induction cs) (auto split: option.splits if_splits)
  from Cons show ?case by (auto split: option.splits if_splits simp: none)
qed simp

lemma cut_last_newline_none: "cut_last_newline s = None \<Longrightarrow> js_newline \<notin> set s"
  by (induction s) (auto split: option.splits if_splits)

definition logged_text :: "jsstr list \<Rightarrow> jsstr" where
  "logged_text ls = concat (map (\<lambda>l. l @ [js_newline]) ls)"

lemma write_sync_text:
  "logged_text (fst (snd (write_sync decode b st))) @ snd (snd (write_sync decode b st)) =
     logged_text (fst st) @ snd st @ decode b"
  by (auto simp: write_sync_def logged_text_def Let_def dest: cut_last_newline_some split: option.split)

lemma write_sync_pending: "js_newline \<notin> set (snd (snd (write_sync decode b st)))"
  by (auto simp: write_sync_def Let_def dest: cut_last_newline_some cut_last_newline_none split: option.split)

section \<open>Timeouts\<close>

text \<open>
  The host's timers carry the identifier of the timeout they were set for. \<open>resumes\<close> counts how
  often Go code was entered.
\<close>

record host =
  exited :: bool
  next_timeout :: nat
  scheduled :: "nat \<rightharpoonup> nat"
  host_timers :: "nat oneshots"
  resumes :: nat
  warned :: nat
  exit_settled :: bool

datatype go_call = ScheduleTimeout | ClearTimeout nat | WasmExit

definition schedule_timeout :: "host \<Rightarrow> nat \<times> host" where
  "schedule_timeout s =
     (let i = next_timeout s; (h, q) = register i (host_timers s) in
      (i, s\<lparr>next_timeout := i + 1, host_timers := q, scheduled := (scheduled s)(i \<mapsto> h)\<rparr>))"

definition clear_timeout :: "nat \<Rightarrow> host \<Rightarrow> host" where
  "clear_timeout i s =
     s\<lparr>host_timers := (case scheduled s i of None \<Rightarrow> host_timers s | Some h \<Rightarrow> withdraw h (host_timers s)),
       scheduled := (scheduled s)(i := None)\<rparr>"

fun go_does :: "host \<Rightarrow> go_call \<Rightarrow> host" where
  "go_does s ScheduleTimeout = snd (schedule_timeout s)"
| "go_does s (ClearTimeout i) = clear_timeout i s"
| "go_does s WasmExit = s\<lparr>exited := True\<rparr>"

text \<open>\<open>_resume\<close>: \<open>None\<close> is the error that the program has already exited.\<close>

definition resume :: "go_call list \<Rightarrow> host \<Rightarrow> host option" where
  "resume calls s =
     (if exited s then None
      else (let s' = foldl go_does (s\<lparr>resumes := resumes s + 1\<rparr>) calls in
            Some (if exited s' then s'\<lparr>exit_settled := True\<rparr> else s')))"

text \<open>
  The loop of a timer's callback: it resumes Go until Go has cleared the timeout. The list says
  what Go does at each resumption; \<open>Looping\<close> is a loop that has used all of it and goes on.
\<close>

datatype timer_outcome = Returned host | Threw host | LoopGoesOn host

fun resume_until_cleared :: "nat \<Rightarrow> go_call list list \<Rightarrow> host \<Rightarrow> timer_outcome" where
  "resume_until_cleared i runs s =
     (if scheduled s i = None then Returned s
      else (case runs of
          [] \<Rightarrow> LoopGoesOn s
        | calls # rest \<Rightarrow>
            (case resume calls (s\<lparr>warned := warned s + 1\<rparr>) of
               None \<Rightarrow> Threw (s\<lparr>warned := warned s + 1\<rparr>)
             | Some s' \<Rightarrow> resume_until_cleared i rest s')))"

declare resume_until_cleared.simps [simp del]

text \<open>The callback itself; the host has taken the timer with handle \<open>h\<close> off its queue.\<close>

definition timer_fires :: "nat \<Rightarrow> nat \<Rightarrow> go_call list list \<Rightarrow> host \<Rightarrow> timer_outcome" where
  "timer_fires h i runs s0 =
     (let s = s0\<lparr>host_timers := withdraw h (host_timers s0)\<rparr> in
      case runs of
        [] \<Rightarrow> LoopGoesOn s
      | calls # rest \<Rightarrow>
          (case resume calls s of None \<Rightarrow> Threw s | Some s' \<Rightarrow> resume_until_cleared i rest s'))"

fun left_in :: "timer_outcome \<Rightarrow> host" where
  "left_in (Returned s) = s"
| "left_in (Threw s) = s"
| "left_in (LoopGoesOn s) = s"

text \<open>
  The events: Go is entered from outside (a wrapped function), or a waiting timer fires. (A loop
  that goes on keeps every later event from happening; allowing them only adds runs.)
\<close>

datatype host_event = EnterGo "go_call list" | TimerFires nat nat "go_call list list"

fun host_step :: "host \<Rightarrow> host_event \<Rightarrow> host" where
  "host_step s (EnterGo calls) = (case resume calls s of None \<Rightarrow> s | Some s' \<Rightarrow> s')"
| "host_step s (TimerFires h i runs) =
     (if (h, i) \<in> set (waiting (host_timers s)) then left_in (timer_fires h i runs s) else s)"

definition fresh_host :: "nat \<Rightarrow> host" where
  "fresh_host h = \<lparr>exited = False, next_timeout = 1, scheduled = (\<lambda>_. None),
     host_timers = \<lparr>next_handle = h, waiting = []\<rparr>, resumes = 0, warned = 0, exit_settled = False\<rparr>"

definition host_ok :: "host \<Rightarrow> bool" where
  "host_ok s \<longleftrightarrow> oneshots_ok (host_timers s) \<and>
     (\<forall>(h, i) \<in> set (waiting (host_timers s)). scheduled s i = Some h) \<and>
     (\<forall>i \<in> dom (scheduled s). 0 < i \<and> i < next_timeout s) \<and> 0 < next_timeout s"

lemma host_ok_unrelated [simp]:
  "host_ok (s\<lparr>resumes := n\<rparr>) = host_ok s" "host_ok (s\<lparr>warned := n\<rparr>) = host_ok s"
  "host_ok (s\<lparr>exited := b\<rparr>) = host_ok s" "host_ok (s\<lparr>exit_settled := b\<rparr>) = host_ok s"
  by (simp_all add: host_ok_def)

lemma waiting_withdraw: "set (waiting (withdraw h q)) = {p \<in> set (waiting q). fst p \<noteq> h}"
  by (auto simp: withdraw_def)

lemma host_ok_withdraw:
  "host_ok s \<Longrightarrow> host_ok (s\<lparr>host_timers := withdraw h (host_timers s)\<rparr>)"
  by (auto simp: host_ok_def waiting_withdraw shots.ok_del)

lemma host_ok_schedule:
  assumes "host_ok s"
  shows "host_ok (snd (schedule_timeout s))"
proof -
  have "next_timeout s \<notin> dom (scheduled s)"
    using assms by (auto simp: host_ok_def)
  then have "(h, next_timeout s) \<notin> set (waiting (host_timers s))" for h
    using assms by (auto simp: host_ok_def)
  with assms show ?thesis
    using shots.ok_add [of "host_timers s" "next_timeout s"]
    by (auto simp: host_ok_def schedule_timeout_def register_def Let_def less_Suc_eq)
qed

lemma host_ok_clear:
  assumes "host_ok s"
  shows "host_ok (clear_timeout i s)"
proof (cases "scheduled s i")
  case None
  with assms show ?thesis by (auto simp: host_ok_def clear_timeout_def)
next
  case (Some h)
  with assms show ?thesis
    by (auto simp: host_ok_def clear_timeout_def waiting_withdraw shots.ok_del)
qed

lemma host_ok_go_does: "host_ok s \<Longrightarrow> host_ok (go_does s c)"
  by (cases c) (simp_all add: host_ok_schedule host_ok_clear)

interpretation gohost: machine go_does host_ok
  by unfold_locales (rule host_ok_go_does)

lemma host_ok_resume: "host_ok s \<Longrightarrow> resume calls s = Some s' \<Longrightarrow> host_ok s'"
  using gohost.runs_inv [of "s\<lparr>resumes := resumes s + 1\<rparr>" calls]
  by (auto simp: resume_def Let_def split: if_splits)

lemma host_ok_loop: "host_ok s \<Longrightarrow> host_ok (left_in (resume_until_cleared i runs s))"
proof (induction i runs s rule: resume_until_cleared.induct)
  case (1 i runs s)
  show ?case
  proof (cases "scheduled s i = None \<or> runs = []")
    case True
    with "1.prems" show ?thesis by (auto simp: resume_until_cleared.simps [of i runs s] split: list.split)
  next
    case False
    then obtain c rest where r: "runs = c # rest" "scheduled s i \<noteq> None" by (cases runs) auto
    with "1" show ?thesis
      using host_ok_resume [of "s\<lparr>warned := warned s + 1\<rparr>" c]
      by (auto simp: resume_until_cleared.simps [of i "c # rest" s] split: option.split)
  qed
qed

lemma host_ok_step: "host_ok s \<Longrightarrow> host_ok (host_step s e)"
proof (cases e)
  case (EnterGo calls)
  then show "host_ok s \<Longrightarrow> host_ok (host_step s e)"
    by (auto simp: host_ok_resume split: option.split)
next
  case (TimerFires h i runs)
  then show "host_ok s \<Longrightarrow> host_ok (host_step s e)"
    using host_ok_withdraw [of s h]
    by (auto simp: timer_fires_def Let_def host_ok_resume host_ok_loop split: list.split option.split)
qed

interpretation hostrun: machine host_step host_ok
  by unfold_locales (rule host_ok_step)

lemma host_ok_run: "0 < h \<Longrightarrow> host_ok (foldl host_step (fresh_host h) es)"
  by (rule hostrun.runs_inv) (simp add: host_ok_def fresh_host_def oneshots_ok_def handles_def)

lemma loop_returns_cleared: "resume_until_cleared i runs s = Returned s' \<Longrightarrow> scheduled s' i = None"
proof (induction i runs s rule: resume_until_cleared.induct)
  case (1 i runs s)
  from "1.prems" show ?case
    by (auto simp: resume_until_cleared.simps [of i runs s] "1.IH" split: if_splits list.splits option.splits)
qed

lemma exited_stays: "exited s \<Longrightarrow> exited (host_step s e) \<and> resumes (host_step s e) = resumes s"
proof (cases e)
  case (TimerFires h i runs)
  then show "exited s \<Longrightarrow> exited (host_step s e) \<and> resumes (host_step s e) = resumes s"
    by (auto simp: timer_fires_def Let_def resume_def split: list.split)
qed (simp add: resume_def)

section \<open>Properties\<close>

text \<open>
  Nothing a Go program writes is lost, repeated or reordered on the console: after any
  writes, the logged lines with their newlines and what is still buffered are the decoded chunks one
  after another, every complete line has been logged, and each write reports all its bytes.
\<close>

theorem console_shows_what_was_written:
  assumes "(ls, rest) = foldl (\<lambda>st b. snd (write_sync decode b st)) ([], []) chunks"
  shows "logged_text ls @ rest = concat (map decode chunks) \<and> js_newline \<notin> set rest \<and>
    fst (write_sync decode b (ls, rest)) = length b"
proof -
  have "logged_text (fst st) @ snd st = concat (map decode chunks) \<and> js_newline \<notin> set (snd st)"
    if "st = foldl (\<lambda>st b. snd (write_sync decode b st)) ([], []) chunks" for st
    using that
  proof (induction chunks arbitrary: st rule: rev_induct)
    case Nil
    then show ?case by (simp add: logged_text_def)
  next
    case (snoc b bs)
    then show ?case
      using write_sync_text [of decode b] write_sync_pending [of decode b]
      by (auto simp flip: append_assoc)
  qed
  from this [OF assms] show ?thesis
    by (simp add: write_sync_def Let_def split: option.split)
qed

theorem console_shows_what_was_written_witness:
  "let st = foldl (\<lambda>st b. snd (write_sync (map ucast) b st)) ([], []) [[104, 10, 105], [10, 106]]
   in logged_text (fst st) @ snd st = [104, 10, 105, 10, 106]"
proof -
  let ?st = "foldl (\<lambda>st b. snd (write_sync (map ucast) b st)) ([], []) [[104, 10, 105], [10, 106 :: 8 word]]"
  have "(fst ?st, snd ?st) = ?st" by simp
  from console_shows_what_was_written [OF this] show ?thesis
    unfolding Let_def by simp
qed

text \<open>
  C40: the timeouts of the Go scheduler: whatever Go does when it runs, a host timer waits
  only for a timeout that is scheduled, under the handle the table remembers, so that a cleared
  timeout never fires; a callback returns only once Go has cleared its timeout; and after the
  program has exited no event enters Go code again.
\<close>

theorem timeouts_are_disciplined:
  assumes "0 < h0" and "s = foldl host_step (fresh_host h0) es"
  shows "((h, i) \<in> set (waiting (host_timers s)) \<longrightarrow> scheduled s i = Some h) \<and>
    (timer_fires h i runs s = Returned s' \<longrightarrow> scheduled s' i = None) \<and>
    (exited s \<longrightarrow> exited (host_step s e) \<and> resumes (host_step s e) = resumes s)"
proof -
  have "host_ok s" using host_ok_run [OF assms(1)] assms(2) by simp
  moreover have "scheduled s' i = None" if "timer_fires h i runs s = Returned s'"
    using that loop_returns_cleared
    by (auto simp: timer_fires_def Let_def split: list.splits option.splits)
  ultimately show ?thesis
    using exited_stays by (auto simp: host_ok_def)
qed

theorem timeouts_are_disciplined_witness:
  "scheduled (foldl host_step (fresh_host 5) [EnterGo [ScheduleTimeout]]) 1 = Some 5"
proof -
  let ?s = "foldl host_step (fresh_host 5) [EnterGo [ScheduleTimeout]]"
  have "(5, 1) \<in> set (waiting (host_timers ?s))"
    by (simp add: resume_def fresh_host_def schedule_timeout_def register_def Let_def)
  moreover have "0 < (5 :: nat)" by simp
  ultimately show ?thesis
    using timeouts_are_disciplined [OF _ refl, of 5 5 1 "[EnterGo [ScheduleTimeout]]"] by blast
qed

end
