(* ===== verification/GoRun.thy ===== *)
theory GoRun
  imports GoMem "HOL-Library.List_Lexorder"
begin

text \<open>
  The start of a Go program (\<open>run\<close> in docs/wasm_exec.js): the arguments and the environment are
  written into the linear memory from address 4096 on as zero-terminated UTF-8 strings, and after
  them the two null-terminated tables of pointers.
\<close>

section \<open>UTF-8\<close>

definition byte_of :: "nat \<Rightarrow> 8 word" where
  "byte_of n = word_of_nat n"

definition utf8_point :: "nat \<Rightarrow> 8 word list" where
  "utf8_point p =
     (if p < 0x80 then [byte_of p]
      else if p < 0x800 then [byte_of (0xC0 + p div 64), byte_of (0x80 + p mod 64)]
      else if p < 0x10000 then
        [byte_of (0xE0 + p div 4096), byte_of (0x80 + p div 64 mod 64), byte_of (0x80 + p mod 64)]
      else
        [byte_of (0xF0 + p div 262144), byte_of (0x80 + p div 4096 mod 64),
         byte_of (0x80 + p div 64 mod 64), byte_of (0x80 + p mod 64)])"

text \<open>\<open>TextEncoder\<close>: surrogate pairs are one code point, a lone surrogate becomes U+FFFD.\<close>

fun encode :: "jsstr \<Rightarrow> 8 word list" where
  "encode [] = []"
| "encode (u # us) =
     (let c = unat u in
      if 0xD800 \<le> c \<and> c < 0xDC00 then
        (case us of
           v # vs \<Rightarrow>
             (let d = unat v in
              if 0xDC00 \<le> d \<and> d < 0xE000
              then utf8_point (0x10000 + (c - 0xD800) * 1024 + (d - 0xDC00)) @ encode vs
              else utf8_point 0xFFFD @ encode us)
         | [] \<Rightarrow> utf8_point 0xFFFD)
      else if 0xDC00 \<le> c \<and> c < 0xE000 then utf8_point 0xFFFD @ encode us
      else utf8_point c @ encode us)"

section \<open>Layout\<close>

definition align8 :: "nat \<Rightarrow> nat" where
  "align8 n = (if n mod 8 \<noteq> 0 then n + (8 - n mod 8) else n)"

text \<open>\<open>strPtr\<close>: the pointer, and the new \<open>offset\<close> and memory; \<open>None\<close> when the write throws.\<close>

definition zstring :: "jsstr \<Rightarrow> 8 word list" where
  "zstring s = encode (s @ [0])"

definition str_ptr :: "jsstr \<Rightarrow> nat \<times> memory \<Rightarrow> (nat \<times> nat \<times> memory) option" where
  "str_ptr s om =
     (let (offset, m) = om; bytes = zstring s in
      case store_bytes offset bytes m of
        None \<Rightarrow> None
      | Some m' \<Rightarrow> Some (offset, align8 (offset + length bytes), m'))"

fun str_ptrs :: "jsstr list \<Rightarrow> nat \<times> memory \<Rightarrow> (nat list \<times> nat \<times> memory) option" where
  "str_ptrs [] om = Some ([], om)"
| "str_ptrs (s # ss) om =
     (case str_ptr s om of
        None \<Rightarrow> None
      | Some (p, om') \<Rightarrow> (case str_ptrs ss om' of None \<Rightarrow> None | Some (ps, om'') \<Rightarrow> Some (p # ps, om'')))"

fun write_ptrs :: "nat list \<Rightarrow> nat \<times> memory \<Rightarrow> (nat \<times> memory) option" where
  "write_ptrs [] om = Some om"
| "write_ptrs (p # ps) (offset, m) =
     (case set_uint32 offset (word_of_nat p) m of
        None \<Rightarrow> None
      | Some m1 \<Rightarrow> (case set_uint32 (offset + 4) 0 m1 of
            None \<Rightarrow> None
          | Some m2 \<Rightarrow> write_ptrs ps (offset + 8, m2)))"

text \<open>
  An environment is an object whose values are strings: its properties in order, each key once.
  The keys are sorted by their code units.
\<close>

definition env_lines :: "(jsstr \<times> jsstr) list \<Rightarrow> jsstr list" where
  "env_lines env = map (\<lambda>k. k @ lit ''='' @ the (map_of env k)) (sort (map fst env))"

datatype run_error = BufferTooSmall | ArgumentsTooLong

definition data_start :: nat where
  "data_start = 4096 + 8192"

definition lay_out :: "jsstr list \<Rightarrow> (jsstr \<times> jsstr) list \<Rightarrow> memory \<Rightarrow> run_error + (nat \<times> nat \<times> memory)" where
  "lay_out argv env m =
     (case str_ptrs argv (4096, m) of
        None \<Rightarrow> Inl BufferTooSmall
      | Some (ps, om1) \<Rightarrow>
          (case str_ptrs (env_lines env) om1 of
             None \<Rightarrow> Inl BufferTooSmall
           | Some (qs, om2) \<Rightarrow>
               (case write_ptrs (ps @ [0] @ qs @ [0]) om2 of
                  None \<Rightarrow> Inl BufferTooSmall
                | Some (offset, m3) \<Rightarrow>
                    if data_start \<le> offset then Inl ArgumentsTooLong
                    else Inr (length argv, fst om2, m3))))"

section \<open>Lemmas\<close>

lemma align8_props: "n \<le> align8 n" "8 dvd align8 n"
proof -
  show "n \<le> align8 n"
    using mod_less_divisor [of 8 n] by (auto simp: align8_def)
  show "8 dvd align8 n"
    unfolding align8_def by presburger
qed

text \<open>A string in memory between two bounds, and a memory that differs only between two bounds.\<close>

definition placed :: "memory \<Rightarrow> nat \<Rightarrow> nat \<Rightarrow> jsstr \<Rightarrow> nat \<Rightarrow> bool" where
  "placed m lo hi s p \<longleftrightarrow> 8 dvd p \<and> lo \<le> p \<and> p + length (zstring s) \<le> hi \<and>
     load_bytes p (length (zstring s)) m = Some (zstring s)"

definition unchanged :: "nat \<Rightarrow> nat \<Rightarrow> memory \<Rightarrow> memory \<Rightarrow> bool" where
  "unchanged lo hi m m' \<longleftrightarrow> (\<forall>b n. b + n \<le> lo \<or> hi \<le> b \<longrightarrow> load_bytes b n m' = load_bytes b n m)"

lemma unchanged_refl [simp]: "unchanged lo hi m m"
  by (simp add: unchanged_def)

lemma unchanged_trans:
  "unchanged lo mid m m1 \<Longrightarrow> unchanged mid hi m1 m2 \<Longrightarrow> lo \<le> mid \<Longrightarrow> mid \<le> hi \<Longrightarrow> unchanged lo hi m m2"
  by (auto simp: unchanged_def)

lemma unchanged_wider: "unchanged lo hi m m' \<Longrightarrow> hi \<le> hi' \<Longrightarrow> unchanged lo hi' m m'"
  by (auto simp: unchanged_def)

lemma placed_unchanged: "placed m lo hi s p \<Longrightarrow> unchanged hi hi' m m' \<Longrightarrow> placed m' lo hi s p"
  by (auto simp: placed_def unchanged_def)

lemma placed_wider: "placed m lo hi s p \<Longrightarrow> lo' \<le> lo \<Longrightarrow> hi \<le> hi' \<Longrightarrow> placed m lo' hi' s p"
  by (auto simp: placed_def)

lemma unchanged_store:
  "store_bytes off bs m = Some m' \<Longrightarrow> off + length bs \<le> hi \<Longrightarrow> unchanged off hi m m'"
  unfolding unchanged_def by (intro allI impI) (rule load_store_apart, auto)

lemma str_ptrs_written:
  "str_ptrs ss (off, m) = Some (ps, off', m') \<Longrightarrow> 8 dvd off \<Longrightarrow>
   off \<le> off' \<and> 8 dvd off' \<and> list_all2 (placed m' off off') ss ps \<and> unchanged off off' m m'"
proof (induction ss arbitrary: off m ps)
  case (Cons s ss)
  let ?mid = "align8 (off + length (zstring s))"
  from Cons.prems(1) obtain m1 qs where
    w: "store_bytes off (zstring s) m = Some m1" and
    r: "str_ptrs ss (?mid, m1) = Some (qs, off', m')" and ps: "ps = off # qs"
    by (auto simp: str_ptr_def Let_def split: option.splits)
  have mid: "off + length (zstring s) \<le> ?mid" "8 dvd ?mid"
    by (rule align8_props)+
  note rest = Cons.IH [OF r mid(2)]
  have "placed m1 off ?mid s off"
    using mid(1) Cons.prems(2) load_store_same [OF w] by (simp add: placed_def)
  with rest have "placed m' off off' s off"
    by (meson placed_unchanged placed_wider order_refl)
  moreover have "list_all2 (placed m' off off') ss qs"
    using rest mid(1) by (auto elim!: list_all2_mono intro: placed_wider)
  moreover have "unchanged off off' m m'"
    using unchanged_trans [OF unchanged_store [OF w mid(1)]] rest mid(1) by auto
  ultimately show ?case using rest mid(1) by (simp add: ps)
qed simp

text \<open>What the table of pointers leaves.\<close>

lemma pointer_written:
  assumes "set_uint32 off (word_of_nat p) m = Some m1" "set_uint32 (off + 4) 0 m1 = Some m2"
    and "p < 2 ^ 31"
  shows "get_int64 off m2 = Some (int p)" and "unchanged off (off + 8) m m2"
proof -
  have "get_uint32 off m2 = Some (word_of_nat p)" "get_uint32 (off + 4) m2 = Some 0"
    using get_set_uint32 [OF assms(1)] get_set_uint32 [OF assms(2)] get_set_uint32_apart [OF assms(2), of off]
    by simp_all
  moreover have "uint (word_of_nat p :: 32 word) = int p"
    using assms(3) by (simp add: unsigned_of_nat take_bit_nat_eq_self)
  ultimately show "get_int64 off m2 = Some (int p)"
    using assms(3) by (simp add: get_int64_def round_double_exact)
  show "unchanged off (off + 8) m m2"
    using unchanged_trans [of off "off + 4" m m1 "off + 8" m2] assms(1,2)
    by (simp add: set_uint32_def unchanged_store)
qed

lemma get_int64_unchanged: "unchanged lo hi m m' \<Longrightarrow> a + 8 \<le> lo \<Longrightarrow> get_int64 a m' = get_int64 a m"
  by (simp add: unchanged_def get_int64_def get_uint32_def)

lemma write_ptrs_offset: "write_ptrs ps om = Some (off', m') \<Longrightarrow> off' = fst om + 8 * length ps"
  by (induction ps om rule: write_ptrs.induct) (fastforce split: option.splits)+

lemma write_ptrs_written:
  "write_ptrs ps (off, m) = Some (off', m') \<Longrightarrow> \<forall>p \<in> set ps. p < 2 ^ 31 \<Longrightarrow>
   (\<forall>i < length ps. get_int64 (off + 8 * i) m' = Some (int (ps ! i))) \<and> unchanged off off' m m'"
proof (induction ps arbitrary: off m)
  case (Cons p ps)
  from Cons.prems(1) obtain m1 m2 where
    w: "set_uint32 off (word_of_nat p) m = Some m1" "set_uint32 (off + 4) 0 m1 = Some m2" and
    r: "write_ptrs ps (off + 8, m2) = Some (off', m')"
    by (auto split: option.splits)
  have p: "p < 2 ^ 31" using Cons.prems(2) by simp
  have rest: "\<forall>i < length ps. get_int64 (off + 8 + 8 * i) m' = Some (int (ps ! i))"
      "unchanged (off + 8) off' m2 m'" "off + 8 \<le> off'"
    using Cons.IH [OF r] Cons.prems(2) write_ptrs_offset [OF r] by simp_all
  have first: "get_int64 off m' = Some (int p)"
    using pointer_written(1) [OF w p] get_int64_unchanged [OF rest(2), of off] by simp
  have "get_int64 (off + 8 * i) m' = Some (int ((p # ps) ! i))" if "i < length (p # ps)" for i
    using that first rest(1) by (cases i) (auto simp: algebra_simps)
  moreover have "unchanged off off' m m'"
    using unchanged_trans [OF pointer_written(2) [OF w p] rest(2)] rest(3) by simp
  ultimately show ?case by simp
qed simp

lemma lay_out_steps:
  assumes "lay_out argv env m = Inr (argc, av, m')"
  obtains ps qs off1 m1 m2 where "argc = length argv" "8 dvd av" "4096 \<le> off1" "off1 \<le> av"
    "av + 8 * (length ps + length qs + 2) < 12288"
    "list_all2 (placed m1 4096 off1) argv ps" "unchanged 4096 off1 m m1"
    "list_all2 (placed m2 off1 av) (env_lines env) qs" "unchanged off1 av m1 m2"
    "write_ptrs (ps @ [0] @ qs @ [0]) (av, m2) = Some (av + 8 * (length ps + length qs + 2), m')"
proof -
  from assms obtain ps off1 m1 qs m2 off3 where
    s: "str_ptrs argv (4096, m) = Some (ps, off1, m1)"
      "str_ptrs (env_lines env) (off1, m1) = Some (qs, av, m2)"
      "write_ptrs (ps @ [0] @ qs @ [0]) (av, m2) = Some (off3, m')"
      "off3 < 12288" "argc = length argv"
    by (auto simp: lay_out_def data_start_def split: option.splits if_splits)
  have "8 dvd (4096 :: nat)" by (rule dvdI [of _ _ 512]) simp
  note a = str_ptrs_written [OF s(1) this]
  then have "8 dvd off1" by simp
  note b = str_ptrs_written [OF s(2) this]
  show thesis
    by (rule that [of off1 ps qs m1 m2]) (use a b s write_ptrs_offset [OF s(3)] in simp_all)
qed

lemma pointers_small:
  assumes "list_all2 (placed m lo hi) ss ps" "hi < 12288"
  shows "\<forall>p \<in> set ps. p < 2 ^ 31"
proof
  fix p assume "p \<in> set ps"
  then obtain s where "placed m lo hi s p"
    using assms(1) by (auto simp: list_all2_conv_all_nth in_set_conv_nth)
  with assms(2) show "p < 2 ^ 31" by (auto simp: placed_def)
qed

section \<open>Properties\<close>

text \<open>
  A Go program that starts finds its arguments and environment where \<open>argv\<close> says: entry
  by entry the table holds the address of a zero-terminated UTF-8 copy of the argument, aligned to
  eight, then a null, the lines of the environment in the order of their keys, and a null; all of it
  lies between 4096 and the start of the program's data at 12288, and no other byte is touched.
\<close>

theorem arguments_are_laid_out:
  assumes "lay_out argv env m = Inr (argc, av, m')"
  shows "argc = length argv \<and> 8 dvd av \<and> av + 8 * (argc + length env + 2) < 12288 \<and>
    unchanged 4096 12288 m m' \<and>
    (\<exists>ps qs. list_all2 (placed m' 4096 av) argv ps \<and> list_all2 (placed m' 4096 av) (env_lines env) qs \<and>
       (\<forall>i < argc + length env + 2. get_int64 (av + 8 * i) m' = Some (int ((ps @ [0] @ qs @ [0]) ! i))))"
proof -
  from lay_out_steps [OF assms] obtain ps qs off1 m1 m2 where
    c: "argc = length argv" "8 dvd av" "4096 \<le> off1" "off1 \<le> av"
      "av + 8 * (length ps + length qs + 2) < 12288"
    and ps: "list_all2 (placed m1 4096 off1) argv ps" "unchanged 4096 off1 m m1"
    and qs: "list_all2 (placed m2 off1 av) (env_lines env) qs" "unchanged off1 av m1 m2"
    and t: "write_ptrs (ps @ [0] @ qs @ [0]) (av, m2) = Some (av + 8 * (length ps + length qs + 2), m')" .
  have lens: "length ps = argc" "length qs = length env"
    using ps(1) qs(1) c(1) by (auto simp: env_lines_def dest!: list_all2_lengthD)
  have "\<forall>p \<in> set (ps @ [0] @ qs @ [0]). p < 2 ^ 31"
    using pointers_small [OF ps(1)] pointers_small [OF qs(1)] c by auto
  note w = write_ptrs_written [OF t this]
  have "list_all2 (placed m' 4096 av) argv ps"
    using ps(1)
  proof (rule list_all2_mono)
    fix s p assume "placed m1 4096 off1 s p"
    then have "placed m2 4096 off1 s p" using qs(2) by (rule placed_unchanged)
    then have "placed m2 4096 av s p" by (rule placed_wider) (use c(4) in simp_all)
    with w show "placed m' 4096 av s p" by (blast intro: placed_unchanged)
  qed
  moreover have "list_all2 (placed m' 4096 av) (env_lines env) qs"
    using qs(1)
  proof (rule list_all2_mono)
    fix s p assume "placed m2 off1 av s p"
    then have "placed m2 4096 av s p" by (rule placed_wider) (use c(3) in simp_all)
    with w show "placed m' 4096 av s p" by (blast intro: placed_unchanged)
  qed
  moreover have "unchanged 4096 12288 m m'"
    using unchanged_trans [OF unchanged_trans [OF ps(2) qs(2) c(3,4)] conjunct2 [OF w]] c
    by (auto intro: unchanged_wider)
  ultimately show ?thesis using w c lens by auto
qed

theorem arguments_are_laid_out_witness:
  "\<exists>av m' p. lay_out [lit ''js''] [] (demo_memory\<lparr>mem_size := 65536\<rparr>) = Inr (1, av, m') \<and>
     get_int64 av m' = Some (int p) \<and> load_bytes p (length (zstring (lit ''js''))) m' = Some (zstring (lit ''js''))"
proof -
  obtain av m' where r: "lay_out [lit ''js''] [] (demo_memory\<lparr>mem_size := 65536\<rparr>) = Inr (1, av, m')"
    by (simp add: lay_out_def str_ptr_def store_bytes_def demo_memory_def env_lines_def align8_def
        set_uint32_def data_start_def zstring_def lit_Cons utf8_point_def unat_code_unit Let_def)
  from arguments_are_laid_out [OF r] obtain ps qs where
    "list_all2 (placed m' 4096 av) [lit ''js''] ps"
    "\<forall>i < 1 + length ([] :: (jsstr \<times> jsstr) list) + 2. get_int64 (av + 8 * i) m' = Some (int ((ps @ [0] @ qs @ [0]) ! i))"
    by blast
  then have "placed m' 4096 av (lit ''js'') (ps ! 0)" "get_int64 (av + 8 * 0) m' = Some (int ((ps @ [0] @ qs @ [0]) ! 0))"
      "length ps = 1"
    by (auto simp: list_all2_Cons1)
  with r show ?thesis by (auto simp: placed_def nth_append)
qed

end
