(* ===== verification/GoText.thy ===== *)
theory GoText
  imports GoRun
begin

text \<open>
  The text that crosses between Go and the page (docs/wasm_exec.js \<open>encoder\<close>, \<open>decoder\<close>): Go
  strings are bytes, JavaScript strings are 16-bit units. The decoder is the \<open>TextDecoder\<close> of the
  browser with its default options: every ill-formed sequence becomes U+FFFD, and one byte order
  mark at the start is dropped.
\<close>

section \<open>The decoder\<close>

text \<open>
  Between two bytes the decoder is idle, or needs \<open>n\<close> more bytes, the next one between two bounds,
  for a code point whose upper bits it has.
\<close>

datatype decoder = Idle | Needs nat nat nat nat

definition replacement :: "16 word" where
  "replacement = 0xFFFD"

definition point_units :: "nat \<Rightarrow> jsstr" where
  "point_units p =
     (if p < 0x10000 then [word_of_nat p]
      else [word_of_nat (0xD800 + (p - 0x10000) div 1024), word_of_nat (0xDC00 + (p - 0x10000) mod 1024)])"

definition lead_byte :: "nat \<Rightarrow> jsstr \<times> decoder" where
  "lead_byte b =
     (if b < 0x80 then ([word_of_nat b], Idle)
      else if 0xC2 \<le> b \<and> b < 0xE0 then ([], Needs 1 0x80 0xBF (b - 0xC0))
      else if 0xE0 \<le> b \<and> b < 0xF0 then
        ([], Needs 2 (if b = 0xE0 then 0xA0 else 0x80) (if b = 0xED then 0x9F else 0xBF) (b - 0xE0))
      else if 0xF0 \<le> b \<and> b < 0xF5 then
        ([], Needs 3 (if b = 0xF0 then 0x90 else 0x80) (if b = 0xF4 then 0x8F else 0xBF) (b - 0xF0))
      else ([replacement], Idle))"

fun decode_byte :: "decoder \<Rightarrow> nat \<Rightarrow> jsstr \<times> decoder" where
  "decode_byte Idle b = lead_byte b"
| "decode_byte (Needs n lo hi p) b =
     (if lo \<le> b \<and> b \<le> hi then
        (let q = p * 64 + (b - 0x80) in
         if n = 1 then (point_units q, Idle) else ([], Needs (n - 1) 0x80 0xBF q))
      else (case lead_byte b of (us, d) \<Rightarrow> (replacement # us, d)))"

fun decode_from :: "decoder \<Rightarrow> 8 word list \<Rightarrow> jsstr" where
  "decode_from d [] = (if d = Idle then [] else [replacement])"
| "decode_from d (b # bs) = (case decode_byte d (unat b) of (us, d') \<Rightarrow> us @ decode_from d' bs)"

definition utf8_bom :: "8 word list" where
  "utf8_bom = [0xEF, 0xBB, 0xBF]"

definition decode :: "8 word list \<Rightarrow> jsstr" where
  "decode bs = decode_from Idle (if take 3 bs = utf8_bom then drop 3 bs else bs)"

section \<open>Decoding what was encoded\<close>

definition scalar :: "nat \<Rightarrow> bool" where
  "scalar p \<longleftrightarrow> p < 0x110000 \<and> \<not> (0xD800 \<le> p \<and> p < 0xE000)"

lemma unat_byte_of: "n < 256 \<Longrightarrow> unat (byte_of n) = n"
  by (simp add: byte_of_def unat_of_nat)

lemma digits64:
  fixes p :: nat
  shows "(p div 4096 * 64 + p div 64 mod 64) * 64 + p mod 64 = p"
    and "((p div 262144 * 64 + p div 4096 mod 64) * 64 + p div 64 mod 64) * 64 + p mod 64 = p"
proof -
  have d: "p div 4096 = p div 64 div 64" "p div 262144 = p div 64 div 64 div 64"
    by (simp_all flip: div_mult2_eq)
  show "(p div 4096 * 64 + p div 64 mod 64) * 64 + p mod 64 = p"
    unfolding d by (simp only: div_mult_mod_eq)
  show "((p div 262144 * 64 + p div 4096 mod 64) * 64 + p div 64 mod 64) * 64 + p mod 64 = p"
    unfolding d by (simp only: div_mult_mod_eq)
qed

lemma low_digit: "p mod 64 \<le> (63 :: nat)"
  using mod_less_divisor [of 64 p] by linarith

lemma decode_point2:
  assumes "0x80 \<le> p" "p < 0x800"
  shows "decode_from Idle (utf8_point p @ bs) = point_units p @ decode_from Idle bs"
proof -
  have "p div 64 < 32" "2 \<le> p div 64"
    using assms by (simp_all add: less_eq_div_iff_mult_less_eq div_less_iff_less_mult)
  then show ?thesis
    using assms low_digit [of p] by (simp add: utf8_point_def unat_byte_of lead_byte_def Let_def)
qed

lemma decode_point3:
  assumes "0x800 \<le> p" "p < 0x10000" "\<not> (0xD800 \<le> p \<and> p < 0xE000)"
  shows "decode_from Idle (utf8_point p @ bs) = point_units p @ decode_from Idle bs"
proof -
  let ?a = "p div 4096" and ?b = "p div 64 mod 64"
  have "?a < 16"
    using assms by (simp add: div_less_iff_less_mult)
  moreover have "32 \<le> ?b" if "?a = 0"
    using assms digits64(1) [of p] low_digit [of p] that by simp
  moreover have "?b < 32" if "?a = 13"
    using assms digits64(1) [of p] low_digit [of "p div 64"] low_digit [of p] that by simp
  ultimately show ?thesis
    using assms low_digit [of p] low_digit [of "p div 64"] digits64(1) [of p]
    by (auto simp: utf8_point_def unat_byte_of lead_byte_def Let_def simp del: div_mult_mod_eq)
qed

lemma decode_point4:
  assumes "0x10000 \<le> p" "p < 0x110000"
  shows "decode_from Idle (utf8_point p @ bs) = point_units p @ decode_from Idle bs"
proof -
  let ?a = "p div 262144" and ?b = "p div 4096 mod 64" and ?c = "p div 64 mod 64"
  have "?a < 5"
    using assms by (simp add: div_less_iff_less_mult)
  moreover have "16 \<le> ?b" if "?a = 0"
    using assms digits64(2) [of p] low_digit [of p] low_digit [of "p div 64"] that by simp
  moreover have "?b < 16" if "?a = 4"
    using assms digits64(2) [of p] that by simp
  ultimately show ?thesis
    using assms low_digit [of p] low_digit [of "p div 64"] low_digit [of "p div 4096"] digits64(2) [of p]
    by (auto simp: utf8_point_def unat_byte_of lead_byte_def Let_def)
qed

lemma decode_point:
  assumes "scalar p"
  shows "decode_from Idle (utf8_point p @ bs) = point_units p @ decode_from Idle bs"
proof -
  consider "p < 0x80" | "0x80 \<le> p" "p < 0x800" | "0x800 \<le> p" "p < 0x10000" | "0x10000 \<le> p"
    by linarith
  then show ?thesis
  proof cases
    case 1
    then show ?thesis
      by (simp add: utf8_point_def unat_byte_of lead_byte_def point_units_def)
  qed (use assms decode_point2 decode_point3 decode_point4 in \<open>auto simp: scalar_def\<close>)
qed

text \<open>What is left of a string on the way through UTF-8: lone surrogates are replaced.\<close>

fun scrub :: "jsstr \<Rightarrow> jsstr" where
  "scrub [] = []"
| "scrub (u # us) =
     (if 0xD800 \<le> unat u \<and> unat u < 0xDC00 then
        (case us of
           v # vs \<Rightarrow> if 0xDC00 \<le> unat v \<and> unat v < 0xE000 then u # v # scrub vs else replacement # scrub us
         | [] \<Rightarrow> [replacement])
      else if 0xDC00 \<le> unat u \<and> unat u < 0xE000 then replacement # scrub us
      else u # scrub us)"

lemma scalar_FFFD: "scalar 0xFFFD"
  by (simp add: scalar_def)

lemma encode_lone_high:
  "0xD800 \<le> unat u \<Longrightarrow> unat u < 0xDC00 \<Longrightarrow>
   \<not> (\<exists>v vs. us = v # vs \<and> 0xDC00 \<le> unat v \<and> unat v < 0xE000) \<Longrightarrow>
   encode (u # us) = utf8_point 0xFFFD @ encode us \<and> scrub (u # us) = replacement # scrub us"
  by (cases us) (auto simp: Let_def)

text \<open>
  A reader of UTF-8: it reads a well-formed code point as its units, and then what follows. Whoever
  reads so gets from an encoded string the string itself, but for its lone surrogates.
\<close>

locale utf8_reader =
  fixes read :: "8 word list \<Rightarrow> jsstr"
  assumes read_Nil: "read [] = []"
    and read_point: "scalar p \<Longrightarrow> read (utf8_point p @ bs) = point_units p @ read bs"
begin

lemma read_replacement:
  "read (utf8_point 0xFFFD @ bs) = replacement # read bs"
  by (simp add: read_point [OF scalar_FFFD] point_units_def replacement_def)

lemma read_unit:
  fixes u :: "16 word"
  assumes "\<not> (0xD800 \<le> unat u \<and> unat u < 0xE000)"
  shows "read (utf8_point (unat u) @ bs) = u # read bs"
  using assms unsigned_less [of u, where ?'a = nat] read_point [of "unat u" bs] by (simp add: scalar_def point_units_def)

lemma read_pair:
  fixes u v :: "16 word"
  assumes "0xD800 \<le> unat u" "unat u < 0xDC00" "0xDC00 \<le> unat v" "unat v < 0xE000"
  shows "read (utf8_point (0x10000 + (unat u - 0xD800) * 1024 + (unat v - 0xDC00)) @ bs) =
    u # v # read bs"
proof -
  let ?x = "unat u - 0xD800" and ?y = "unat v - 0xDC00"
  have "?x < 1024" "?y < 1024" using assms by auto
  then have "scalar (0x10000 + ?x * 1024 + ?y)" "(?x * 1024 + ?y) div 1024 = ?x" "(?x * 1024 + ?y) mod 1024 = ?y"
    by (auto simp: scalar_def)
  moreover have "0xD800 + ?x = unat u" "0xDC00 + ?y = unat v"
    using assms by auto
  ultimately show ?thesis
    by (simp add: read_point point_units_def)
qed

lemma read_encode: "read (encode s) = scrub s"
proof (induction s rule: length_induct)
  case (1 s)
  then have IH: "read (encode t) = scrub t" if "length t < length s" for t
    using that by blast
  show ?case
  proof (cases s)
    case (Cons u us)
    consider v vs where "us = v # vs" "0xD800 \<le> unat u" "unat u < 0xDC00" "0xDC00 \<le> unat v" "unat v < 0xE000"
      | "0xD800 \<le> unat u" "unat u < 0xDC00"
        "\<not> (\<exists>v vs. us = v # vs \<and> 0xDC00 \<le> unat v \<and> unat v < 0xE000)"
      | "0xDC00 \<le> unat u" "unat u < 0xE000" | "\<not> (0xD800 \<le> unat u \<and> unat u < 0xE000)"
      by force
    then show ?thesis
    proof cases
      case (1 v vs)
      then show ?thesis
        using IH [of vs] Cons read_pair [of u v "encode vs"] by (simp add: Let_def)
    next
      case 2
      from encode_lone_high [OF 2] show ?thesis
        using IH [of us] Cons by (simp only: read_replacement) simp
    qed (use IH [of us] Cons in \<open>auto simp: Let_def read_replacement read_unit\<close>)
  qed (simp add: read_Nil)
qed

end

interpretation td: utf8_reader "decode_from Idle"
  by unfold_locales (simp_all add: decode_point)

definition js_bom :: "16 word" where
  "js_bom = 0xFEFF"

lemma utf8_bom_point: "utf8_point 0xFEFF = utf8_bom"
  by (simp add: utf8_point_def utf8_bom_def byte_of_def)

lemma encode_bom: "encode (js_bom # s) = utf8_bom @ encode s"
  by (simp add: js_bom_def flip: utf8_bom_point)

lemma scrub_bom: "scrub s = js_bom # t \<Longrightarrow> \<exists>u. s = js_bom # u"
  by (induction s rule: scrub.induct) (auto simp: js_bom_def replacement_def split: if_splits list.splits)

lemma encode_starts_bom: "take 3 (encode s) = utf8_bom \<Longrightarrow> \<exists>u. s = js_bom # u"
proof -
  assume "take 3 (encode s) = utf8_bom"
  then have "encode s = utf8_point 0xFEFF @ drop 3 (encode s)"
    by (metis append_take_drop_id utf8_bom_point)
  moreover have "decode_from Idle (utf8_point 0xFEFF @ drop 3 (encode s)) =
      js_bom # decode_from Idle (drop 3 (encode s))"
    by (subst decode_point) (simp_all add: scalar_def point_units_def js_bom_def)
  ultimately have "scrub s = js_bom # decode_from Idle (drop 3 (encode s))"
    using td.read_encode [of s] by simp
  then show ?thesis by (rule scrub_bom)
qed

lemma decode_encode_text:
  "decode (encode s) = (case s of u # t \<Rightarrow> if u = js_bom then scrub t else scrub s | [] \<Rightarrow> [])"
proof (cases "take 3 (encode s) = utf8_bom")
  case True
  then obtain t where s: "s = js_bom # t" using encode_starts_bom by blast
  then have "encode s = utf8_bom @ encode t" by (simp only: encode_bom)
  then show ?thesis by (simp add: s decode_def td.read_encode utf8_bom_def)
next
  case False
  have "take 3 (encode (js_bom # t)) = utf8_bom" for t
    by (simp only: encode_bom) (simp add: utf8_bom_def)
  with False have "\<And>t. s \<noteq> js_bom # t" by blast
  with False show ?thesis by (auto simp: decode_def td.read_encode split: list.split)
qed

text \<open>A string whose surrogates all come in pairs passes unchanged.\<close>

fun paired :: "jsstr \<Rightarrow> bool" where
  "paired [] \<longleftrightarrow> True"
| "paired (u # us) \<longleftrightarrow>
     (if 0xD800 \<le> unat u \<and> unat u < 0xDC00 then
        (case us of v # vs \<Rightarrow> 0xDC00 \<le> unat v \<and> unat v < 0xE000 \<and> paired vs | [] \<Rightarrow> False)
      else \<not> (0xDC00 \<le> unat u \<and> unat u < 0xE000) \<and> paired us)"

lemma paired_cons:
  "paired (u # us) \<longleftrightarrow>
     (\<exists>v vs. us = v # vs \<and> 0xD800 \<le> unat u \<and> unat u < 0xDC00 \<and> 0xDC00 \<le> unat v \<and> unat v < 0xE000 \<and> paired vs) \<or>
     \<not> (0xD800 \<le> unat u \<and> unat u < 0xE000) \<and> paired us"
  by (cases us) auto

lemma scrub_ordinary: "\<not> (0xD800 \<le> unat u \<and> unat u < 0xE000) \<Longrightarrow> scrub (u # us) = u # scrub us"
  by auto

lemma scrub_pair:
  "0xD800 \<le> unat u \<Longrightarrow> unat u < 0xDC00 \<Longrightarrow> 0xDC00 \<le> unat v \<Longrightarrow> unat v < 0xE000 \<Longrightarrow>
   scrub (u # v # vs) = u # v # scrub vs"
  by simp

lemma scrub_cases:
  fixes u :: "16 word"
  shows "(\<exists>v vs. us = v # vs \<and> 0xD800 \<le> unat u \<and> unat u < 0xDC00 \<and> 0xDC00 \<le> unat v \<and> unat v < 0xE000 \<and>
      scrub (u # us) = u # v # scrub vs) \<or>
    \<not> (0xD800 \<le> unat u \<and> unat u < 0xE000) \<and> scrub (u # us) = u # scrub us \<or>
    scrub (u # us) = replacement # scrub us"
  unfolding scrub.simps(2) by (cases us) (auto simp del: scrub.simps(2))

lemma scrub_paired: "paired s \<Longrightarrow> scrub s = s"
proof (induction s rule: length_induct)
  case (1 s)
  show ?case
  proof (cases s)
    case (Cons u us)
    note IH = 1(1)
    from 1(2) [unfolded Cons paired_cons] consider
      v vs where "us = v # vs" "0xD800 \<le> unat u" "unat u < 0xDC00" "0xDC00 \<le> unat v" "unat v < 0xE000" "paired vs"
      | "\<not> (0xD800 \<le> unat u \<and> unat u < 0xE000)" "paired us"
      by blast
    then show ?thesis
    proof cases
      case (1 v vs)
      then show ?thesis using IH Cons by (simp only: scrub_pair) simp
    next
      case 2
      then show ?thesis using IH Cons scrub_ordinary [OF 2(1)] by (simp del: scrub.simps)
    qed
  qed simp
qed

lemma unat_replacement [simp]: "unat replacement = 0xFFFD"
  by (simp add: replacement_def)

lemma paired_scrub: "paired (scrub s)"
proof (induction s rule: length_induct)
  case (1 s)
  then have IH: "paired (scrub t)" if "length t < length s" for t
    using that by blast
  show ?case
  proof (cases s)
    case (Cons u us)
    with scrub_cases [of us u] IH [of us] IH show ?thesis
      by (auto simp: paired_cons simp del: paired.simps(2) scrub.simps(2))
  qed simp
qed

section \<open>There and back\<close>

text \<open>
  What a text is after a crossing to Go and back: its lone surrogates are replaced by U+FFFD, and a byte
  order mark at its very start is lost.
\<close>

definition crossed :: "jsstr \<Rightarrow> jsstr" where
  "crossed s = (case s of u # t \<Rightarrow> if u = js_bom then scrub t else scrub s | [] \<Rightarrow> [])"

lemma decode_encode: "decode (encode s) = crossed s"
  using decode_encode_text [of s] by (simp add: crossed_def)

lemma crossed_paired: "paired (crossed s)"
  by (cases s) (auto simp: crossed_def paired_scrub simp del: paired.simps(2) scrub.simps(2))

lemma crossed_whole: "paired s \<Longrightarrow> take 1 s \<noteq> [js_bom] \<Longrightarrow> crossed s = s"
  using scrub_paired [of s] by (cases s) (auto simp: crossed_def simp del: paired.simps(2) scrub.simps(2))

end
