(* ===== verification/GoCalls.thy ===== *)
theory GoCalls
  imports GoRefs GoText GoHost
begin

unbundle bit_operations_syntax

text \<open>
  The imports through which a Go program works with JavaScript values (docs/wasm_exec.js, the
  \<open>syscall/js\<close> and \<open>runtime\<close> functions of \<open>importObject\<close>). The JavaScript engine is a parameter:
  what \<open>Reflect.get\<close>, a call or a constructor does is arbitrary, and each may enter Go again, so it
  may change the tables, the memory and Go's stack pointer before it returns or throws.
\<close>

section \<open>The state and the engine\<close>

text \<open>
  \<open>running\<close> is false once \<open>wasmExit\<close> has deleted the instance and the tables. \<open>arrays\<close> are the
  \<open>Uint8Array\<close> and \<open>Uint8ClampedArray\<close> objects by identity (none of them a view of the linear
  memory); \<open>js_heap\<close> is everything else the page has.
\<close>

record 'e js_state =
  tables :: refs
  go_stack :: "32 word"
  running :: bool
  arrays :: "nat \<rightharpoonup> 8 word list"
  console :: "jsstr list \<times> jsstr"
  pending :: jsval
  exit_codes :: "int list"
  promise_kept :: bool
  js_heap :: 'e

text \<open>An operation returns (\<open>Inr\<close>) or throws a value (\<open>Inl\<close>).\<close>

type_synonym ('e, 'a) js = "'e js_state \<Rightarrow> (jsval + 'a) \<times> 'e js_state"

datatype js_key = Named jsstr | Indexed int

datatype native_error = RangeErr | TypeErr | ExitedErr

record 'e js_engine =
  reflect_get :: "jsval \<Rightarrow> js_key \<Rightarrow> ('e, jsval) js"
  reflect_set :: "jsval \<Rightarrow> js_key \<Rightarrow> jsval \<Rightarrow> ('e, unit) js"
  reflect_delete :: "jsval \<Rightarrow> js_key \<Rightarrow> ('e, unit) js"
  reflect_apply :: "jsval \<Rightarrow> jsval \<Rightarrow> jsval list \<Rightarrow> ('e, jsval) js"
  reflect_construct :: "jsval \<Rightarrow> jsval list \<Rightarrow> ('e, jsval) js"
  instance_of :: "jsval \<Rightarrow> jsval \<Rightarrow> ('e, bool) js"
  string_of :: "jsval \<Rightarrow> ('e, jsstr) js"
  parsed_length :: "jsval \<Rightarrow> ('e, rat option) js"
  set_from :: "jsval \<Rightarrow> nat \<Rightarrow> nat \<Rightarrow> ('e, unit) js"
  random_bytes :: "nat \<Rightarrow> ('e, 8 word list) js"
  new_object :: "'e js_state \<Rightarrow> nat \<times> 'e js_state"
  new_event :: "int \<Rightarrow> jsval \<Rightarrow> jsval list \<Rightarrow> 'e js_state \<Rightarrow> jsval \<times> 'e js_state"
  new_error :: "native_error \<Rightarrow> 'e js_state \<Rightarrow> jsval \<times> 'e js_state"
  go_resume :: "('e, unit) js"

definition returning :: "'a \<Rightarrow> ('e, 'a) js" where
  "returning x = (\<lambda>s. (Inr x, s))"

definition followed_by :: "('e, 'a) js \<Rightarrow> ('a \<Rightarrow> ('e, 'b) js) \<Rightarrow> ('e, 'b) js" where
  "followed_by m f = (\<lambda>s. case m s of (Inl e, t) \<Rightarrow> (Inl e, t) | (Inr x, t) \<Rightarrow> f x t)"

definition catching :: "('e, 'a) js \<Rightarrow> (jsval \<Rightarrow> ('e, 'a) js) \<Rightarrow> ('e, 'a) js" where
  "catching m h = (\<lambda>s. case m s of (Inl e, t) \<Rightarrow> h e t | (Inr x, t) \<Rightarrow> (Inr x, t))"

definition throwing :: "'e js_engine \<Rightarrow> native_error \<Rightarrow> ('e, 'a) js" where
  "throwing E k = (\<lambda>s. case new_error E k s of (e, t) \<Rightarrow> (Inl e, t))"

definition reading :: "'e js_engine \<Rightarrow> (memory \<Rightarrow> 'a option) \<Rightarrow> ('e, 'a) js" where
  "reading E f = (\<lambda>s. case f (mem (tables s)) of None \<Rightarrow> throwing E RangeErr s | Some x \<Rightarrow> (Inr x, s))"

definition changing :: "'e js_engine \<Rightarrow> (memory \<Rightarrow> memory option) \<Rightarrow> ('e, unit) js" where
  "changing E f = (\<lambda>s. case writing f (tables s) of
     (True, t) \<Rightarrow> (Inr (), s\<lparr>tables := t\<rparr>)
   | (False, t) \<Rightarrow> throwing E RangeErr (s\<lparr>tables := t\<rparr>))"

section \<open>Loading and storing\<close>

definition load :: "'e js_engine \<Rightarrow> nat \<Rightarrow> ('e, jsval) js" where
  "load E a = (\<lambda>s.
     case get_float64 a (mem (tables s)) of
       None \<Rightarrow> throwing E RangeErr s
     | Some f \<Rightarrow>
         if \<not> is_zero f \<and> is_nan f \<and> \<not> running s then throwing E TypeErr s
         else (case load_value a (tables s) of
             None \<Rightarrow> throwing E RangeErr s
           | Some v \<Rightarrow> (Inr v, s)))"

definition store :: "'e js_engine \<Rightarrow> nat \<Rightarrow> jsval \<Rightarrow> ('e, unit) js" where
  "store E a v = (\<lambda>s.
     if tabled v \<and> \<not> running s then throwing E TypeErr s
     else (case store_value a v (tables s) of
         (True, t) \<Rightarrow> (Inr (), s\<lparr>tables := t\<rparr>)
       | (False, t) \<Rightarrow> throwing E RangeErr (s\<lparr>tables := t\<rparr>)))"

definition read_int64 :: "'e js_engine \<Rightarrow> nat \<Rightarrow> ('e, int) js" where
  "read_int64 E a = reading E (get_int64 a)"

definition read_int32 :: "'e js_engine \<Rightarrow> nat \<Rightarrow> ('e, int) js" where
  "read_int32 E a = reading E (\<lambda>m. map_option sint (get_uint32 a m))"

text \<open>\<open>setInt64\<close> of a number, \<open>None\<close> for NaN, whose words are both zero.\<close>

definition write_int64 :: "'e js_engine \<Rightarrow> nat \<Rightarrow> rat option \<Rightarrow> ('e, unit) js" where
  "write_int64 E a n =
     followed_by (changing E (set_uint32 (a + 0) (case n of None \<Rightarrow> 0 | Some v \<Rightarrow> to_uint32 v)))
       (\<lambda>_. changing E (set_uint32 (a + 4)
          (case n of None \<Rightarrow> 0 | Some v \<Rightarrow> to_uint32 (of_int \<lfloor>v / 4294967296\<rfloor>))))"

definition write_byte :: "'e js_engine \<Rightarrow> nat \<Rightarrow> 8 word \<Rightarrow> ('e, unit) js" where
  "write_byte E a b = changing E (store_bytes a [b])"

text \<open>\<open>new Uint8Array(buffer, p, n)\<close>: the view as its bounds.\<close>

definition byte_view :: "'e js_engine \<Rightarrow> int \<Rightarrow> int \<Rightarrow> ('e, nat \<times> nat) js" where
  "byte_view E p n = (\<lambda>s.
     if \<not> running s then throwing E TypeErr s
     else if 0 \<le> p \<and> 0 \<le> n \<and> p + n \<le> int (mem_size (mem (tables s))) then (Inr (nat p, nat n), s)
     else throwing E RangeErr s)"

definition load_slice :: "'e js_engine \<Rightarrow> nat \<Rightarrow> ('e, nat \<times> nat) js" where
  "load_slice E a =
     followed_by (read_int64 E (a + 0)) (\<lambda>array.
     followed_by (read_int64 E (a + 8)) (\<lambda>len. byte_view E array len))"

fun load_each :: "'e js_engine \<Rightarrow> int \<Rightarrow> nat \<Rightarrow> ('e, jsval list) js" where
  "load_each E a 0 = returning []"
| "load_each E a (Suc n) =
     followed_by (if a < 0 then throwing E RangeErr else load E (nat a)) (\<lambda>v.
     followed_by (load_each E (a + 8) n) (\<lambda>vs. returning (v # vs)))"

definition load_slice_of_values :: "'e js_engine \<Rightarrow> nat \<Rightarrow> ('e, jsval list) js" where
  "load_slice_of_values E a =
     followed_by (read_int64 E (a + 0)) (\<lambda>array.
     followed_by (read_int64 E (a + 8)) (\<lambda>len.
       if 0 \<le> len \<and> len < 4294967296 then load_each E array (nat len) else throwing E RangeErr))"

definition load_string :: "'e js_engine \<Rightarrow> nat \<Rightarrow> ('e, jsstr) js" where
  "load_string E a =
     followed_by (load_slice E a) (\<lambda>(p, n).
     followed_by (reading E (load_bytes p n)) (\<lambda>bs. returning (decode bs)))"

text \<open>\<open>this._inst.exports.getsp()\<close>: where Go's stack is now.\<close>

definition get_sp :: "'e js_engine \<Rightarrow> ('e, nat) js" where
  "get_sp E = (\<lambda>s. if running s then (Inr (unat (go_stack s)), s) else throwing E TypeErr s)"

section \<open>Calls\<close>

text \<open>
  The shared end of the three calls: the result, or in the \<open>catch\<close> whatever was thrown, is stored
  where Go's stack is by then, with a flag that says which it is.
\<close>

definition answer :: "'e js_engine \<Rightarrow> nat \<Rightarrow> 8 word \<Rightarrow> jsval \<Rightarrow> ('e, unit) js" where
  "answer E off flag v =
     followed_by (get_sp E) (\<lambda>sp.
     followed_by (store E (sp + off) v) (\<lambda>_. write_byte E (sp + (off + 8)) flag))"

definition calling :: "'e js_engine \<Rightarrow> nat \<Rightarrow> ('e, jsval) js \<Rightarrow> ('e, unit) js" where
  "calling E off body = catching (followed_by body (answer E off 1)) (answer E off 0)"

definition call_body :: "'e js_engine \<Rightarrow> nat \<Rightarrow> ('e, jsval) js" where
  "call_body E sp =
     followed_by (load E (sp + 8)) (\<lambda>v.
     followed_by (load_string E (sp + 16)) (\<lambda>name.
     followed_by (reflect_get E v (Named name)) (\<lambda>m.
     followed_by (load_slice_of_values E (sp + 32)) (\<lambda>args. reflect_apply E m v args))))"

definition value_call :: "'e js_engine \<Rightarrow> 32 word \<Rightarrow> ('e, unit) js" where
  "value_call E sp = calling E 56 (call_body E (unat sp))"

definition invoke_body :: "'e js_engine \<Rightarrow> nat \<Rightarrow> ('e, jsval) js" where
  "invoke_body E sp =
     followed_by (load E (sp + 8)) (\<lambda>v.
     followed_by (load_slice_of_values E (sp + 16)) (\<lambda>args. reflect_apply E v Undef args))"

definition value_invoke :: "'e js_engine \<Rightarrow> 32 word \<Rightarrow> ('e, unit) js" where
  "value_invoke E sp = calling E 40 (invoke_body E (unat sp))"

definition new_body :: "'e js_engine \<Rightarrow> nat \<Rightarrow> ('e, jsval) js" where
  "new_body E sp =
     followed_by (load E (sp + 8)) (\<lambda>v.
     followed_by (load_slice_of_values E (sp + 16)) (\<lambda>args. reflect_construct E v args))"

definition value_new :: "'e js_engine \<Rightarrow> 32 word \<Rightarrow> ('e, unit) js" where
  "value_new E sp = calling E 40 (new_body E (unat sp))"

section \<open>Properties of objects\<close>

definition value_get :: "'e js_engine \<Rightarrow> 32 word \<Rightarrow> ('e, unit) js" where
  "value_get E sp0 =
     (let sp = unat sp0 in
      followed_by (load E (sp + 8)) (\<lambda>v.
      followed_by (load_string E (sp + 16)) (\<lambda>p.
      followed_by (reflect_get E v (Named p)) (\<lambda>result.
      followed_by (get_sp E) (\<lambda>sp. store E (sp + 32) result)))))"

definition value_set :: "'e js_engine \<Rightarrow> 32 word \<Rightarrow> ('e, unit) js" where
  "value_set E sp0 =
     (let sp = unat sp0 in
      followed_by (load E (sp + 8)) (\<lambda>v.
      followed_by (load_string E (sp + 16)) (\<lambda>p.
      followed_by (load E (sp + 32)) (\<lambda>x. reflect_set E v (Named p) x))))"

definition value_delete :: "'e js_engine \<Rightarrow> 32 word \<Rightarrow> ('e, unit) js" where
  "value_delete E sp0 =
     (let sp = unat sp0 in
      followed_by (load E (sp + 8)) (\<lambda>v.
      followed_by (load_string E (sp + 16)) (\<lambda>p. reflect_delete E v (Named p))))"

definition value_index :: "'e js_engine \<Rightarrow> 32 word \<Rightarrow> ('e, unit) js" where
  "value_index E sp0 =
     (let sp = unat sp0 in
      followed_by (load E (sp + 8)) (\<lambda>v.
      followed_by (read_int64 E (sp + 16)) (\<lambda>i.
      followed_by (reflect_get E v (Indexed i)) (\<lambda>result. store E (sp + 24) result))))"

definition value_set_index :: "'e js_engine \<Rightarrow> 32 word \<Rightarrow> ('e, unit) js" where
  "value_set_index E sp0 =
     (let sp = unat sp0 in
      followed_by (load E (sp + 8)) (\<lambda>v.
      followed_by (read_int64 E (sp + 16)) (\<lambda>i.
      followed_by (load E (sp + 24)) (\<lambda>x. reflect_set E v (Indexed i) x))))"

definition value_length :: "'e js_engine \<Rightarrow> 32 word \<Rightarrow> ('e, unit) js" where
  "value_length E sp0 =
     (let sp = unat sp0 in
      followed_by (load E (sp + 8)) (\<lambda>v.
      followed_by (parsed_length E v) (\<lambda>n. write_int64 E (sp + 16) n)))"

definition value_instance_of :: "'e js_engine \<Rightarrow> 32 word \<Rightarrow> ('e, unit) js" where
  "value_instance_of E sp0 =
     (let sp = unat sp0 in
      followed_by (load E (sp + 8)) (\<lambda>v.
      followed_by (load E (sp + 16)) (\<lambda>t.
      followed_by (instance_of E v t) (\<lambda>b. write_byte E (sp + 24) (if b then 1 else 0)))))"

section \<open>Strings and bytes\<close>

definition string_val :: "'e js_engine \<Rightarrow> 32 word \<Rightarrow> ('e, unit) js" where
  "string_val E sp0 =
     (let sp = unat sp0 in
      followed_by (load_string E (sp + 8)) (\<lambda>str. store E (sp + 24) (JString str)))"

definition new_bytes :: "'e js_engine \<Rightarrow> 8 word list \<Rightarrow> ('e, jsval) js" where
  "new_bytes E bs =
     (\<lambda>s. case new_object E s of (i, t) \<Rightarrow> (Inr (JObject i), t\<lparr>arrays := (arrays t)(i \<mapsto> bs)\<rparr>))"

definition value_prepare_string :: "'e js_engine \<Rightarrow> 32 word \<Rightarrow> ('e, unit) js" where
  "value_prepare_string E sp0 =
     (let sp = unat sp0 in
      followed_by (load E (sp + 8)) (\<lambda>v.
      followed_by (string_of E v) (\<lambda>text.
      followed_by (new_bytes E (encode text)) (\<lambda>str.
      followed_by (store E (sp + 16) str) (\<lambda>_.
        write_int64 E (sp + 24) (Some (of_nat (length (encode text)))))))))"

definition bytes_of :: "jsval \<Rightarrow> 'e js_state \<Rightarrow> 8 word list option" where
  "bytes_of v s = (case v of JObject i \<Rightarrow> arrays s i | _ \<Rightarrow> None)"

text \<open>\<open>view.set(bytes)\<close> on a view of the linear memory.\<close>

definition set_view :: "'e js_engine \<Rightarrow> nat \<times> nat \<Rightarrow> 8 word list \<Rightarrow> ('e, unit) js" where
  "set_view E view bs =
     (if length bs \<le> snd view then changing E (store_bytes (fst view) bs) else throwing E RangeErr)"

definition value_load_string :: "'e js_engine \<Rightarrow> 32 word \<Rightarrow> ('e, unit) js" where
  "value_load_string E sp0 =
     (let sp = unat sp0 in
      followed_by (load E (sp + 8)) (\<lambda>str.
      followed_by (load_slice E (sp + 16)) (\<lambda>view. \<lambda>s.
        case bytes_of str s of
          Some bs \<Rightarrow> set_view E view bs s
        | None \<Rightarrow> set_from E str (fst view) (snd view) s)))"

definition copy_bytes_to_go :: "'e js_engine \<Rightarrow> 32 word \<Rightarrow> ('e, unit) js" where
  "copy_bytes_to_go E sp0 =
     (let sp = unat sp0 in
      followed_by (load_slice E (sp + 8)) (\<lambda>dst.
      followed_by (load E (sp + 32)) (\<lambda>src. \<lambda>s.
        case bytes_of src s of
          None \<Rightarrow> write_byte E (sp + 48) 0 s
        | Some bs \<Rightarrow>
            (let to_copy = take (snd dst) bs in
             followed_by (set_view E dst to_copy) (\<lambda>_.
             followed_by (write_int64 E (sp + 40) (Some (of_nat (length to_copy)))) (\<lambda>_.
               write_byte E (sp + 48) 1)) s))))"

definition copy_bytes_to_js :: "'e js_engine \<Rightarrow> 32 word \<Rightarrow> ('e, unit) js" where
  "copy_bytes_to_js E sp0 =
     (let sp = unat sp0 in
      followed_by (load E (sp + 8)) (\<lambda>dst.
      followed_by (load_slice E (sp + 16)) (\<lambda>(p, n). \<lambda>s.
        case (dst, bytes_of dst s) of
          (JObject i, Some old) \<Rightarrow>
            followed_by (reading E (load_bytes p (min n (length old)))) (\<lambda>to_copy.
            followed_by (\<lambda>s. (Inr (), s\<lparr>arrays := (arrays s)(i \<mapsto> to_copy @ drop (length to_copy) old)\<rparr>)) (\<lambda>_.
            followed_by (write_int64 E (sp + 40) (Some (of_nat (length to_copy)))) (\<lambda>_.
              write_byte E (sp + 48) 1))) s
        | _ \<Rightarrow> write_byte E (sp + 48) 0 s)))"

section \<open>The runtime\<close>

definition wasm_exit :: "'e js_engine \<Rightarrow> 32 word \<Rightarrow> ('e, unit) js" where
  "wasm_exit E sp =
     followed_by (read_int32 E (unat sp + 8)) (\<lambda>code s.
       (Inr (), s\<lparr>running := False, exit_codes := exit_codes s @ [code]\<rparr>))"

definition wasm_write :: "'e js_engine \<Rightarrow> 32 word \<Rightarrow> ('e, unit) js" where
  "wasm_write E sp0 =
     (let sp = unat sp0 in
      followed_by (read_int64 E (sp + 8)) (\<lambda>fd.
      followed_by (read_int64 E (sp + 16)) (\<lambda>p.
      followed_by (read_int32 E (sp + 24)) (\<lambda>n.
      followed_by (byte_view E p n) (\<lambda>view.
      followed_by (reading E (load_bytes (fst view) (snd view))) (\<lambda>buf s.
        (Inr (), s\<lparr>console := snd (write_sync decode buf (console s))\<rparr>)))))))"

text \<open>The clocks are arguments: the nanoseconds since the origin, and the milliseconds of the date.\<close>

definition nanotime1 :: "'e js_engine \<Rightarrow> rat \<Rightarrow> 32 word \<Rightarrow> ('e, unit) js" where
  "nanotime1 E now sp = write_int64 E (unat sp + 8) (Some now)"

definition walltime :: "'e js_engine \<Rightarrow> nat \<Rightarrow> 32 word \<Rightarrow> ('e, unit) js" where
  "walltime E msec sp0 =
     (let sp = unat sp0 in
      followed_by (write_int64 E (sp + 8) (Some (of_nat msec / 1000))) (\<lambda>_.
        changing E (set_uint32 (sp + 16) (to_uint32 (of_nat (msec mod 1000 * 1000000))))))"

definition get_random_data :: "'e js_engine \<Rightarrow> 32 word \<Rightarrow> ('e, unit) js" where
  "get_random_data E sp =
     followed_by (load_slice E (unat sp + 8)) (\<lambda>view.
     followed_by (random_bytes E (snd view)) (\<lambda>bs. set_view E view bs))"

section \<open>Functions that Go gives away\<close>

text \<open>
  \<open>_resume\<close> enters Go, whose code is the engine's \<open>go_resume\<close>; a wrapped function hands its
  arguments over in \<open>_pendingEvent\<close> and returns the property that Go has set on the event.
\<close>

definition resume_go :: "'e js_engine \<Rightarrow> ('e, unit) js" where
  "resume_go E = (\<lambda>s.
     if \<not> running s then throwing E ExitedErr s
     else followed_by (go_resume E) (\<lambda>_ t.
       (Inr (), if running t then t else t\<lparr>promise_kept := True\<rparr>)) s)"

definition func_wrapper :: "'e js_engine \<Rightarrow> int \<Rightarrow> jsval \<Rightarrow> jsval list \<Rightarrow> ('e, jsval) js" where
  "func_wrapper E i this args = (\<lambda>s.
     case new_event E i this args s of
       (event, t) \<Rightarrow>
         followed_by (resume_go E) (\<lambda>_. reflect_get E event (Named (lit ''result'')))
           (t\<lparr>pending := event\<rparr>))"

end
