(* ===== verification/GoCallLaws.thy ===== *)
theory GoCallLaws
  imports GoCalls
begin

unbundle bit_operations_syntax

text \<open>
  What the imports of docs/wasm_exec.js promise to Go: where and how a call answers, what Go can
  tell from a reference without asking, that strings and bytes arrive whole, and that nothing
  reaches Go after it has exited.
\<close>

section \<open>Storing a value and reading it back\<close>

definition memory_apart :: "nat \<Rightarrow> nat \<Rightarrow> memory \<Rightarrow> memory \<Rightarrow> bool" where
  "memory_apart a n m m' \<longleftrightarrow> mem_size m' = mem_size m \<and>
     (\<forall>b k. b + k \<le> a \<or> a + n \<le> b \<longrightarrow> load_bytes b k m' = load_bytes b k m)"

lemma memory_apart_trans:
  "memory_apart a n m m1 \<Longrightarrow> memory_apart a n m1 m2 \<Longrightarrow> memory_apart a n m m2"
  by (simp add: memory_apart_def)

lemma memory_apart_part:
  "memory_apart b k m m' \<Longrightarrow> a \<le> b \<Longrightarrow> b + k \<le> a + n \<Longrightarrow> memory_apart a n m m'"
  by (auto simp: memory_apart_def)

lemma memory_apart_store: "store_bytes a bs m = Some m' \<Longrightarrow> memory_apart a (length bs) m m'"
  by (auto simp: memory_apart_def store_bytes_size intro: load_store_apart)

lemma memory_apart_words: "set_words a h l m = Some m' \<Longrightarrow> memory_apart a 8 m m'"
proof -
  assume "set_words a h l m = Some m'"
  then obtain m1 where "store_bytes (a + 4) (le_bytes h) m = Some m1" "store_bytes a (le_bytes l) m1 = Some m'"
    by (auto simp: set_words_def set_uint32_def bind_eq_Some_conv)
  then have "memory_apart a 8 m m1" "memory_apart a 8 m1 m'"
    by (auto dest!: memory_apart_store intro: memory_apart_part)
  then show ?thesis by (rule memory_apart_trans)
qed

lemma get_uint32_apart:
  "memory_apart a n m m' \<Longrightarrow> b + 4 \<le> a \<or> a + n \<le> b \<Longrightarrow> get_uint32 b m' = get_uint32 b m"
  unfolding memory_apart_def get_uint32_def by metis

lemma load_value_apart:
  assumes "memory_apart a n (mem t) m'" "b + 8 \<le> a \<or> a + n \<le> b"
  shows "load_value b (t\<lparr>mem := m'\<rparr>) = load_value b t"
proof -
  have "get_uint32 b m' = get_uint32 b (mem t)" "get_uint32 (b + 4) m' = get_uint32 (b + 4) (mem t)"
    using assms(2) by (auto intro!: get_uint32_apart [OF assms(1)])
  then show ?thesis
    by (cases "get_uint32 b (mem t)"; cases "get_uint32 (b + 4) (mem t)")
      (simp_all add: load_value_def get_float64_def)
qed

lemma store_value_loads:
  assumes ok: "table_ok t h" and room: "a + 8 \<le> mem_size (mem t)" "vals_len t < 4294967295"
  obtains t' where "store_value a v t = (True, t')" "load_value a t' = Some (map_key v)"
    "table_ok t' (if tabled v then (fst (intern v t), v) # h else h)" "memory_apart a 8 (mem t) (mem t')"
proof -
  let ?w = "\<lparr>tab = t, held = h\<rparr>"
  have w: "world_ok ?w" "ref_ok ?w (TakeRef a v)"
    using assms by (simp_all add: world_ok_def)
  have "\<exists>t'. store_value a v t = (True, t') \<and> memory_apart a 8 (mem t) (mem t')"
  proof (cases "tabled v")
    case True
    from store_tabled [OF room(1) True] memory_apart_words show ?thesis
      by (metis (no_types, lifting) refs.select_convs(6) refs.surjective refs.update_convs(6))
  next
    case False
    from store_direct [OF room(1) False] memory_apart_words show ?thesis
      by (metis (no_types, lifting) refs.select_convs(6) refs.surjective refs.update_convs(6))
  qed
  then obtain t' where t': "store_value a v t = (True, t')" "memory_apart a 8 (mem t) (mem t')"
    by blast
  have "load_value a t' = Some (map_key v)"
    using load_taken [OF w] load_plain [OF w] t'(1) by (cases "tabled v") simp_all
  moreover have "table_ok t' (if tabled v then (fst (intern v t), v) # h else h)"
    using world_ok_step [OF w] t'(1) by (cases "tabled v") (simp_all add: world_ok_def)
  ultimately show thesis using t' that by blast
qed

lemma changing_store:
  assumes "a + length bs \<le> mem_size (mem (tables s))"
  obtains m where "changing E (store_bytes a bs) s = (Inr (), s\<lparr>tables := (tables s)\<lparr>mem := m\<rparr>\<rparr>)"
    "store_bytes a bs (mem (tables s)) = Some m"
  using assms by (auto simp: changing_def writing_def store_bytes_def)

lemma answer_stores:
  assumes ok: "table_ok (tables s) h" and run: "running s"
    and room: "unat (go_stack s) + off + 9 \<le> mem_size (mem (tables s))" "vals_len (tables s) < 4294967295"
    and a: "a = unat (go_stack s) + off"
  obtains t i where "answer E off flag v s = (Inr (), s\<lparr>tables := t\<rparr>)"
    "load_value a t = Some (map_key v)" "load_bytes (a + 8) 1 (mem t) = Some [flag]"
    "table_ok t (if tabled v then (i, v) # h else h)" "memory_apart a 9 (mem (tables s)) (mem t)"
proof -
  have "a + 8 \<le> mem_size (mem (tables s))" using room(1) a by simp
  from store_value_loads [OF ok this room(2), of v] obtain t' where
    t': "store_value a v (tables s) = (True, t')" "load_value a t' = Some (map_key v)"
    "table_ok t' (if tabled v then (fst (intern v (tables s)), v) # h else h)"
    "memory_apart a 8 (mem (tables s)) (mem t')" .
  have "a + 8 + length [flag] \<le> mem_size (mem (tables (s\<lparr>tables := t'\<rparr>)))"
    using t'(4) room(1) a by (simp add: memory_apart_def)
  then obtain m where
    m: "changing E (store_bytes (a + 8) [flag]) (s\<lparr>tables := t'\<rparr>) = (Inr (), s\<lparr>tables := t'\<lparr>mem := m\<rparr>\<rparr>)"
      "store_bytes (a + 8) [flag] (mem t') = Some m"
    by (rule changing_store [where E = E]) simp
  have "answer E off flag v s = (Inr (), s\<lparr>tables := t'\<lparr>mem := m\<rparr>\<rparr>)"
    using run t'(1) m(1) a
    by (simp add: answer_def followed_by_def get_sp_def store_def write_byte_def add.assoc)
  moreover have "load_value a (t'\<lparr>mem := m\<rparr>) = Some (map_key v)"
    using t'(2) load_value_apart [OF memory_apart_store [OF m(2)], of a] by simp
  moreover have "load_bytes (a + 8) 1 m = Some [flag]"
    using load_store_same [OF m(2)] by simp
  moreover have "memory_apart a 9 (mem (tables s)) m"
    using memory_apart_part [OF t'(4), of a 9] memory_apart_part [OF memory_apart_store [OF m(2)], of a 9]
    by (auto intro: memory_apart_trans)
  ultimately show thesis using t'(3) that by simp
qed

definition outcome :: "jsval + jsval \<Rightarrow> jsval" where
  "outcome r = (case r of Inl e \<Rightarrow> e | Inr v \<Rightarrow> v)"

definition outcome_flag :: "jsval + jsval \<Rightarrow> 8 word" where
  "outcome_flag r = (case r of Inl _ \<Rightarrow> 0 | Inr _ \<Rightarrow> 1)"

lemma calling_answers:
  assumes "body s = (r, s1)" "answer E off (outcome_flag r) (outcome r) s1 = (Inr (), s2)"
  shows "calling E off body s = (Inr (), s2)"
  using assms by (cases r) (simp_all add: calling_def catching_def followed_by_def outcome_def outcome_flag_def)


text \<open>The three calls, each with its \<open>try\<close> block and the place of its answer.\<close>

definition js_calls :: "'e js_engine \<Rightarrow> 32 word \<Rightarrow> (('e, unit) js \<times> ('e, jsval) js \<times> nat) list" where
  "js_calls E sp =
     [(value_call E sp, call_body E (unat sp), 56), (value_invoke E sp, invoke_body E (unat sp), 40),
      (value_new E sp, new_body E (unat sp), 40)]"

lemma js_calls_calling: "(op, body, off) \<in> set (js_calls E sp) \<Longrightarrow> op = calling E off body"
  by (auto simp: js_calls_def value_call_def value_invoke_def value_new_def)

section \<open>What a reference tells\<close>

datatype js_type = TUndefined | TNull | TBoolean | TNumber | TString | TSymbol | TObject | TFunction

text \<open>
  How Go reads the type of a reference off its two words, without asking JavaScript: undefined is
  zero, small identifiers are the fixed values, a number is no quiet NaN or one of two fixed
  references, and the rest is the flag in the low bits of the head.
\<close>

definition type_of_words :: "32 word \<Rightarrow> 32 word \<Rightarrow> js_type option" where
  "type_of_words h l =
     (if h = 0 \<and> l = 0 then Some TUndefined
      else if h AND 0x7FF80000 \<noteq> 0x7FF80000 \<or> h = 0x7FF80000 \<and> (l = 0 \<or> l = 1) then Some TNumber
      else if h = 0x7FF80000 then
        (if l = 2 then Some TNull else if l = 3 \<or> l = 4 then Some TBoolean else None)
      else if h AND 7 = 1 then Some TObject else if h AND 7 = 2 then Some TString
      else if h AND 7 = 3 then Some TSymbol else if h AND 7 = 4 then Some TFunction else None)"

fun js_type_of :: "jsval \<Rightarrow> js_type option" where
  "js_type_of Undef = Some TUndefined"
| "js_type_of JNull = Some TNull"
| "js_type_of (JBool _) = Some TBoolean"
| "js_type_of (JNumber _) = Some TNumber"
| "js_type_of (JString _) = Some TString"
| "js_type_of (JSymbol _) = Some TSymbol"
| "js_type_of (JObject _) = Some TObject"
| "js_type_of (JFunction _) = Some TFunction"
| "js_type_of (JBigInt _) = None"

lemma intern_fixed:
  assumes "table_ok t h" "fixed_ids (map_key v) = Some i"
  shows "fst (intern v t) = i"
proof -
  have "ids t (map_key v) = Some i"
    using assms by (metis domI fixed_part_def table_ok_def)
  then show ?thesis by (simp add: intern_def)
qed

lemma number_words:
  assumes "\<not> is_nan d" "\<not> is_zero d"
  shows "type_of_words (hi_word d) (lo_word d) = Some TNumber"
proof -
  have "hi_word d AND 0x7FF80000 \<noteq> 0x7FF80000"
  proof
    assume q: "hi_word d AND 0x7FF80000 = 0x7FF80000"
    have "hi_word d AND 0x7FF00000 = (hi_word d AND 0x7FF80000) AND 0x7FF00000"
      by (simp add: and.assoc)
    moreover have "(hi_word d AND 0x000FFFFF) AND 0x80000 = (hi_word d AND 0x7FF80000) AND 0x80000"
      by (simp add: and.assoc)
    ultimately have "hi_word d AND 0x7FF00000 = 0x7FF00000" "hi_word d AND 0x000FFFFF \<noteq> 0"
      using q by auto
    with assms(1) show False by (simp add: is_nan_def)
  qed
  moreover have "\<not> (hi_word d = 0 \<and> lo_word d = 0)"
    using assms(2) by (auto simp: is_zero_def)
  ultimately show ?thesis by (simp add: type_of_words_def)
qed


lemma intern_id:
  assumes ok: "table_ok t h" "tabled v"
  shows "fst (intern v t) \<le> vals_len t"
    and "fst (intern v t) < 7 \<Longrightarrow> first_values ! fst (intern v t) = map_key v"
proof -
  let ?i = "fst (intern v t)"
  have i: "?i = (case ids t (map_key v) of Some j \<Rightarrow> j | None \<Rightarrow> fresh_id t)"
    using intern_new [of t v] by (auto simp: intern_def split: option.split)
  have "fresh_id t \<le> vals_len t"
    using ok(1) last_in_set [of "id_pool t"] by (auto simp: fresh_id_def table_defs less_imp_le)
  then show "?i \<le> vals_len t"
    using ids_D [OF ok(1)] i by (auto split: option.splits intro: less_imp_le)
  assume "?i < 7"
  then show "first_values ! ?i = map_key v"
    using ids_D [OF ok(1)] i fresh_id_unused(1) [OF ok(1)] ok(1)
    by (auto simp: table_ok_def fixed_part_def split: option.splits)
qed

lemma tabled_words:
  assumes ok: "table_ok t h" "tabled v" and len: "vals_len t < 4294967295"
  shows "type_of_words (0x7FF80000 OR type_flag v) (word_of_nat (fst (intern v t))) = js_type_of v"
proof -
  let ?i = "fst (intern v t)"
  have small: "(word_of_nat ?i :: 32 word) = word_of_nat k \<longleftrightarrow> ?i = k" if "k < 5" for k
    using that intern_id(1) [OF ok] len by (simp add: word_of_nat_eq_iff take_bit_nat_eq_self)
  note small0 = small [of 0, simplified] small [of 1, simplified] small [of 2, simplified] small [of 3, simplified]
    small [of 4, simplified]
  show ?thesis
  proof (cases v)
    case (JNumber d)
    then have "map_key v = JNumber zero_double"
      using ok(2) by (auto simp: tabled_def by_itself_def map_key_def split: if_splits)
    with intern_fixed [OF ok(1), of v 1] have "?i = 1"
      by (simp add: fixed_ids_zero)
    with JNumber show ?thesis
      by (simp add: type_of_words_def type_flag_def)
  next
    case JNull
    then have "?i = 2"
      using intern_fixed [OF ok(1), of v 2] by (simp add: fixed_ids_def map_key_def js_global_def js_go_def)
    with JNull show ?thesis by (simp add: type_of_words_def type_flag_def)
  next
    case (JBool b)
    then have "?i = (if b then 3 else 4)"
      using intern_fixed [OF ok(1), of v "if b then 3 else 4"]
      by (simp add: fixed_ids_def map_key_def js_global_def js_go_def)
    with JBool show ?thesis by (simp add: type_of_words_def type_flag_def)
  next
    case (JBigInt n)
    have "\<not> ?i < 7"
    proof
      assume "?i < 7"
      then have "JBigInt n \<in> set first_values"
        using intern_id(2) [OF ok] JBigInt nth_mem [of ?i first_values]
        by (simp add: map_key_def first_values_def)
      then show False by (simp add: first_values_def js_global_def js_go_def)
    qed
    with JBigInt small0 show ?thesis
      by (simp add: type_of_words_def type_flag_def)
  qed (use ok(2) in \<open>simp_all add: tabled_def type_of_words_def type_flag_def\<close>)
qed

lemma direct_words:
  assumes "\<not> tabled v"
  shows "type_of_words (hi_word (plain_double v)) (lo_word (plain_double v)) = js_type_of v"
proof (cases "v = Undef")
  case True
  then show ?thesis
    by (simp add: plain_double_def by_itself_def zero_double_def type_of_words_def)
next
  case False
  with assms obtain d where "v = JNumber d" "\<not> is_zero d"
    by (auto simp: tabled_def by_itself_def split: jsval.splits if_splits)
  then show ?thesis
    using number_words [of d]
    by (cases "is_nan d") (simp_all add: plain_double_def by_itself_def nan_double_def type_of_words_def [of 2146959360])
qed

section \<open>Properties\<close>

text \<open>
  C21: Go can tell the type of every JavaScript value from the eight bytes of its reference alone:
  whatever has been stored and given back before, the two words that are written for a value read
  back as exactly its type, the flag in the head of the NaN included, and a number is never taken
  for a reference nor a reference for a number. Only a BigInt reads as no type.
\<close>

theorem reference_tells_the_type:
  assumes "allowed ref_step ref_ok (boot_world m) (es @ [TakeRef a v])"
    and "t = tab (foldl ref_step (boot_world m) (es @ [TakeRef a v]))"
  shows "\<exists>h l. get_uint32 (a + 4) (mem t) = Some h \<and> get_uint32 a (mem t) = Some l \<and>
    type_of_words h l = js_type_of v"
proof -
  let ?w = "foldl ref_step (boot_world m) es"
  have ok: "table_ok (tab ?w) (held ?w)" and room: "a + 8 \<le> mem_size (mem (tab ?w))" "vals_len (tab ?w) < 4294967295"
    using assms(1) world_ok_run by (auto simp: allowed_append world_ok_def)
  have t: "t = snd (store_value a v (tab ?w))"
    by (simp add: assms(2) case_prod_beta)
  show ?thesis
  proof (cases "tabled v")
    case True
    from store_tabled [OF room(1) True] obtain m' where
      "store_value a v (tab ?w) = (True, (add_count 1 (fst (intern v (tab ?w))) (snd (intern v (tab ?w))))\<lparr>mem := m'\<rparr>)"
      "set_words a (0x7FF80000 OR type_flag v) (word_of_nat (fst (intern v (tab ?w)))) (mem (tab ?w)) = Some m'" .
    then show ?thesis
      using get_set_words tabled_words [OF ok True room(2)] by (fastforce simp: t)
  next
    case False
    from store_direct [OF room(1) False] obtain m' where
      "store_value a v (tab ?w) = (True, (tab ?w)\<lparr>mem := m'\<rparr>)"
      "set_words a (hi_word (plain_double v)) (lo_word (plain_double v)) (mem (tab ?w)) = Some m'" .
    then show ?thesis
      using get_set_words direct_words [OF False] by (fastforce simp: t)
  qed
qed

theorem reference_tells_the_type_witness:
  "\<exists>h l. get_uint32 12 (mem (tab (ref_step (boot_world demo_memory) (TakeRef 8 (JFunction 3))))) = Some h \<and>
     get_uint32 8 (mem (tab (ref_step (boot_world demo_memory) (TakeRef 8 (JFunction 3))))) = Some l \<and>
     type_of_words h l = Some TFunction"
  using reference_tells_the_type [of demo_memory "[]" 8 "JFunction 3"]
  by (simp add: boot_world_def run_tables_def demo_memory_def del: ref_step.simps)

text \<open>
  C22: a call, a call without receiver and a constructor answer exactly once and completely: the
  result, or the thrown value with the flag 0, is stored at the place that follows from where Go's
  stack is when the call ends (a callback may have moved it), Go gets exactly one new reference to
  it, and no other byte of the memory changes after the call has ended. Nothing is thrown at Go.
\<close>

theorem call_answers_on_the_current_stack:
  assumes "(op, body, off) \<in> set (js_calls E sp)" and "body s = (r, s1)" and "running s1"
    and "table_ok (tables s1) h" and "vals_len (tables s1) < 4294967295"
    and "a = unat (go_stack s1) + off" and "a + 9 \<le> mem_size (mem (tables s1))"
  shows "\<exists>t i. op s = (Inr (), s1\<lparr>tables := t\<rparr>) \<and>
    load_value a t = Some (map_key (outcome r)) \<and> load_bytes (a + 8) 1 (mem t) = Some [outcome_flag r] \<and>
    table_ok t (if tabled (outcome r) then (i, outcome r) # h else h) \<and>
    memory_apart a 9 (mem (tables s1)) (mem t)"
proof -
  have "unat (go_stack s1) + off + 9 \<le> mem_size (mem (tables s1))"
    using assms(6,7) by simp
  from answer_stores [OF assms(4,3) this assms(5,6), of E "outcome_flag r" "outcome r"] obtain t i where
    t: "answer E off (outcome_flag r) (outcome r) s1 = (Inr (), s1\<lparr>tables := t\<rparr>)"
      "load_value a t = Some (map_key (outcome r))" "load_bytes (a + 8) 1 (mem t) = Some [outcome_flag r]"
      "table_ok t (if tabled (outcome r) then (i, outcome r) # h else h)"
      "memory_apart a 9 (mem (tables s1)) (mem t)" .
  have "op s = (Inr (), s1\<lparr>tables := t\<rparr>)"
    unfolding js_calls_calling [OF assms(1)] by (rule calling_answers) (rule assms(2), rule t(1))
  with t show ?thesis by blast
qed

text \<open>A small page for examples: every call throws a text and has moved Go's stack to 64.\<close>

definition demo_engine :: "unit js_engine" where
  "demo_engine =
     \<lparr>reflect_get = (\<lambda>v k. returning (JFunction 7)), reflect_set = (\<lambda>v k x. returning ()),
      reflect_delete = (\<lambda>v k. returning ()),
      reflect_apply = (\<lambda>f this args s. (Inl (JString (lit ''no'')), s\<lparr>go_stack := 64\<rparr>)),
      reflect_construct = (\<lambda>f args. returning (JObject 9)), instance_of = (\<lambda>v t. returning False),
      string_of = (\<lambda>v. returning (case v of JString t \<Rightarrow> t | _ \<Rightarrow> lit ''k'')), parsed_length = (\<lambda>v. returning None),
      set_from = (\<lambda>v p n. returning ()), random_bytes = (\<lambda>n. returning (replicate n 4)),
      new_object = (\<lambda>s. (20, s)), new_event = (\<lambda>i this args s. (JObject 21, s)),
      new_error = (\<lambda>k s. (JObject 22, s)), go_resume = returning ()\<rparr>"

definition blank_memory :: memory where
  "blank_memory = \<lparr>mem_size = 128, mem_byte = (\<lambda>_. 0)\<rparr>"

definition demo_page :: "memory \<Rightarrow> unit js_state" where
  "demo_page m =
     \<lparr>tables = run_tables m, go_stack = 0, running = True, arrays = Map.empty, console = ([], []),
      pending = JNull, exit_codes = [], promise_kept = False, js_heap = ()\<rparr>"

lemmas page_simps = demo_page_def run_tables_def blank_memory_def

lemma blank_uint32: "a + 4 \<le> 128 \<Longrightarrow> get_uint32 a blank_memory = Some 0"
  by (simp add: get_uint32_bytes blank_memory_def)

lemma blank_int64: "a + 8 \<le> 128 \<Longrightarrow> get_int64 a blank_memory = Some 0"
  by (simp add: get_int64_def blank_uint32 round_double_def)

lemma blank_load: "a + 8 \<le> 128 \<Longrightarrow> load E a (demo_page blank_memory) = (Inr Undef, demo_page blank_memory)"
  by (simp add: load_def load_value_def get_float64_def blank_uint32 is_zero_def demo_page_def run_tables_def)

theorem call_answers_on_the_current_stack_witness:
  "\<exists>t. value_invoke demo_engine 0 (demo_page blank_memory) =
       (Inr (), (demo_page blank_memory)\<lparr>go_stack := 64, tables := t\<rparr>) \<and>
     load_value 104 t = Some (JString (lit ''no'')) \<and> load_bytes 112 1 (mem t) = Some [0]"
proof -
  let ?s1 = "(demo_page blank_memory)\<lparr>go_stack := 64\<rparr>"
  have "load_slice_of_values demo_engine 16 (demo_page blank_memory) = (Inr [], demo_page blank_memory)"
    by (simp add: load_slice_of_values_def followed_by_def read_int64_def reading_def blank_int64 returning_def
        demo_page_def run_tables_def)
  then have body: "invoke_body demo_engine (unat (0 :: 32 word)) (demo_page blank_memory) = (Inl (JString (lit ''no'')), ?s1)"
    by (simp add: invoke_body_def followed_by_def blank_load demo_engine_def)
  have tabs: "tables ?s1 = run_tables blank_memory"
    by (simp add: demo_page_def)
  show ?thesis
    using call_answers_on_the_current_stack [of "value_invoke demo_engine 0" "invoke_body demo_engine (unat (0 :: 32 word))" 40
        demo_engine 0 "demo_page blank_memory" "Inl (JString (lit ''no''))" ?s1 "[]" 104] body
    unfolding tabs
    by (auto simp: js_calls_def table_ok_run_tables outcome_def outcome_flag_def map_key_def)
      (auto simp: page_simps)
qed

section \<open>Reading the arguments\<close>

lemma load_runs: "running s \<Longrightarrow> load_value a (tables s) = Some v \<Longrightarrow> load E a s = (Inr v, s)"
  by (auto simp: load_def load_value_def split: option.splits)

lemma read_int64_runs: "get_int64 a (mem (tables s)) = Some i \<Longrightarrow> read_int64 E a s = (Inr i, s)"
  by (simp add: read_int64_def reading_def)

lemma load_each_runs:
  assumes "running s" "\<forall>k < length vs. load_value (a + 8 * k) (tables s) = Some (vs ! k)"
  shows "load_each E (int a) (length vs) s = (Inr vs, s)"
  using assms(2)
proof (induction vs arbitrary: a)
  case (Cons v vs)
  have "load_value a (tables s) = Some v"
    using Cons.prems by (metis add.right_neutral length_greater_0_conv list.distinct(1) mult_0_right nth_Cons_0)
  moreover have "\<forall>k < length vs. load_value (a + 8 + 8 * k) (tables s) = Some (vs ! k)"
    using Cons.prems by (force simp: algebra_simps dest: spec [of _ "Suc _"])
  then have "load_each E (int (a + 8)) (length vs) s = (Inr vs, s)" by (rule Cons.IH)
  then have "load_each E (int a + 8) (length vs) s = (Inr vs, s)"
    by (simp add: add.commute)
  ultimately show ?case
    using load_runs [OF assms(1)] by (simp add: followed_by_def returning_def)
qed (simp add: returning_def)

text \<open>A slice of references, or of bytes, that lies at an address.\<close>

definition slice_at :: "nat \<Rightarrow> nat \<Rightarrow> nat \<Rightarrow> memory \<Rightarrow> bool" where
  "slice_at a p n m \<longleftrightarrow>
     get_int64 (a + 0) m = Some (int p) \<and> get_int64 (a + 8) m = Some (int n)"

definition values_at :: "nat \<Rightarrow> jsval list \<Rightarrow> refs \<Rightarrow> bool" where
  "values_at a vs t \<longleftrightarrow> length vs < 4294967296 \<and>
     (\<exists>p. slice_at a p (length vs) (mem t) \<and>
       (\<forall>k < length vs. load_value (p + 8 * k) t = Some (vs ! k)))"

lemma load_values_run:
  "running s \<Longrightarrow> values_at a vs (tables s) \<Longrightarrow> load_slice_of_values E a s = (Inr vs, s)"
  by (auto simp: values_at_def slice_at_def load_slice_of_values_def followed_by_def read_int64_runs load_each_runs)

lemma load_slice_runs:
  "running s \<Longrightarrow> slice_at a p n (mem (tables s)) \<Longrightarrow> p + n \<le> mem_size (mem (tables s)) \<Longrightarrow>
   load_slice E a s = (Inr (p, n), s)"
  by (simp add: slice_at_def load_slice_def followed_by_def read_int64_runs byte_view_def)

lemma load_string_runs:
  "running s \<Longrightarrow> slice_at a p (length bs) (mem (tables s)) \<Longrightarrow>
   load_bytes p (length bs) (mem (tables s)) = Some bs \<Longrightarrow>
   load_string E a s = (Inr (decode bs), s)"
  by (subgoal_tac "p + length bs \<le> mem_size (mem (tables s))")
    (auto simp: load_string_def followed_by_def load_slice_runs reading_def returning_def load_bytes_def
      split: if_splits)

text \<open>
  The values that Go lays out for a call reach JavaScript as they are: the function or the
  method that the name designates, the receiver, and each argument in its place; the arguments of a
  method are read after its lookup, which may have run Go code.
\<close>

theorem calls_pass_what_go_wrote:
  assumes "running s" and "load_value (sp + 8) (tables s) = Some f"
  shows "(values_at (sp + 16) vs (tables s) \<longrightarrow>
      invoke_body E sp s = reflect_apply E f Undef vs s \<and> new_body E sp s = reflect_construct E f vs s) \<and>
    (slice_at (sp + 16) p (length bs) (mem (tables s)) \<and> load_bytes p (length bs) (mem (tables s)) = Some bs \<and>
     reflect_get E f (Named (decode bs)) s = (Inr g, s1) \<and> running s1 \<and> values_at (sp + 32) vs (tables s1) \<longrightarrow>
      call_body E sp s = reflect_apply E g f vs s1)"
  using assms(1)
  by (auto simp: invoke_body_def new_body_def call_body_def followed_by_def load_runs [OF assms]
      load_values_run load_string_runs)

definition one_argument :: memory where
  "one_argument = \<lparr>mem_size = 128, mem_byte = (\<lambda>i. if i = 16 then 48 else if i = 24 then 1 else 0)\<rparr>"

theorem calls_pass_what_go_wrote_witness:
  "new_body demo_engine 0 (demo_page one_argument) = reflect_construct demo_engine Undef [Undef] (demo_page one_argument)"
proof -
  have w: "get_uint32 a one_argument = Some (if a = 16 then 48 else if a = 24 then 1 else 0)"
    if "a \<in> {8, 12, 16, 20, 24, 28, 48, 52}" for a
    using that by (auto simp: get_uint32_bytes one_argument_def)
  have l: "load_value a (tables (demo_page one_argument)) = Some Undef" if "a = 8 \<or> a = 48" for a
    using that by (auto simp: load_value_def get_float64_def demo_page_def run_tables_def w is_zero_def)
  have "values_at 16 [Undef] (tables (demo_page one_argument))"
    using l by (auto simp: values_at_def slice_at_def get_int64_def demo_page_def run_tables_def w round_double_exact)
  then show ?thesis
    using calls_pass_what_go_wrote [of "demo_page one_argument" 0 Undef "[Undef]" demo_engine 0 "[]" Undef "demo_page one_argument"] l
    by (simp add: demo_page_def)
qed

section \<open>After the exit\<close>

text \<open>An engine whose error constructors leave the tables, the memory and the instance alone.\<close>

definition plain_errors :: "'e js_engine \<Rightarrow> bool" where
  "plain_errors E \<longleftrightarrow> (\<forall>k s. tables (snd (new_error E k s)) = tables s \<and>
     running (snd (new_error E k s)) = running s)"

lemma throwing_plain:
  "plain_errors E \<Longrightarrow> \<exists>e t. throwing E k s = (Inl e, t) \<and> tables t = tables s \<and> running t = running s"
  by (auto simp: plain_errors_def throwing_def split_beta)

lemma throwing_ends [simp]:
  "(case throwing E k s of (Inl e, t) \<Rightarrow> (Inl e, t) | (Inr x, t) \<Rightarrow> f x t) = throwing E k s"
  by (simp add: throwing_def split_beta)

lemma answer_stopped:
  assumes "plain_errors E" "\<not> running s"
  shows "\<exists>e t. answer E off flag v s = (Inl e, t) \<and> tables t = tables s \<and> \<not> running t"
  using throwing_plain [OF assms(1), of TypeErr s] assms(2)
  by (auto simp: answer_def followed_by_def get_sp_def)

lemma calling_stopped:
  assumes "plain_errors E" "body s = (r, s1)" "\<not> running s1"
  shows "\<exists>e t. calling E off body s = (Inl e, t) \<and> tables t = tables s1"
proof (cases r)
  case (Inl e)
  then show ?thesis
    using assms(2) answer_stopped [OF assms(1,3), of off 0 e]
    by (auto simp: calling_def catching_def followed_by_def)
next
  case (Inr v)
  from answer_stopped [OF assms(1,3)] obtain e t where
    t: "answer E off 1 v s1 = (Inl e, t)" "tables t = tables s1" "\<not> running t" by blast
  then show ?thesis
    using assms(2) Inr answer_stopped [OF assms(1) t(3), of off 0 e]
    by (auto simp: calling_def catching_def followed_by_def)
qed

text \<open>
  C23: nothing reaches Go after it has exited. A call during which Go exits throws instead of
  answering and leaves memory and tables as they were when the call ended; a function that Go gave
  away throws when it is called, without entering Go; and when Go exits inside such a function, the
  promise of the run is kept and the page still gets the result that was set.
\<close>

theorem nothing_reaches_go_after_its_exit:
  assumes "plain_errors E"
  shows "((op, body, off) \<in> set (js_calls E sp) \<and> body s = (r, s1) \<and> \<not> running s1 \<longrightarrow>
      (\<exists>e t. op s = (Inl e, t) \<and> tables t = tables s1)) \<and>
    (new_event E i this args s = (ev, s1) \<and> \<not> running s1 \<longrightarrow>
      (\<exists>e t. func_wrapper E i this args s = (Inl e, t) \<and> tables t = tables s1) \<and>
      func_wrapper (E\<lparr>go_resume := g\<rparr>) i this args s = func_wrapper E i this args s) \<and>
    (new_event E i this args s = (ev, s1) \<and> running s1 \<and>
       go_resume E (s1\<lparr>pending := ev\<rparr>) = (Inr (), s2) \<and> \<not> running s2 \<longrightarrow>
      func_wrapper E i this args s =
        reflect_get E ev (Named (lit ''result'')) (s2\<lparr>promise_kept := True\<rparr>))"
proof (intro conjI impI)
  assume "(op, body, off) \<in> set (js_calls E sp) \<and> body s = (r, s1) \<and> \<not> running s1"
  then show "\<exists>e t. op s = (Inl e, t) \<and> tables t = tables s1"
    using calling_stopped [OF assms] js_calls_calling by metis
next
  assume "new_event E i this args s = (ev, s1) \<and> \<not> running s1"
  then show "\<exists>e t. func_wrapper E i this args s = (Inl e, t) \<and> tables t = tables s1"
    using throwing_plain [OF assms, of ExitedErr "s1\<lparr>pending := ev\<rparr>"]
    by (auto simp: func_wrapper_def followed_by_def resume_go_def)
next
  assume "new_event E i this args s = (ev, s1) \<and> \<not> running s1"
  then show "func_wrapper (E\<lparr>go_resume := g\<rparr>) i this args s = func_wrapper E i this args s"
    by (simp add: func_wrapper_def followed_by_def resume_go_def throwing_def split_beta)
next
  assume "new_event E i this args s = (ev, s1) \<and> running s1 \<and>
    go_resume E (s1\<lparr>pending := ev\<rparr>) = (Inr (), s2) \<and> \<not> running s2"
  then show "func_wrapper E i this args s =
      reflect_get E ev (Named (lit ''result'')) (s2\<lparr>promise_kept := True\<rparr>)"
    by (simp add: func_wrapper_def followed_by_def resume_go_def)
qed

theorem nothing_reaches_go_after_its_exit_witness:
  "\<exists>e t. func_wrapper demo_engine 3 Undef [] ((demo_page blank_memory)\<lparr>running := False\<rparr>) = (Inl e, t) \<and>
     tables t = run_tables blank_memory"
proof -
  have "plain_errors demo_engine" by (simp add: plain_errors_def demo_engine_def)
  from nothing_reaches_go_after_its_exit [OF this, THEN conjunct2, THEN conjunct1,
      of 3 Undef "[]" "(demo_page blank_memory)\<lparr>running := False\<rparr>" "JObject 21"
        "(demo_page blank_memory)\<lparr>running := False\<rparr>"]
  have "\<exists>e t. func_wrapper demo_engine 3 Undef [] ((demo_page blank_memory)\<lparr>running := False\<rparr>) = (Inl e, t) \<and>
      tables t = tables ((demo_page blank_memory)\<lparr>running := False\<rparr>)"
    by (simp add: demo_engine_def)
  then show ?thesis by (simp add: demo_page_def)
qed

section \<open>Bytes and strings\<close>

definition with_memory :: "'e js_state \<Rightarrow> memory \<Rightarrow> 'e js_state" where
  "with_memory s m = s\<lparr>tables := (tables s)\<lparr>mem := m\<rparr>\<rparr>"

lemma with_memory_simps [simp]:
  "mem (tables (with_memory s m)) = m" "running (with_memory s m) = running s"
  "arrays (with_memory s m) = arrays s" "with_memory (with_memory s m) m' = with_memory s m'"
  by (simp_all add: with_memory_def)

lemma changing_runs: "f (mem (tables s)) = Some m \<Longrightarrow> changing E f s = (Inr (), with_memory s m)"
  by (simp add: changing_def writing_def with_memory_def)

lemma write_int64_runs:
  assumes "a + 8 \<le> mem_size (mem (tables s))"
  obtains m where "write_int64 E a (Some v) s = (Inr (), with_memory s m)"
    "set_int64 a v (mem (tables s)) = Some m" "memory_apart a 8 (mem (tables s)) m"
proof -
  let ?l = "le_bytes (to_uint32 v)" and ?h = "le_bytes (to_uint32 (of_int \<lfloor>v / 4294967296\<rfloor>))"
  obtain m1 where m1: "store_bytes a ?l (mem (tables s)) = Some m1"
    using assms by (simp add: store_bytes_def)
  moreover obtain m where m: "store_bytes (a + 4) ?h m1 = Some m"
    using assms store_bytes_size [OF m1] by (simp add: store_bytes_def)
  ultimately have "write_int64 E a (Some v) s = (Inr (), with_memory s m)"
    by (simp add: write_int64_def followed_by_def changing_runs set_uint32_def)
  moreover have "set_int64 a v (mem (tables s)) = Some m"
    using m1 m by (simp add: set_int64_def set_uint32_def)
  moreover have "memory_apart a 8 (mem (tables s)) m1" "memory_apart a 8 m1 m"
    using memory_apart_store [OF m1] memory_apart_store [OF m] by (auto intro: memory_apart_part)
  ultimately show thesis using that memory_apart_trans by blast
qed

lemma get_int64_written:
  assumes "set_int64 a (of_nat n) m = Some m'" "n \<le> 2 ^ 53"
  shows "get_int64 a m' = Some (int n)"
proof -
  have "- (2 ^ 63) \<le> int n" "int n < 2 ^ 63" "\<bar>int n\<bar> \<le> 2 ^ 53"
    using assms(2) by simp_all
  with int64_roundtrip [of a "int n" m m'] assms(1) show ?thesis by (simp add: round_double_exact)
qed

lemma get_int64_apart:
  "memory_apart a n m m' \<Longrightarrow> b + 8 \<le> a \<or> a + n \<le> b \<Longrightarrow> get_int64 b m' = get_int64 b m"
  using get_uint32_apart [of a n m m' b] get_uint32_apart [of a n m m' "b + 4"]
  by (cases "get_uint32 b m"; cases "get_uint32 (b + 4) m") (auto simp: get_int64_def)

lemma set_view_runs:
  assumes "length bs \<le> n" "p + n \<le> mem_size (mem (tables s))"
  obtains m where "set_view E (p, n) bs s = (Inr (), with_memory s m)"
    "store_bytes p bs (mem (tables s)) = Some m"
proof -
  obtain m where "store_bytes p bs (mem (tables s)) = Some m"
    using assms by (simp add: store_bytes_def)
  with assms(1) that show thesis by (simp add: set_view_def changing_runs)
qed

text \<open>How a copy reports: the number of bytes and a flag, at two places of Go's frame.\<close>

lemma report_runs:
  assumes room: "sp + 49 \<le> mem_size (mem (tables s))" and n: "n \<le> 2 ^ 53"
  obtains m where
    "followed_by (write_int64 E (sp + 40) (Some (of_nat n))) (\<lambda>_. write_byte E (sp + 48) 1) s =
       (Inr (), with_memory s m)"
    "get_int64 (sp + 40) m = Some (int n)" "load_bytes (sp + 48) 1 m = Some [1]"
    "memory_apart (sp + 40) 9 (mem (tables s)) m"
proof -
  have "sp + 40 + 8 \<le> mem_size (mem (tables s))" using room by simp
  from write_int64_runs [OF this, of E "of_nat n"] obtain m1 where
    m1: "write_int64 E (sp + 40) (Some (of_nat n)) s = (Inr (), with_memory s m1)"
      "set_int64 (sp + 40) (of_nat n) (mem (tables s)) = Some m1"
      "memory_apart (sp + 40) 8 (mem (tables s)) m1" .
  have size: "mem_size m1 = mem_size (mem (tables s))"
    using m1(3) by (simp add: memory_apart_def)
  obtain m where m: "store_bytes (sp + 48) [1] m1 = Some m"
    using room size by (simp add: store_bytes_def)
  have "get_int64 (sp + 40) m = Some (int n)"
    using get_int64_apart [OF memory_apart_store [OF m], of "sp + 40"] get_int64_written [OF m1(2) n] by simp
  moreover have "load_bytes (sp + 48) 1 m = Some [1]"
    using load_store_same [OF m] by simp
  moreover have "memory_apart (sp + 40) 9 (mem (tables s)) m"
    using memory_apart_part [OF m1(3), of "sp + 40" 9]
      memory_apart_part [OF memory_apart_store [OF m], of "sp + 40" 9] memory_apart_trans by simp
  ultimately show thesis
    using m1(1) m that by (simp add: followed_by_def write_byte_def changing_runs)
qed

text \<open>
  Copying the bytes of a page's array into a Go slice copies as many as fit into both, never
  one past the end of the slice, reports that number and success, and changes no byte besides; what
  is no byte array is refused, and nothing but the flag is written.
\<close>

theorem copy_to_go_stays_inside:
  assumes "running s" and "sp = unat sp0" and "slice_at (sp + 8) p n (mem (tables s))"
    and "p + n \<le> mem_size (mem (tables s))" and "sp + 49 \<le> mem_size (mem (tables s))"
    and "load_value (sp + 32) (tables s) = Some v" and "mem_size (mem (tables s)) \<le> 2 ^ 53"
    and "p + n \<le> sp + 40 \<or> sp + 49 \<le> p"
  shows "case bytes_of v s of
      None \<Rightarrow> \<exists>m. copy_bytes_to_go E sp0 s = (Inr (), with_memory s m) \<and>
        load_bytes (sp + 48) 1 m = Some [0] \<and> memory_apart (sp + 48) 1 (mem (tables s)) m
    | Some bs \<Rightarrow> \<exists>m k. copy_bytes_to_go E sp0 s = (Inr (), with_memory s m) \<and> k = min n (length bs) \<and>
        load_bytes p k m = Some (take k bs) \<and> get_int64 (sp + 40) m = Some (int k) \<and>
        load_bytes (sp + 48) 1 m = Some [1] \<and> mem_size m = mem_size (mem (tables s)) \<and>
        (\<forall>b j. (b + j \<le> p \<or> p + k \<le> b) \<and> (b + j \<le> sp + 40 \<or> sp + 49 \<le> b) \<longrightarrow>
           load_bytes b j m = load_bytes b j (mem (tables s)))"
proof (cases "bytes_of v s")
  case None
  obtain m where "store_bytes (sp + 48) [0] (mem (tables s)) = Some m"
    using assms(5) by (simp add: store_bytes_def)
  with None show ?thesis
    using load_store_same memory_apart_store
    by (fastforce simp: copy_bytes_to_go_def followed_by_def load_slice_runs [OF assms(1,3,4)]
        load_runs [OF assms(1,6)] write_byte_def changing_runs simp flip: assms(2))
next
  case (Some bs)
  let ?k = "min n (length bs)" and ?bs = "take n bs"
  have k: "length ?bs = ?k" "?k \<le> 2 ^ 53" "take ?k bs = ?bs"
    using assms(4,7) by (auto simp: min_def)
  obtain m1 where m1: "set_view E (p, n) ?bs s = (Inr (), with_memory s m1)"
      "store_bytes p ?bs (mem (tables s)) = Some m1"
    using set_view_runs [of ?bs n p s E] assms(4) by auto
  have size: "mem_size m1 = mem_size (mem (tables s))"
    using store_bytes_size [OF m1(2)] .
  have "sp + 49 \<le> mem_size (mem (tables (with_memory s m1)))"
    using assms(5) size by simp
  from report_runs [OF this k(2), of E] obtain m where
    m: "followed_by (write_int64 E (sp + 40) (Some (of_nat ?k))) (\<lambda>_. write_byte E (sp + 48) 1) (with_memory s m1) =
       (Inr (), with_memory s m)"
      "get_int64 (sp + 40) m = Some (int ?k)" "load_bytes (sp + 48) 1 m = Some [1]" "memory_apart (sp + 40) 9 m1 m"
    by (metis with_memory_simps(1,4))
  have "copy_bytes_to_go E sp0 s = (Inr (), with_memory s m)"
    using m(1) m1(1) Some k(1)
    by (simp add: copy_bytes_to_go_def followed_by_def load_slice_runs [OF assms(1,3,4)]
        load_runs [OF assms(1,6)] Let_def flip: assms(2))
  moreover have "load_bytes p ?k m = Some ?bs"
    using load_store_same [OF m1(2)] m(4) assms(8) k(1) by (auto simp: memory_apart_def)
  moreover have "load_bytes b j m = load_bytes b j (mem (tables s))"
    if "(b + j \<le> p \<or> p + ?k \<le> b) \<and> (b + j \<le> sp + 40 \<or> sp + 49 \<le> b)" for b j
    using that m(4) memory_apart_store [OF m1(2)] k(1) by (auto simp: memory_apart_def)
  ultimately show ?thesis
    using Some m(2-4) size k(3) by (auto simp: memory_apart_def)
qed

text \<open>A frame that copies the array of the global object into the two bytes at 64.\<close>

definition copy_frame :: memory where
  "copy_frame = \<lparr>mem_size = 128, mem_byte = (\<lambda>i.
     if i = 8 then 64 else if i = 16 then 2 else if i = 32 then 5
     else if i = 36 then 0x01 else if i = 38 then 0xF8 else if i = 39 then 0x7F else 0)\<rparr>"

theorem copy_to_go_stays_inside_witness:
  "\<exists>m. copy_bytes_to_go demo_engine 0 ((demo_page copy_frame)\<lparr>arrays := [0 \<mapsto> [7, 8, 9]]\<rparr>) =
       (Inr (), with_memory ((demo_page copy_frame)\<lparr>arrays := [0 \<mapsto> [7, 8, 9]]\<rparr>) m) \<and>
     load_bytes 64 2 m = Some [7, 8] \<and> get_int64 40 m = Some 2"
proof -
  let ?s = "(demo_page copy_frame)\<lparr>arrays := [0 \<mapsto> [7, 8, 9]]\<rparr>"
  have w: "get_uint32 a copy_frame = Some (if a = 8 then 64 else if a = 16 then 2 else if a = 32 then 5
      else if a = 36 then 0x7FF80001 else 0)"
    if "a \<in> {8, 12, 16, 20, 32, 36}" for a
    using that by (auto simp: get_uint32_bytes copy_frame_def)
  have "load_value 32 (tables ?s) = Some (JObject 0)"
    by (simp add: load_value_def get_float64_def demo_page_def run_tables_def w is_zero_def is_nan_def
        value_at_def first_values_def js_global_def)
  moreover have "slice_at 8 64 2 (mem (tables ?s))"
    by (simp add: slice_at_def get_int64_def demo_page_def run_tables_def w round_double_exact)
  moreover have "mem_size (mem (tables ?s)) = 128" "running ?s" "bytes_of (JObject 0) ?s = Some [7, 8, 9]"
    by (simp_all add: demo_page_def run_tables_def copy_frame_def bytes_of_def)
  ultimately obtain m k where "k = min 2 (length [7, 8, 9 :: 8 word])"
    "copy_bytes_to_go demo_engine 0 ?s = (Inr (), with_memory ?s m)"
    "load_bytes 64 k m = Some (take k [7, 8, 9])" "get_int64 40 m = Some (int k)"
    using copy_to_go_stays_inside [of ?s 0 0 64 2 "JObject 0" demo_engine] by auto
  moreover from this(1) have "k = 2" by simp
  ultimately show ?thesis by auto
qed

section \<open>Getters and the stack\<close>

text \<open>
  A named property is stored where Go's stack is after the getter has run; an element is stored where
  the stack was before, although its getter may have run Go code just as well.
\<close>

lemma element_is_stored_on_the_old_stack:
  assumes "running s" "load_value (unat sp + 8) (tables s) = Some v" "running s1"
  shows "get_int64 (unat sp + 16) (mem (tables s)) = Some i \<and> reflect_get E v (Indexed i) s = (Inr r, s1) \<longrightarrow>
      value_index E sp s = store E (unat sp + 24) r s1"
    and "load_string E (unat sp + 16) s = (Inr p, s) \<and> reflect_get E v (Named p) s = (Inr r, s1) \<longrightarrow>
      value_get E sp s = store E (unat (go_stack s1) + 32) r s1"
  using assms(3)
  by (auto simp: value_index_def value_get_def followed_by_def load_runs [OF assms(1,2)] read_int64_runs get_sp_def Let_def)

text \<open>The wall clock is written whole: its seconds and nanoseconds are the milliseconds.\<close>

lemma walltime_written:
  assumes "unat sp + 20 \<le> mem_size (mem (tables s))" "msec < 1000 * 2 ^ 53"
  obtains m where "walltime E msec sp s = (Inr (), with_memory s m)"
    "get_int64 (unat sp + 8) m = Some (int (msec div 1000))"
    "get_uint32 (unat sp + 16) m = Some (word_of_nat (msec mod 1000 * 1000000))"
proof -
  have lo: "to_uint32 (of_nat msec / 1000) = to_uint32 (of_nat (msec div 1000))"
    and hi: "\<lfloor>(of_nat msec / 1000) / 4294967296 :: rat\<rfloor> = \<lfloor>of_nat (msec div 1000) / 4294967296 :: rat\<rfloor>"
    using floor_divide_of_nat_eq [of msec 1000, where 'a = rat]
      floor_divide_of_nat_eq [of msec 4294967296000, where 'a = rat]
      floor_divide_of_nat_eq [of "msec div 1000" 4294967296, where 'a = rat]
    by (simp_all add: to_uint32_def trunc_rat_def div_mult2_eq [of msec 1000 4294967296, simplified])
  have "unat sp + 8 + 8 \<le> mem_size (mem (tables s))" using assms(1) by simp
  from write_int64_runs [OF this, of E "of_nat msec / 1000"] obtain m1 where
    m1: "write_int64 E (unat sp + 8) (Some (of_nat msec / 1000)) s = (Inr (), with_memory s m1)"
      "set_int64 (unat sp + 8) (of_nat msec / 1000) (mem (tables s)) = Some m1"
      "memory_apart (unat sp + 8) 8 (mem (tables s)) m1" .
  have "set_int64 (unat sp + 8) (of_nat (msec div 1000)) (mem (tables s)) = Some m1"
    using m1(2) unfolding set_int64_def lo hi .
  then have g: "get_int64 (unat sp + 8) m1 = Some (int (msec div 1000))"
    using assms(2) by (intro get_int64_written) auto
  obtain m where m: "set_uint32 (unat sp + 16) (to_uint32 (of_nat (msec mod 1000 * 1000000))) m1 = Some m"
    using m1(3) assms(1) by (auto simp: set_uint32_def store_bytes_def memory_apart_def)
  have "get_int64 (unat sp + 8) m = get_int64 (unat sp + 8) m1"
    using memory_apart_store [OF m [unfolded set_uint32_def]] by (rule get_int64_apart) simp
  moreover have "to_uint32 (of_nat (msec mod 1000 * 1000000)) = word_of_nat (msec mod 1000 * 1000000)"
    using trunc_rat_of_int [of "int (msec mod 1000 * 1000000)"] by (simp add: to_uint32_def)
  ultimately show thesis
    using g m m1(1) get_set_uint32 [OF m]
    by (intro that [of m]) (simp_all add: walltime_def followed_by_def changing_runs Let_def)
qed

end
