(* ===== verification/GoStrings.thy ===== *)
theory GoStrings
  imports GoCallLaws
begin

text \<open>
  The way of a text of the page through Go and back (docs/wasm_exec.js): \<open>valuePrepareString\<close> encodes it
  and announces its length, \<open>valueLoadString\<close> copies the bytes into memory that Go has set aside, and
  \<open>stringVal\<close> makes a text of bytes that Go holds. Between them Go and the page do what they like, as
  long as they leave these bytes alone.
\<close>

section \<open>What Go does for its part\<close>

text \<open>The program runs, its table of values is sound, and its frame ends below \<open>a\<close>.\<close>

definition serves :: "'e js_state \<Rightarrow> (nat \<times> jsval) list \<Rightarrow> nat \<Rightarrow> bool" where
  "serves s h a \<longleftrightarrow> running s \<and> table_ok (tables s) h \<and> vals_len (tables s) < 4294967295 \<and>
     a \<le> mem_size (mem (tables s))"

text \<open>In the frame at \<open>a\<close> Go asks for the bytes of the array \<open>i\<close>, for its slice of \<open>n\<close> bytes at \<open>p\<close>.\<close>

definition asks_bytes :: "'e js_state \<Rightarrow> nat \<Rightarrow> nat \<Rightarrow> nat \<Rightarrow> nat \<Rightarrow> bool" where
  "asks_bytes s a i p n \<longleftrightarrow> running s \<and> load_value (a + 8) (tables s) = Some (JObject i) \<and>
     slice_at (a + 16) p n (mem (tables s)) \<and> p + n \<le> mem_size (mem (tables s))"

section \<open>The three steps\<close>

text \<open>The text is encoded, and its length announced with a reference to the bytes.\<close>

lemma string_is_announced:
  assumes "running s" and "load_value (unat sp + 8) (tables s) = Some v"
    and "string_of E v s = (Inr txt, s1)" and "new_object E s1 = (i, s2)" and "serves s2 h (unat sp + 32)"
    and "length (encode txt) \<le> 2 ^ 53"
  shows "\<exists>t. value_prepare_string E sp s = (Inr (), s2\<lparr>arrays := (arrays s2)(i \<mapsto> encode txt), tables := t\<rparr>) \<and>
    load_value (unat sp + 16) t = Some (JObject i) \<and> get_int64 (unat sp + 24) (mem t) = Some (int (length (encode txt)))"
proof -
  let ?n = "length (encode txt)" and ?sp = "unat sp" and ?s2 = "s2\<lparr>arrays := (arrays s2)(i \<mapsto> encode txt)\<rparr>"
  have s2: "running s2" "table_ok (tables s2) h" "?sp + 16 + 8 \<le> mem_size (mem (tables s2))"
      "vals_len (tables s2) < 4294967295" "?sp + 32 \<le> mem_size (mem (tables s2))"
    using assms(5) by (simp_all add: serves_def)
  from store_value_loads [OF s2(2-4), of "JObject i"] obtain t where
    t: "store_value (?sp + 16) (JObject i) (tables s2) = (True, t)" "load_value (?sp + 16) t = Some (map_key (JObject i))"
      "memory_apart (?sp + 16) 8 (mem (tables s2)) (mem t)" .
  have "?sp + 24 + 8 \<le> mem_size (mem (tables (?s2\<lparr>tables := t\<rparr>)))"
    using t(3) s2(5) by (simp add: memory_apart_def)
  from write_int64_runs [OF this, of E "of_nat ?n"] obtain m where
    m: "write_int64 E (?sp + 24) (Some (of_nat ?n)) (?s2\<lparr>tables := t\<rparr>) = (Inr (), with_memory (?s2\<lparr>tables := t\<rparr>) m)"
      "set_int64 (?sp + 24) (of_nat ?n) (mem t) = Some m" "memory_apart (?sp + 24) 8 (mem t) m"
    by auto
  have "value_prepare_string E sp s = (Inr (), with_memory (?s2\<lparr>tables := t\<rparr>) m)"
    using m(1) t(1) assms(3,4) s2(1)
    by (simp add: value_prepare_string_def followed_by_def load_runs [OF assms(1,2)] new_bytes_def store_def
        Let_def)
  moreover have "load_value (?sp + 16) (t\<lparr>mem := m\<rparr>) = Some (JObject i)"
    using t(2) load_value_apart [OF m(3), of "?sp + 16"] by (simp add: map_key_def)
  ultimately show ?thesis
    using get_int64_written [OF m(2) assms(6)]
    by (intro exI [of _ "t\<lparr>mem := m\<rparr>"]) (simp add: with_memory_def)
qed

text \<open>The bytes fill the slice that asks for them, and nothing else is written.\<close>

lemma load_string_fills:
  assumes "asks_bytes s (unat sp) i p (length bs)" "arrays s i = Some bs"
  shows "\<exists>m. value_load_string E sp s = (Inr (), with_memory s m) \<and> load_bytes p (length bs) m = Some bs \<and>
    memory_apart p (length bs) (mem (tables s)) m"
proof -
  have s: "running s" "load_value (unat sp + 8) (tables s) = Some (JObject i)"
      "slice_at (unat sp + 16) p (length bs) (mem (tables s))" "p + length bs \<le> mem_size (mem (tables s))"
    using assms(1) by (simp_all add: asks_bytes_def)
  obtain m where m: "set_view E (p, length bs) bs s = (Inr (), with_memory s m)"
      "store_bytes p bs (mem (tables s)) = Some m"
    using set_view_runs [of bs "length bs" p s E] s(4) by auto
  have "value_load_string E sp s = (Inr (), with_memory s m)"
    using m(1) assms(2)
    by (simp add: value_load_string_def followed_by_def load_runs [OF s(1,2)] load_slice_runs [OF s(1,3,4)] bytes_of_def
        Let_def)
  then show ?thesis
    using load_store_same [OF m(2)] memory_apart_store [OF m(2)] by blast
qed

text \<open>A string of Go becomes a text.\<close>

lemma string_val_stores:
  assumes "serves s h (unat sp + 32)" "slice_at (unat sp + 8) p n (mem (tables s))" "load_bytes p n (mem (tables s)) = Some bs"
  obtains t where "string_val E sp s = (Inr (), s\<lparr>tables := t\<rparr>)"
    "load_value (unat sp + 24) t = Some (JString (decode bs))"
proof -
  have s: "running s" "table_ok (tables s) h" "unat sp + 24 + 8 \<le> mem_size (mem (tables s))"
    "vals_len (tables s) < 4294967295"
    using assms(1) by (simp_all add: serves_def)
  from store_value_loads [OF s(2-4), of "JString (decode bs)"] obtain t where
    t: "store_value (unat sp + 24) (JString (decode bs)) (tables s) = (True, t)"
      "load_value (unat sp + 24) t = Some (map_key (JString (decode bs)))" .
  have "length bs = n" using assms(3) by (auto simp: load_bytes_def split: if_splits)
  then have "load_string E (unat sp + 8) s = (Inr (decode bs), s)"
    using assms(2,3) by (intro load_string_runs [OF s(1), where p = p]) simp_all
  with t(1) have "string_val E sp s = (Inr (), s\<lparr>tables := t\<rparr>)"
    using s(1) by (simp add: string_val_def followed_by_def store_def Let_def)
  with t(2) show thesis by (intro that) (simp_all add: map_key_def)
qed

section \<open>Property\<close>

text \<open>
  C24: a text of the page crosses to Go and back whole, while the Go program runs with a sound table of
  values and room in its frames, and the text has at most \<open>2 ^ 53\<close> bytes. Go is told the number of the text's bytes in UTF-8
  and gets a reference to them; when it asks for them with a slice of that many bytes, they fill it and
  nothing else is written; and when it later hands the page a string of the bytes that lie there, it gets
  a reference to the text it began with. That is so for every text whose surrogates are paired; of any
  other only the lone surrogates are replaced, and the one thing else that is lost is a byte order mark
  at the very start.
\<close>

theorem text_crosses_whole:
  assumes "running s" and "load_value (unat sp + 8) (tables s) = Some v"
    and "string_of E v s = (Inr txt, s1)" and "new_object E s1 = (i, s2)" and "serves s2 h (unat sp + 32)"
    and "n = length (encode txt)" and "n \<le> 2 ^ 53"
    and "asks_bytes s3 (unat sp') i p n" and "arrays s3 i = Some (encode txt)"
    and "serves s5 h' (unat sp'' + 32)" and "slice_at (unat sp'' + 8) p n (mem (tables s5))"
    and "load_bytes p n (mem (tables s5)) = load_bytes p n (mem (tables (snd (value_load_string E sp' s3))))"
  shows "(\<exists>t. value_prepare_string E sp s = (Inr (), s2\<lparr>arrays := (arrays s2)(i \<mapsto> encode txt), tables := t\<rparr>) \<and>
      load_value (unat sp + 16) t = Some (JObject i) \<and> get_int64 (unat sp + 24) (mem t) = Some (int n)) \<and>
    (\<exists>m. value_load_string E sp' s3 = (Inr (), with_memory s3 m) \<and> memory_apart p n (mem (tables s3)) m) \<and>
    (\<exists>t back. string_val E sp'' s5 = (Inr (), s5\<lparr>tables := t\<rparr>) \<and>
      load_value (unat sp'' + 24) t = Some (JString back) \<and> back = crossed txt \<and> paired back \<and>
      (paired txt \<and> take 1 txt \<noteq> [js_bom] \<longrightarrow> back = txt))"
proof -
  have "asks_bytes s3 (unat sp') i p (length (encode txt))" "length (encode txt) \<le> 2 ^ 53"
    using assms(6-8) by simp_all
  note both = string_is_announced [OF assms(1-5) this(2)] load_string_fills [OF this(1) assms(9), where E = E]
  then obtain m where m: "value_load_string E sp' s3 = (Inr (), with_memory s3 m)"
      "load_bytes p n m = Some (encode txt)"
    unfolding assms(6) by blast
  have "load_bytes p n (mem (tables s5)) = Some (encode txt)"
    using assms(12) m by simp
  from string_val_stores [OF assms(10,11) this, of E] obtain t where
    "string_val E sp'' s5 = (Inr (), s5\<lparr>tables := t\<rparr>)"
    "load_value (unat sp'' + 24) t = Some (JString (crossed txt))"
    unfolding decode_encode by blast
  with both crossed_paired [of "txt"] crossed_whole [of "txt"] show ?thesis
    unfolding assms(6) by blast
qed

text \<open>The frame in which Go asks for the bytes of the object that it holds as reference 7.\<close>

definition string_frame :: memory where
  "string_frame = \<lparr>mem_size = 128, mem_byte = (\<lambda>i.
     if i = 8 then 7 else if i = 12 then 0x01 else if i = 14 then 0xF8 else if i = 15 then 0x7F
     else if i = 16 then 64 else if i = 24 then 1 else 0)\<rparr>"

text \<open>
  The text k: the array 20, asked for in the frame of GoCallLaws, and a frame in which Go names the byte
  that it was given.
\<close>

definition named_frame :: memory where
  "named_frame = \<lparr>mem_size = 128, mem_byte = (\<lambda>i. if i = 8 then 64 else if i = 16 then 1 else if i = 64 then 0x6B else 0)\<rparr>"

theorem text_crosses_whole_witness:
  "\<exists>t. string_val demo_engine 0 (demo_page named_frame) = (Inr (), (demo_page named_frame)\<lparr>tables := t\<rparr>) \<and>
     load_value 24 t = Some (JString (lit ''k''))"
proof -
  let ?s = "demo_page blank_memory" and ?s5 = "demo_page named_frame"
  let ?s3 = "(demo_page string_frame)\<lparr>arrays := [20 \<mapsto> [0x6B]],
    tables := set_value 7 (JObject 20) (run_tables string_frame)\<rparr>"
  have w: "get_uint32 8 string_frame = Some 7" "get_uint32 12 string_frame = Some 0x7FF80001"
    "get_uint32 16 string_frame = Some 64" "get_uint32 20 string_frame = Some 0"
    "get_uint32 24 string_frame = Some 1" "get_uint32 28 string_frame = Some 0"
    "get_uint32 8 named_frame = Some 64" "get_uint32 12 named_frame = Some 0"
    "get_uint32 16 named_frame = Some 1" "get_uint32 20 named_frame = Some 0"
    by (simp_all add: get_uint32_bytes string_frame_def named_frame_def)
  have b: "encode (lit ''k'') = [0x6B]" by (simp add: lit_def code_unit_def utf8_point_def byte_of_def Let_def)
  have n: "1 = length (encode (lit ''k''))" by (simp only: b) simp
  have tabs: "tables (demo_page x) = run_tables x" "running (demo_page x)" "running ?s3" "mem_size string_frame = 128"
    "mem_size blank_memory = 128" "mem_size named_frame = 128"
    "mem (run_tables x) = x" "mem (set_value k v t) = mem t" "vals_len (run_tables x) = 7" for x k v t
    by (simp_all add: demo_page_def run_tables_def set_value_def string_frame_def blank_memory_def named_frame_def)
  have serves: "serves (demo_page x) [] (unat (0 :: 32 word) + 32)" if "mem_size x = 128" for x
    using that table_ok_run_tables by (simp add: serves_def tabs)
  have asked: "load_value (unat (0 :: 32 word) + 8) (tables ?s) = Some Undef"
    using blank_uint32 by (simp add: load_value_def get_float64_def is_zero_def tabs)
  have e: "string_of demo_engine Undef ?s = (Inr (lit ''k''), ?s)" "new_object demo_engine ?s = (20, ?s)"
    by (simp_all add: demo_engine_def returning_def)
  have a: "asks_bytes ?s3 (unat (0 :: 32 word)) 20 64 1"
    by (simp add: asks_bytes_def slice_at_def get_int64_def load_value_def get_float64_def tabs w is_zero_def
        is_nan_def value_at_def set_value_def round_double_exact)
  have c: "arrays ?s3 20 = Some (encode (lit ''k''))" unfolding b by simp
  have d: "slice_at (unat (0 :: 32 word) + 8) 64 1 (mem (tables ?s5))"
    by (simp add: slice_at_def get_int64_def tabs w round_double_exact)
  have "asks_bytes ?s3 (unat (0 :: 32 word)) 20 64 (length [0x6B :: 8 word])" "arrays ?s3 20 = Some [0x6B]"
    using a by simp_all
  from load_string_fills [OF this, of demo_engine] obtain m where
    "value_load_string demo_engine 0 ?s3 = (Inr (), with_memory ?s3 m)" "load_bytes 64 1 m = Some [0x6B]"
    by auto
  moreover have "load_bytes 64 1 named_frame = Some [0x6B]"
    by (simp add: load_bytes_def named_frame_def)
  ultimately have same: "load_bytes 64 1 (mem (tables ?s5)) = load_bytes 64 1 (mem (tables (snd (value_load_string demo_engine 0 ?s3))))"
    by (simp add: tabs)
  have "crossed (lit ''k'') = lit ''k''"
    by (rule crossed_whole) (simp_all add: lit_def code_unit_def js_bom_def)
  then show ?thesis
    using text_crosses_whole [OF tabs(2) asked e serves [OF tabs(5)] n _ a c serves [OF tabs(6)] d same] by auto
qed

end
