(* ===== verification/GoSound.thy ===== *)
theory GoSound
  imports GoCallLaws
begin

text \<open>
  The whole import object of docs/wasm_exec.js as the compiled program sees it, one operation per
  import, and the run of a Go program as a sequence of imports and of its own work. What the engine
  does in between is arbitrary; that the table of values stays sound is proved import by import with
  a small calculus of operations that keep an invariant.
\<close>

section \<open>The import object\<close>

text \<open>
  \<open>finalizeRef\<close> on the state of the page; the two times are what the clocks read when they are asked.
\<close>

definition finalize :: "'e js_engine \<Rightarrow> 32 word \<Rightarrow> ('e, unit) js" where
  "finalize E sp = (\<lambda>s.
     case get_uint32 (unat sp + 8) (mem (tables s)) of
       None \<Rightarrow> throwing E RangeErr s
     | Some w \<Rightarrow>
         if \<not> running s then throwing E TypeErr s
         else (Inr (), s\<lparr>tables := release (unat w) (tables s)\<rparr>))"

text \<open>\<open>debug\<close> gets an i32 and not a stack pointer; its text is a line of the console of its own.\<close>

definition debug_print :: "32 word \<Rightarrow> ('e, unit) js" where
  "debug_print v = (\<lambda>s. (Inr (), s\<lparr>console := (fst (console s) @ [lit (dec_int (sint v))], snd (console s))\<rparr>))"

datatype import =
  WasmExit | WasmWrite | Nanotime1 rat | Walltime nat | GetRandomData | FinalizeRef | StringVal
| ValueGet | ValueSet | ValueDelete | ValueIndex | ValueSetIndex | ValueCall | ValueInvoke | ValueNew
| ValueLength | ValuePrepareString | ValueLoadString | ValueInstanceOf | CopyBytesToGo | CopyBytesToJS | Debug

fun gojs :: "'e js_engine \<Rightarrow> import \<Rightarrow> 32 word \<Rightarrow> ('e, unit) js" where
  "gojs E WasmExit = wasm_exit E"
| "gojs E WasmWrite = wasm_write E"
| "gojs E (Nanotime1 t) = nanotime1 E t"
| "gojs E (Walltime t) = walltime E t"
| "gojs E GetRandomData = get_random_data E"
| "gojs E FinalizeRef = finalize E"
| "gojs E StringVal = string_val E"
| "gojs E ValueGet = value_get E"
| "gojs E ValueSet = value_set E"
| "gojs E ValueDelete = value_delete E"
| "gojs E ValueIndex = value_index E"
| "gojs E ValueSetIndex = value_set_index E"
| "gojs E ValueCall = value_call E"
| "gojs E ValueInvoke = value_invoke E"
| "gojs E ValueNew = value_new E"
| "gojs E ValueLength = value_length E"
| "gojs E ValuePrepareString = value_prepare_string E"
| "gojs E ValueLoadString = value_load_string E"
| "gojs E ValueInstanceOf = value_instance_of E"
| "gojs E CopyBytesToGo = copy_bytes_to_go E"
| "gojs E CopyBytesToJS = copy_bytes_to_js E"
| "gojs E Debug = debug_print"

text \<open>
  \<open>_gotest.add\<close> adds two numbers, whose exact sum the engine wraps to an i32 on its way back.
\<close>

definition gotest_add :: "32 word \<Rightarrow> 32 word \<Rightarrow> 32 word" where
  "gotest_add a b = to_uint32 (of_int (sint a + sint b))"

lemma gotest_add_wraps: "gotest_add a b = a + b"
proof -
  have "trunc_rat (of_int (sint a + sint b)) = sint a + sint b"
    by (simp only: trunc_rat_of_int)
  moreover have "word_of_int (sint a + sint b) = a + b"
    by simp
  ultimately show ?thesis
    by (simp only: gotest_add_def to_uint32_def)
qed

text \<open>
  What \<open>nanotime1\<close> writes: the two clocks are the host's, \<open>fl\<close> rounds the operations on them. The origin
  is taken once, when the object is made.
\<close>

definition time_origin :: "(rat \<Rightarrow> rat) \<Rightarrow> rat \<Rightarrow> rat \<Rightarrow> rat" where
  "time_origin fl date_now performance_now = fl (date_now - performance_now)"

definition nanotime_value :: "(rat \<Rightarrow> rat) \<Rightarrow> rat \<Rightarrow> rat \<Rightarrow> rat" where
  "nanotime_value fl origin performance_now = fl (fl (origin + performance_now) * 1000000)"

lemma nanotime_never_goes_back:
  "mono fl \<Longrightarrow> t \<le> u \<Longrightarrow> nanotime_value fl origin t \<le> nanotime_value fl origin u"
  unfolding nanotime_value_def by (intro monoD [of fl] mult_right_mono add_left_mono) simp_all

lemma nanotime_is_wall_time:
  "nanotime_value (\<lambda>x. x) (time_origin (\<lambda>x. x) date t) u = (date + (u - t)) * 1000000"
  by (simp add: nanotime_value_def time_origin_def)

text \<open>\<open>_gotest.callExport\<close> calls two exports of the program, which are parameters.\<close>

definition test_call_export ::
  "('e, unit) js \<Rightarrow> (32 word \<Rightarrow> 32 word \<Rightarrow> ('e, 32 word) js) \<Rightarrow> 32 word \<Rightarrow> 32 word \<Rightarrow> ('e, 32 word) js" where
  "test_call_export export0 export a b = followed_by export0 (\<lambda>_. export a b)"

section \<open>Operations that keep an invariant\<close>

named_theorems keeping \<open>operations that keep an invariant, by their form\<close>

definition keeps :: "('e js_state \<Rightarrow> bool) \<Rightarrow> ('e, 'a) js \<Rightarrow> bool" where
  "keeps I m \<longleftrightarrow> (\<forall>s. I s \<longrightarrow> I (snd (m s)))"

lemma keepsI: "(\<And>s. I s \<Longrightarrow> I (snd (m s))) \<Longrightarrow> keeps I m"
  by (simp add: keeps_def)

lemma keepsD: "keeps I m \<Longrightarrow> I s \<Longrightarrow> I (snd (m s))"
  by (simp add: keeps_def)

lemma keeps_returning [keeping]: "keeps I (returning x)"
  by (simp add: keeps_def returning_def)

lemma keeps_followed_by [keeping]: "keeps I m \<Longrightarrow> (\<And>x. keeps I (f x)) \<Longrightarrow> keeps I (followed_by m f)"
  by (fastforce simp: keeps_def followed_by_def split: prod.split sum.split)

lemma keeps_catching [keeping]: "keeps I m \<Longrightarrow> (\<And>e. keeps I (h e)) \<Longrightarrow> keeps I (catching m h)"
  by (fastforce simp: keeps_def catching_def split: prod.split sum.split)

lemma keeps_if [keeping]: "keeps I m \<Longrightarrow> keeps I n \<Longrightarrow> keeps I (if b then m else n)"
  by simp

lemma keeps_pair [keeping]: "(\<And>x y. keeps I (f x y)) \<Longrightarrow> keeps I (case p of (x, y) \<Rightarrow> f x y)"
  by (simp split: prod.split)

lemma keeps_state: "(\<And>t. keeps I (f t)) \<Longrightarrow> keeps I (\<lambda>s. f s s)"
  by (simp add: keeps_def)

text \<open>What the engine may do: anything that keeps the invariant.\<close>

definition engine_keeps :: "('e js_state \<Rightarrow> bool) \<Rightarrow> 'e js_engine \<Rightarrow> bool" where
  "engine_keeps I E \<longleftrightarrow>
     (\<forall>v k. keeps I (reflect_get E v k)) \<and> (\<forall>v k x. keeps I (reflect_set E v k x)) \<and>
     (\<forall>v k. keeps I (reflect_delete E v k)) \<and> (\<forall>f v args. keeps I (reflect_apply E f v args)) \<and>
     (\<forall>f args. keeps I (reflect_construct E f args)) \<and> (\<forall>v t. keeps I (instance_of E v t)) \<and>
     (\<forall>v. keeps I (string_of E v)) \<and> (\<forall>v. keeps I (parsed_length E v)) \<and>
     (\<forall>v p n. keeps I (set_from E v p n)) \<and> (\<forall>n. keeps I (random_bytes E n)) \<and>
     (\<forall>s. I s \<longrightarrow> I (snd (new_object E s))) \<and>
     (\<forall>i this args s. I s \<longrightarrow> I (snd (new_event E i this args s))) \<and>
     (\<forall>k s. I s \<longrightarrow> I (snd (new_error E k s))) \<and> keeps I (go_resume E)"

lemma engine_rules [keeping]:
  assumes "engine_keeps I E"
  shows "keeps I (reflect_get E v k)" "keeps I (reflect_set E v k x)" "keeps I (reflect_delete E v k)"
    "keeps I (reflect_apply E f v args)" "keeps I (reflect_construct E f args)" "keeps I (instance_of E v t)"
    "keeps I (string_of E v)" "keeps I (parsed_length E v)" "keeps I (set_from E v p n)"
    "keeps I (random_bytes E m)" "keeps I (go_resume E)"
  using assms by (simp_all add: engine_keeps_def)

lemma keeps_test_call_export: "keeps I e0 \<Longrightarrow> (\<And>a b. keeps I (e a b)) \<Longrightarrow> keeps I (test_call_export e0 e a b)"
  unfolding test_call_export_def by (intro keeping)

lemma keeps_throwing [keeping]: "engine_keeps I E \<Longrightarrow> keeps I (throwing E k)"
  by (simp add: engine_keeps_def keeps_def throwing_def split_beta)

lemma keeps_new_event: "engine_keeps I E \<Longrightarrow> I s \<Longrightarrow> I (snd (new_event E i this args s))"
  by (simp add: engine_keeps_def)

lemma keeps_new_object: "engine_keeps I E \<Longrightarrow> I s \<Longrightarrow> I (snd (new_object E s))"
  by (simp add: engine_keeps_def)

lemma keeps_reading [keeping]: "engine_keeps I E \<Longrightarrow> keeps I (reading E f)"
  using keeps_throwing [of I E RangeErr] by (auto simp: keeps_def reading_def split: option.split)

lemma keeps_load [keeping]: "engine_keeps I E \<Longrightarrow> keeps I (load E a)"
  using keeps_throwing [of I E] by (auto simp: keeps_def load_def split: option.split)

lemma keeps_byte_view [keeping]: "engine_keeps I E \<Longrightarrow> keeps I (byte_view E p n)"
  using keeps_throwing [of I E] by (auto simp: keeps_def byte_view_def)

lemma keeps_get_sp [keeping]: "engine_keeps I E \<Longrightarrow> keeps I (get_sp E)"
  using keeps_throwing [of I E] by (auto simp: keeps_def get_sp_def)

section \<open>A sound table\<close>

text \<open>
  The table is sound when its counts are those of some references, whoever holds them. A reference
  that is counted and then cannot be written is lost, but the table stays sound.
\<close>

definition sound :: "'e js_state \<Rightarrow> bool" where
  "sound s \<longleftrightarrow> (\<exists>h. table_ok (tables s) h)"

lemma sound_unrelated [simp]:
  "sound (s\<lparr>arrays := x\<rparr>) = sound s" "sound (s\<lparr>console := c\<rparr>) = sound s" "sound (s\<lparr>go_stack := g\<rparr>) = sound s"
  "sound (s\<lparr>running := r, exit_codes := xs\<rparr>) = sound s" "sound (s\<lparr>promise_kept := r\<rparr>) = sound s"
  "sound (s\<lparr>pending := v\<rparr>) = sound s" "sound (s\<lparr>js_heap := e\<rparr>) = sound s"
  "sound (s\<lparr>tables := (tables s)\<lparr>mem := m\<rparr>\<rparr>) = sound s"
  by (simp_all add: sound_def)

lemma table_ok_writing:
  "table_ok t h \<Longrightarrow> table_ok (snd (writing f t)) h"
  "table_ok t h \<Longrightarrow> table_ok (snd (and_then (writing f t) (writing g))) h"
  by (auto simp: and_then_def writing_def split: option.split)

lemma table_ok_store_value:
  assumes "table_ok t h"
  shows "\<exists>h'. table_ok (snd (store_value a v t)) h'"
proof (cases "tabled v")
  case True
  from table_ok_intern [OF assms True] table_ok_writing show ?thesis
    using True by (fastforce simp: store_value_def tabled_def Let_def split_beta)
next
  case False
  then show ?thesis
    using assms table_ok_writing by (fastforce simp: store_value_def tabled_def split: option.split)
qed

lemma keeps_changing [keeping]: "engine_keeps sound E \<Longrightarrow> keeps sound (changing E f)"
  using keeps_throwing [of sound E RangeErr]
  by (auto simp: keeps_def changing_def writing_def sound_def split: option.split)

lemma keeps_store [keeping]:
  assumes "engine_keeps sound E"
  shows "keeps sound (store E a v)"
proof (rule keepsI)
  fix s :: "'a js_state" assume "sound s"
  then have "sound (s\<lparr>tables := snd (store_value a v (tables s))\<rparr>)"
    using table_ok_store_value by (auto simp: sound_def)
  with \<open>sound s\<close> keepsD [OF keeps_throwing [OF assms]] show "sound (snd (store E a v s))"
    by (auto simp: store_def split: prod.split bool.split)
qed

lemma keeps_asking [keeping]:
  "keeps I g \<Longrightarrow> (\<And>x. keeps I (f x)) \<Longrightarrow> keeps I (\<lambda>s. case h s of None \<Rightarrow> g s | Some x \<Rightarrow> f x s)"
  by (simp add: keeps_def split: option.split)

lemmas reading_ops = read_int64_def read_int32_def load_slice_def load_slice_of_values_def load_string_def

lemma keeps_load_each: "engine_keeps I E \<Longrightarrow> keeps I (load_each E a n)"
proof (induction n arbitrary: a)
  case (Suc n)
  from Suc.prems show ?case
    unfolding load_each.simps by (intro keeping Suc.IH)
qed (simp add: keeps_returning)

lemma keeps_reads [keeping]:
  assumes "engine_keeps I E"
  shows "keeps I (read_int64 E a)" "keeps I (read_int32 E a)" "keeps I (load_slice E a)"
    "keeps I (load_slice_of_values E a)" "keeps I (load_string E a)"
  unfolding reading_ops by (intro keeping keeps_load_each assms)+

lemma keeps_writes [keeping]:
  assumes "engine_keeps sound E"
  shows "keeps sound (write_byte E a b)" "keeps sound (write_int64 E a n)" "keeps sound (set_view E view bs)"
    "keeps sound (answer E off flag v)" "keeps sound body \<Longrightarrow> keeps sound (calling E off body)"
  unfolding write_byte_def write_int64_def set_view_def answer_def calling_def
  by ((rule keeping allI | assumption | rule assms)+)

lemma keeps_new_bytes [keeping]: "engine_keeps sound E \<Longrightarrow> keeps sound (new_bytes E bs)"
  using keeps_new_object [of sound E] by (simp add: keeps_def new_bytes_def split_beta)

lemmas import_defs =
  wasm_write_def nanotime1_def walltime_def get_random_data_def string_val_def value_get_def value_set_def
  value_delete_def value_index_def value_set_index_def value_call_def value_invoke_def value_new_def
  value_length_def value_prepare_string_def value_load_string_def value_instance_of_def copy_bytes_to_go_def
  call_body_def invoke_body_def new_body_def Let_def

lemma keeps_imports [keeping]:
  assumes "engine_keeps sound E"
  shows "keeps sound (nanotime1 E t sp)" "keeps sound (walltime E d sp)"
    "keeps sound (get_random_data E sp)" "keeps sound (string_val E sp)" "keeps sound (value_get E sp)"
    "keeps sound (value_set E sp)" "keeps sound (value_delete E sp)" "keeps sound (value_index E sp)"
    "keeps sound (value_set_index E sp)" "keeps sound (value_call E sp)" "keeps sound (value_invoke E sp)"
    "keeps sound (value_new E sp)" "keeps sound (value_length E sp)" "keeps sound (value_prepare_string E sp)"
    "keeps sound (value_load_string E sp)" "keeps sound (value_instance_of E sp)" "keeps sound (copy_bytes_to_go E sp)"
  unfolding import_defs by ((rule keeping | assumption | rule assms)+)

lemma keeps_only [keeping]: "(\<And>s. I s \<Longrightarrow> I (f s)) \<Longrightarrow> keeps I (\<lambda>s. (r s, f s))"
  by (simp add: keeps_def)

lemma keeps_updates:
  "keeps sound (\<lambda>s. (r, s\<lparr>arrays := x s\<rparr>))" "keeps sound (\<lambda>s. (r, s\<lparr>console := c s\<rparr>))"
  "keeps sound (\<lambda>s. (r, s\<lparr>running := b, exit_codes := ks s\<rparr>))"
  "keeps sound (\<lambda>s. (r, if running s then s else s\<lparr>promise_kept := p\<rparr>))"
  by (simp_all add: keeps_def)

lemma keeps_copy_bytes_to_js [keeping]:
  assumes "engine_keeps sound E"
  shows "keeps sound (copy_bytes_to_js E sp)"
proof -
  have "keeps sound (\<lambda>s. case (dst, bytes_of dst s) of
        (JObject i, Some old) \<Rightarrow> f i old s | _ \<Rightarrow> g s)"
    if "\<And>i old. keeps sound (f i old)" "keeps sound g"
    for dst and f :: "nat \<Rightarrow> 8 word list \<Rightarrow> ('a, unit) js" and g :: "('a, unit) js"
    using that by (auto simp: keeps_def split: jsval.split option.split)
  note rule = this
  show ?thesis
    unfolding copy_bytes_to_js_def Let_def
    by (intro keeping rule keeps_updates keeps_writes assms)
qed

lemma keeps_runtime [keeping]:
  assumes "engine_keeps sound E"
  shows "keeps sound (wasm_exit E sp)" "keeps sound (wasm_write E sp)" "keeps sound (debug_print sp)"
  unfolding wasm_exit_def wasm_write_def debug_print_def Let_def
  by ((rule keeps_updates keeping | assumption | rule assms)+)

lemma keeps_resume_go [keeping]: "engine_keeps sound E \<Longrightarrow> keeps sound (resume_go E)"
  using keepsD [OF keeps_throwing [of sound E]] keepsD [OF engine_rules(11) [of sound E]]
  by (fastforce simp: keeps_def resume_go_def followed_by_def split: prod.split sum.split)

lemma keeps_func_wrapper [keeping]:
  assumes "engine_keeps sound E"
  shows "keeps sound (func_wrapper E i this args)"
proof -
  have "keeps sound (followed_by (resume_go E) (\<lambda>_. reflect_get E ev (Named (lit ''result''))))" for ev
    by (intro keeping assms)
  then show ?thesis
    using keeps_new_event [OF assms] by (simp add: keeps_def func_wrapper_def split_beta)
qed

section \<open>What Go does\<close>

text \<open>
  Compiled code works on its own memory and stack, or calls an import. It may give back what it
  holds: an identifier whose count is not zero.
\<close>

datatype go_action = Calls import "32 word" | Works memory "32 word"

fun go_act :: "'e js_engine \<Rightarrow> go_action \<Rightarrow> ('e, unit) js" where
  "go_act E (Calls i sp) = gojs E i sp"
| "go_act E (Works m sp) = (\<lambda>s. (Inr (), s\<lparr>tables := (tables s)\<lparr>mem := m\<rparr>, go_stack := sp\<rparr>))"

definition counted_ref :: "refs \<Rightarrow> nat \<Rightarrow> bool" where
  "counted_ref t i \<longleftrightarrow> i < vals_len t \<and> ref_counts t i \<noteq> Some (Count 0)"

fun go_fair :: "'e js_state \<Rightarrow> go_action \<Rightarrow> bool" where
  "go_fair s (Calls FinalizeRef sp) \<longleftrightarrow>
     (case get_uint32 (unat sp + 8) (mem (tables s)) of None \<Rightarrow> True | Some w \<Rightarrow> counted_ref (tables s) (unat w))"
| "go_fair s _ \<longleftrightarrow> True"

text \<open>One activation of Go: an exception of an import unwinds it.\<close>

fun go_runs :: "'e js_engine \<Rightarrow> go_action list \<Rightarrow> ('e, unit) js" where
  "go_runs E [] = returning ()"
| "go_runs E (a # as) = followed_by (go_act E a) (\<lambda>_. go_runs E as)"

fun fair_run :: "'e js_engine \<Rightarrow> go_action list \<Rightarrow> 'e js_state \<Rightarrow> bool" where
  "fair_run E [] s \<longleftrightarrow> True"
| "fair_run E (a # as) s \<longleftrightarrow> go_fair s a \<and> (case go_act E a s of (Inl _, _) \<Rightarrow> True | (Inr _, t) \<Rightarrow> fair_run E as t)"

text \<open>
  A page that can enter Go, and a program that decides what to do from the state in which it is
  entered, nested at most \<open>n\<close> deep: one level further in, JavaScript's stack is exhausted.
\<close>

fun entered :: "(('e, unit) js \<Rightarrow> 'e js_engine) \<Rightarrow> (nat \<Rightarrow> 'e js_state \<Rightarrow> go_action list) \<Rightarrow> jsval \<Rightarrow> nat \<Rightarrow> ('e, unit) js" where
  "entered page plan overflow 0 = (\<lambda>s. (Inl overflow, s))"
| "entered page plan overflow (Suc n) =
     (\<lambda>s. go_runs (page (entered page plan overflow n)) (plan n s) s)"

lemma release_fixed: "table_ok t h \<Longrightarrow> i < 7 \<Longrightarrow> release i t = t"
  by (simp add: table_ok_def counts_right_def release_def add_count_def Let_def fun_upd_idem)

lemma table_ok_release_counted:
  assumes "table_ok t h" "counted_ref t i"
  shows "\<exists>h'. table_ok (release i t) h'"
proof (cases "i < 7")
  case True
  with assms(1) show ?thesis by (auto simp: release_fixed)
next
  case False
  then have "0 < uses h i"
    using assms count_D [OF assms(1), of i] by (simp add: counted_ref_def)
  then have "i \<in> fst ` set h"
    using uses_zero [of h i] by auto
  with assms(1) table_ok_release show ?thesis by blast
qed

lemma finalize_sound:
  assumes "engine_keeps sound E" "sound s" "go_fair s (Calls FinalizeRef sp)"
  shows "sound (snd (finalize E sp s))"
  using assms keepsD [OF keeps_throwing [OF assms(1)] assms(2)] table_ok_release_counted
  by (fastforce simp: finalize_def sound_def split: option.split)

lemma go_act_sound:
  assumes "engine_keeps sound E" "sound s" "go_fair s a"
  shows "sound (snd (go_act E a s))"
proof (cases a)
  case (Calls i sp)
  show ?thesis
  proof (cases "i = FinalizeRef")
    case True
    with Calls finalize_sound [OF assms(1,2)] assms(3) show ?thesis by simp
  next
    case False
    then have "keeps sound (gojs E i sp)"
      using keeping assms(1) by (cases i) simp_all
    with Calls assms(2) show ?thesis by (simp add: keepsD)
  qed
next
  case (Works m sp)
  with assms(2) show ?thesis by (simp add: sound_def)
qed

lemma go_runs_sound:
  "engine_keeps sound E \<Longrightarrow> sound s \<Longrightarrow> fair_run E as s \<Longrightarrow> sound (snd (go_runs E as s))"
proof (induction as arbitrary: s)
  case (Cons a as)
  then show ?case
    using go_act_sound [of E s a] by (fastforce simp: followed_by_def split: prod.splits sum.splits)
qed (simp add: returning_def)

lemma entered_sound:
  assumes "\<And>g. keeps sound g \<Longrightarrow> engine_keeps sound (page g)"
    and "\<And>n s. sound s \<Longrightarrow> fair_run (page (entered page plan overflow n)) (plan n s) s"
  shows "keeps sound (entered page plan overflow n)"
proof (induction n)
  case (Suc n)
  with assms show ?case
    by (auto intro!: keepsI go_runs_sound)
qed (simp add: keeps_def)

text \<open>What a sound table means, without the ghost.\<close>

definition table_sane :: "refs \<Rightarrow> bool" where
  "table_sane t \<longleftrightarrow>
     (\<forall>i < 7. value_at i t = first_values ! i \<and> ref_counts t i = Some Forever) \<and>
     (\<forall>k i. ids t k = Some i \<longrightarrow> i < vals_len t \<and> value_at i t = k) \<and>
     (\<forall>i. 7 \<le> i \<and> i < vals_len t \<longrightarrow>
        (if i \<in> set (id_pool t) then value_at i t = JNull \<and> ref_counts t i = Some (Count 0)
         else ids t (value_at i t) = Some i \<and> (\<exists>n > 0. ref_counts t i = Some (Count n)))) \<and>
     distinct (id_pool t) \<and> (\<forall>i \<in> set (id_pool t). 7 \<le> i \<and> i < vals_len t)"

lemma sound_sane:
  assumes "sound s"
  shows "table_sane (tables s)"
proof -
  let ?t = "tables s"
  obtain h where ok: "table_ok ?t h"
    using assms by (auto simp: sound_def)
  have len: "7 \<le> vals_len ?t" and pool: "distinct (id_pool ?t)" and
    pool_set: "set (id_pool ?t) = {i. 7 \<le> i \<and> i < vals_len ?t \<and> uses h i = 0}" and
    pooled: "\<And>i. i \<in> set (id_pool ?t) \<Longrightarrow> vals ?t i = Some JNull"
    using ok by (simp_all add: table_defs)
  have "value_at i ?t = first_values ! i \<and> ref_counts ?t i = Some Forever" if "i < 7" for i
    using that ok count_D [OF ok, of i] len by (simp add: table_ok_def fixed_part_def value_at_def)
  moreover have "i < vals_len ?t \<and> value_at i ?t = k" if "ids ?t k = Some i" for k i
    using ids_D [OF ok that] by (simp add: value_at_def)
  moreover have "if i \<in> set (id_pool ?t) then value_at i ?t = JNull \<and> ref_counts ?t i = Some (Count 0)
      else ids ?t (value_at i ?t) = Some i \<and> (\<exists>n > 0. ref_counts ?t i = Some (Count n))"
    if i: "7 \<le> i" "i < vals_len ?t" for i
  proof (cases "i \<in> set (id_pool ?t)")
    case True
    then show ?thesis
      using pooled count_D [OF ok i(2)] i pool_set by (simp add: value_at_def)
  next
    case False
    then have u: "0 < uses h i"
      using i pool_set by simp
    then obtain v where "(i, v) \<in> set h"
      using uses_zero [of h i] by auto
    with held_D [OF ok] False u count_D [OF ok i(2)] i show ?thesis
      by (auto simp: value_at_def)
  qed
  ultimately show ?thesis
    using pool pool_set by (auto simp: table_sane_def)
qed

text \<open>How the page enters Go once it runs: a timer or an event resumes it, or a function it gave away is called.\<close>

datatype page_entry = Resumption | Callback int jsval "jsval list"

fun enters :: "'e js_engine \<Rightarrow> page_entry \<Rightarrow> 'e js_state \<Rightarrow> 'e js_state" where
  "enters E Resumption s = snd (resume_go E s)"
| "enters E (Callback i this args) s = snd (func_wrapper E i this args s)"

lemma enters_sound: "engine_keeps sound E \<Longrightarrow> sound s \<Longrightarrow> sound (enters E e s)"
  by (cases e) (simp_all add: keepsD keeps_resume_go keeps_func_wrapper)

section \<open>Property\<close>

text \<open>
  C20: the table of JavaScript values is sound for the whole life of a program, whatever it imports
  and however the page and the program call each other, imports that throw half way included. The
  page may do anything but reach into Go's table, and the program may do anything but give back a
  reference it does not hold. Then the seven fixed values stay, an identifier leads back to the value
  it was given for, every other one is either counted and found again under its value or free,
  empty and waiting in the pool once.
\<close>

theorem imports_keep_the_table:
  assumes "\<forall>g. keeps sound g \<longrightarrow> engine_keeps sound (page g)"
    and "\<forall>n s. sound s \<longrightarrow> fair_run (page (entered page plan overflow n)) (plan n s) s"
    and "tables s = run_tables m"
  shows "table_sane (tables (foldl (\<lambda>s e. enters (page (entered page plan overflow n)) e s)
    (snd (entered page plan overflow n s)) es))"
proof -
  have entry: "keeps sound (entered page plan overflow n)"
    using assms(1,2) by (intro entered_sound) blast+
  then have E: "engine_keeps sound (page (entered page plan overflow n))"
    using assms(1) by blast
  have run: "sound (foldl (\<lambda>s e. enters (page (entered page plan overflow n)) e s) t es)" if "sound t" for t
    using that by (induction es arbitrary: t) (simp_all add: enters_sound [OF E])
  have "sound s"
    using assms(3) table_ok_run_tables by (auto simp: sound_def)
  then show ?thesis
    by (intro sound_sane run keepsD [OF entry])
qed

definition demo_plan :: "nat \<Rightarrow> unit js_state \<Rightarrow> go_action list" where
  "demo_plan n s = [Calls ValueInvoke 0, Works blank_memory 64, Calls StringVal 64]"

theorem imports_keep_the_table_witness:
  "table_sane (tables (foldl (\<lambda>s e. enters (demo_engine\<lparr>go_resume :=
       entered (\<lambda>g. demo_engine\<lparr>go_resume := g\<rparr>) demo_plan Undef 2\<rparr>) e s)
     (snd (entered (\<lambda>g. demo_engine\<lparr>go_resume := g\<rparr>) demo_plan Undef 2 (demo_page blank_memory)))
     [Resumption, Callback 3 JNull []]))"
proof (rule imports_keep_the_table)
  show "\<forall>g. keeps sound g \<longrightarrow> engine_keeps sound (demo_engine\<lparr>go_resume := g\<rparr>)"
    by (simp add: engine_keeps_def demo_engine_def keeps_def returning_def)
  show "\<forall>n s. sound s \<longrightarrow> fair_run (demo_engine\<lparr>go_resume :=
      entered (\<lambda>g. demo_engine\<lparr>go_resume := g\<rparr>) demo_plan Undef n\<rparr>) (demo_plan n s) s"
    by (simp add: demo_plan_def split: prod.split sum.split)
  show "tables (demo_page blank_memory) = run_tables blank_memory"
    by (simp add: demo_page_def)
qed

end
