(* ===== verification/GoShim.thy ===== *)
theory GoShim
  imports GoHost GoText
begin

text \<open>
  What docs/wasm_exec.js puts in place of an operating system when it is loaded: a file system that
  can only print, a process without identity, paths that are only joined; and what it demands of the
  page before it defines the class \<open>Go\<close>.
\<close>

section \<open>Loading the script\<close>

record globals =
  has_fs :: bool
  has_process :: bool
  has_path :: bool
  has_crypto :: bool
  has_performance :: bool
  has_encoder :: bool
  has_decoder :: bool
  has_go :: bool

definition missing :: "string \<Rightarrow> string \<Rightarrow> string" where
  "missing what why = ''globalThis.'' @ what @ '' is not available, polyfill required'' @ why"

text \<open>
  A stand-in is put in place only where the host has none. The flags say whether an object is there,
  whoever has put it there; the file system of this script starts with an empty line pending.
\<close>

definition install_fs :: "globals \<Rightarrow> globals" where
  "install_fs g = (if \<not> has_fs g then g\<lparr>has_fs := True\<rparr> else g)"

definition install_process :: "globals \<Rightarrow> globals" where
  "install_process g = (if \<not> has_process g then g\<lparr>has_process := True\<rparr> else g)"

definition install_path :: "globals \<Rightarrow> globals" where
  "install_path g = (if \<not> has_path g then g\<lparr>has_path := True\<rparr> else g)"

definition fresh_output :: "jsstr list \<times> jsstr" where
  "fresh_output = ([], [])"

text \<open>\<open>Inl\<close> is the text of the error that ends the script; the shims put in place stay.\<close>

definition load_script :: "globals \<Rightarrow> (string + unit) \<times> globals" where
  "load_script g =
     (let g3 = install_path (install_process (install_fs g)) in
      if \<not> has_crypto g3 then (Inl (missing ''crypto'' '' (crypto.getRandomValues only)''), g3)
      else if \<not> has_performance g3 then (Inl (missing ''performance'' '' (performance.now only)''), g3)
      else if \<not> has_encoder g3 then (Inl (missing ''TextEncoder'' ''''), g3)
      else if \<not> has_decoder g3 then (Inl (missing ''TextDecoder'' ''''), g3)
      else (Inr (), g3\<lparr>has_go := True\<rparr>))"

section \<open>The file system\<close>

datatype fs_request =
    Write "8 word list" int int "int option" | Chmod | Chown | Close | Fchmod | Fchown | Fstat | Fsync
  | Ftruncate | Lchown | Link | Lstat | Mkdir | Open | Read | Readdir | Readlink | Rename | Rmdir | Stat
  | Symlink | Truncate | Unlink | Utimes

text \<open>The arguments of the callback: the error ENOSYS, success, or a count of bytes.\<close>

datatype fs_reply = Enosys | Success | Wrote nat

fun fs_shim :: "fs_request \<Rightarrow> jsstr list \<times> jsstr \<Rightarrow> fs_reply \<times> jsstr list \<times> jsstr" where
  "fs_shim (Write buf offset len position) st =
     (case fs_write decode buf offset len position st of
        (None, st') \<Rightarrow> (Enosys, st')
      | (Some n, st') \<Rightarrow> (Wrote n, st'))"
| "fs_shim Chmod st = (Enosys, st)"
| "fs_shim Chown st = (Enosys, st)"
| "fs_shim Close st = (Enosys, st)"
| "fs_shim Fchmod st = (Enosys, st)"
| "fs_shim Fchown st = (Enosys, st)"
| "fs_shim Fstat st = (Enosys, st)"
| "fs_shim Fsync st = (Success, st)"
| "fs_shim Ftruncate st = (Enosys, st)"
| "fs_shim Lchown st = (Enosys, st)"
| "fs_shim Link st = (Enosys, st)"
| "fs_shim Lstat st = (Enosys, st)"
| "fs_shim Mkdir st = (Enosys, st)"
| "fs_shim Open st = (Enosys, st)"
| "fs_shim Read st = (Enosys, st)"
| "fs_shim Readdir st = (Enosys, st)"
| "fs_shim Readlink st = (Enosys, st)"
| "fs_shim Rename st = (Enosys, st)"
| "fs_shim Rmdir st = (Enosys, st)"
| "fs_shim Stat st = (Enosys, st)"
| "fs_shim Symlink st = (Enosys, st)"
| "fs_shim Truncate st = (Enosys, st)"
| "fs_shim Unlink st = (Enosys, st)"
| "fs_shim Utimes st = (Enosys, st)"

section \<open>The process and its paths\<close>

datatype process_request =
  Getuid | Getgid | Geteuid | Getegid | Getgroups | Pid | Ppid | Umask | Cwd | Chdir

text \<open>\<open>None\<close> is the thrown ENOSYS.\<close>

definition process_shim :: "process_request \<Rightarrow> int option" where
  "process_shim r = (if r \<in> {Getgroups, Umask, Cwd, Chdir} then None else Some (- 1))"

fun path_resolve :: "jsstr list \<Rightarrow> jsstr" where
  "path_resolve [] = []"
| "path_resolve [s] = s"
| "path_resolve (s # t # ss) = s @ lit ''/'' @ path_resolve (t # ss)"

section \<open>Lemmas\<close>

lemma load_script_result:
  "(fst (load_script g) = Inr ()) = (has_crypto g \<and> has_performance g \<and> has_encoder g \<and> has_decoder g)"
  "has_go (snd (load_script g)) \<longleftrightarrow> fst (load_script g) = Inr () \<or> has_go g"
  "has_fs (snd (load_script g)) \<and> has_process (snd (load_script g)) \<and> has_path (snd (load_script g))"
  by (auto simp: load_script_def install_fs_def install_process_def install_path_def Let_def)

text \<open>Whole buffers at the current position are printed; nothing else has any effect.\<close>

definition prints :: "fs_request \<Rightarrow> 8 word list" where
  "prints r =
     (case r of Write buf offset len position \<Rightarrow>
        if offset = 0 \<and> len = int (length buf) \<and> position = None then buf else []
      | _ \<Rightarrow> [])"

lemma fs_shim_effect:
  "fs_shim r st = (Wrote n, st') \<longleftrightarrow>
     (\<exists>buf. r = Write buf 0 (int (length buf)) None \<and> n = length buf \<and> st' = snd (write_sync decode buf st))"
  "fst (fs_shim r st) = Enosys \<or> fst (fs_shim r st) = Success \<Longrightarrow> snd (fs_shim r st) = st"
  by (cases r; auto simp: fs_write_def write_sync_def Let_def split: option.splits prod.splits)+

definition after_requests :: "fs_request list \<Rightarrow> jsstr list \<times> jsstr" where
  "after_requests rs = foldl (\<lambda>st r. snd (fs_shim r st)) fresh_output rs"

lemma fs_shim_text:
  "logged_text (fst (snd (fs_shim r st))) @ snd (snd (fs_shim r st)) =
     logged_text (fst st) @ snd st @ (if fst (fs_shim r st) = Enosys \<or> fst (fs_shim r st) = Success then [] else decode (prints r))"
proof (cases "\<exists>buf. r = Write buf 0 (int (length buf)) None")
  case True
  then obtain buf where r: "r = Write buf 0 (int (length buf)) None" by blast
  have "fs_shim r st = (Wrote (length buf), snd (write_sync decode buf st))"
    using fs_shim_effect(1) r by blast
  then show ?thesis
    using write_sync_text [of decode buf st] by (simp add: r prints_def del: fs_shim.simps)
next
  case False
  then have "fst (fs_shim r st) = Enosys \<or> fst (fs_shim r st) = Success"
    by (metis fs_reply.exhaust fs_shim_effect(1) prod.collapse)
  with fs_shim_effect(2) [of r st] show ?thesis by simp
qed

lemma logged_after:
  "logged_text (fst (foldl (\<lambda>st r. snd (fs_shim r st)) st rs)) @ snd (foldl (\<lambda>st r. snd (fs_shim r st)) st rs) =
     logged_text (fst st) @ snd st @ concat (map (decode \<circ> prints) rs)"
proof (induction rs arbitrary: st)
  case (Cons r rs)
  have "decode [] = []" by (simp add: decode_def utf8_bom_def)
  then have "(if fst (fs_shim r st) = Enosys \<or> fst (fs_shim r st) = Success then [] else decode (prints r)) = decode (prints r)"
    by (cases r) (auto simp: prints_def fs_write_def split: option.splits prod.splits)
  with Cons.IH [of "snd (fs_shim r st)"] fs_shim_text [of r st] show ?case
    by (simp del: fs_shim.simps)
qed simp

lemma pending_shim: "js_newline \<notin> set (snd st) \<Longrightarrow> js_newline \<notin> set (snd (snd (fs_shim r st)))"
proof (cases "\<exists>buf. r = Write buf 0 (int (length buf)) None")
  case True
  then obtain buf where "fs_shim r st = (Wrote (length buf), snd (write_sync decode buf st))"
    using fs_shim_effect(1) by blast
  then show ?thesis using write_sync_pending [of decode buf st] by simp
next
  case False
  assume "js_newline \<notin> set (snd st)"
  moreover have "fst (fs_shim r st) = Enosys \<or> fst (fs_shim r st) = Success"
    using False by (metis fs_reply.exhaust fs_shim_effect(1) prod.collapse)
  ultimately show ?thesis using fs_shim_effect(2) [of r st] by simp
qed

lemma cut_nothing: "js_newline \<notin> set s \<Longrightarrow> cut_last_newline s = None"
  by (induction s) auto

lemma shim_without_print:
  assumes "prints r = []" "js_newline \<notin> set (snd st)"
  shows "snd (fs_shim r st) = st"
proof (cases "\<exists>buf. r = Write buf 0 (int (length buf)) None")
  case True
  with assms(1) have "r = Write [] 0 0 None" by (auto simp: prints_def)
  with assms(2) show ?thesis
    by (simp add: fs_write_def write_sync_def decode_def utf8_bom_def cut_nothing)
next
  case False
  then have "fst (fs_shim r st) = Enosys \<or> fst (fs_shim r st) = Success"
    by (metis fs_reply.exhaust fs_shim_effect(1) prod.collapse)
  then show ?thesis by (rule fs_shim_effect(2))
qed

lemma after_prints_only:
  "js_newline \<notin> set (snd st) \<Longrightarrow>
   foldl (\<lambda>st r. snd (fs_shim r st)) st (filter (\<lambda>r. prints r \<noteq> []) rs) = foldl (\<lambda>st r. snd (fs_shim r st)) st rs"
proof (induction rs arbitrary: st)
  case (Cons r rs)
  then show ?case
    using pending_shim [of st r] shim_without_print [of r st]
    by (cases "prints r = []") (simp_all del: fs_shim.simps)
qed simp

lemma pending_after: "js_newline \<notin> set (snd st) \<Longrightarrow> js_newline \<notin> set (snd (foldl (\<lambda>st r. snd (fs_shim r st)) st rs))"
  by (induction rs arbitrary: st) (simp_all add: pending_shim del: fs_shim.simps)

section \<open>Properties\<close>

text \<open>
  Whatever a Go program asks of its file system, in any order, the page's console shows exactly
  the text of its whole-buffer writes in their order, cut into lines at newlines with the rest
  pending; every other request fails or does nothing, and leaves no trace.
\<close>

theorem file_system_only_prints:
  "logged_text (fst (after_requests rs)) @ snd (after_requests rs) = concat (map (decode \<circ> prints) rs) \<and>
   js_newline \<notin> set (snd (after_requests rs)) \<and>
   after_requests (filter (\<lambda>r. prints r \<noteq> []) rs) = after_requests rs"
  using logged_after [of "([], [])" rs] pending_after [of "([], [])" rs] after_prints_only [of "([], [])" rs]
  by (simp add: after_requests_def logged_text_def fresh_output_def)

end
