(* ===== verification/GoStart.thy ===== *)
theory GoStart
  imports GoCalls GoRun
begin

text \<open>
  \<open>run\<close> of docs/wasm_exec.js as a whole: the fresh tables, the layout of the arguments, the first
  entry into Go, and the promise it awaits. The program's entry point is the parameter \<open>go_main\<close>; it
  gets the number of arguments and the address of their pointers.
\<close>

datatype run_failure = NoInstance | BadLayout run_error | GoThrew jsval

datatype run_result = Rejected run_failure | Awaiting | Resolved

definition begin_run :: "memory \<Rightarrow> 'e js_state \<Rightarrow> 'e js_state" where
  "begin_run m s = s\<lparr>tables := run_tables m, running := True\<rparr>"

definition run_program ::
  "(nat \<Rightarrow> nat \<Rightarrow> ('e, unit) js) \<Rightarrow> bool \<Rightarrow> jsstr list \<Rightarrow> (jsstr \<times> jsstr) list \<Rightarrow> memory \<Rightarrow>
   'e js_state \<Rightarrow> run_result \<times> 'e js_state" where
  "run_program go_main is_instance args env m s =
     (if \<not> is_instance then (Rejected NoInstance, s)
      else let s1 = begin_run m s in
        case lay_out args env m of
          Inl e \<Rightarrow> (Rejected (BadLayout e), s1)
        | Inr (argc, argv, m1) \<Rightarrow>
            (case go_main argc argv (s1\<lparr>tables := (tables s1)\<lparr>mem := m1\<rparr>\<rparr>) of
               (Inl e, t) \<Rightarrow> (Rejected (GoThrew e), t)
             | (Inr _, t) \<Rightarrow>
                 (let u = (if running t then t else t\<lparr>promise_kept := True\<rparr>) in
                  (if promise_kept u then Resolved else Awaiting, u))))"

text \<open>
  A run that is rejected before it reaches Go is the same for every program; one that reaches Go
  enters it once, on fresh tables, nothing held, and with the arguments in place.
\<close>

lemma run_program_cases:
  "(\<exists>f t. run_program g inst args env m s = (Rejected f, t) \<and>
      (\<forall>other. run_program other inst args env m s = (Rejected f, t)) \<and> (\<not> inst \<or> (\<exists>e. lay_out args env m = Inl e))) \<or>
   (\<exists>argv s0. inst \<and> lay_out args env m = Inr (length args, argv, mem (tables s0)) \<and> running s0 \<and>
      table_ok (tables s0) [] \<and> console s0 = console s \<and>
      run_program g inst args env m s =
        (case g (length args) argv s0 of
           (Inl e, t) \<Rightarrow> (Rejected (GoThrew e), t)
         | (Inr _, t) \<Rightarrow>
             if running t then (if promise_kept t then Resolved else Awaiting, t)
             else (Resolved, t\<lparr>promise_kept := True\<rparr>)))"
proof (cases "lay_out args env m")
  case (Inl e)
  then show ?thesis by (auto simp: run_program_def Let_def)
next
  case (Inr r)
  then obtain argv m1 where r: "r = (length args, argv, m1)"
    by (auto simp: lay_out_def Let_def split: option.splits if_splits)
  let ?s0 = "(begin_run m s)\<lparr>tables := (run_tables m)\<lparr>mem := m1\<rparr>\<rparr>"
  have "table_ok (tables ?s0) []"
    using table_ok_run_tables [of m] by simp
  then show ?thesis
  proof (cases inst)
    case True
    with Inr r \<open>table_ok (tables ?s0) []\<close> show ?thesis
      by (intro disjI2 exI [of _ argv] exI [of _ ?s0])
        (simp add: run_program_def begin_run_def Let_def split: prod.split sum.split)
  qed (simp add: run_program_def)
qed

end
