(* ===== verification/Store.thy ===== *)
theory Store
  imports Prelude
begin

text \<open>
  store/store.go: the interface \<open>Store\<close>, \<open>MemoryStore\<close> on one goroutine, and \<open>MemoryStore\<close> under
  its \<open>RWMutex\<close> with any number of goroutines calling it. A Go string is its bytes.
\<close>

type_synonym bytes = string

section \<open>The interface\<close>

text \<open>
  What the server may rely on: three operations over a state that stands for a finite map.
\<close>

locale kv_store =
  fixes get :: "bytes \<Rightarrow> 's \<Rightarrow> bytes \<times> bool"
    and set_op :: "bytes \<Rightarrow> bytes \<Rightarrow> 's \<Rightarrow> 's"
    and del :: "bytes \<Rightarrow> 's \<Rightarrow> bool \<times> 's"
    and view :: "'s \<Rightarrow> bytes \<rightharpoonup> bytes"
  assumes get_hit: "view s k = Some v \<Longrightarrow> get k s = (v, True)"
    and get_miss: "view s k = None \<Longrightarrow> \<not> snd (get k s)"
    and view_set: "view (set_op k v s) = (view s)(k \<mapsto> v)"
    and del_found: "fst (del k s) \<longleftrightarrow> k \<in> dom (view s)"
    and view_del: "view (snd (del k s)) = (view s)(k := None)"
begin

lemma get_after_set: "get k (set_op k v s) = (v, True)"
  by (rule get_hit) (simp add: view_set)

end

section \<open>MemoryStore\<close>

record memory_store =
  data :: "bytes \<rightharpoonup> bytes"

definition new_memory_store :: memory_store where
  "new_memory_store = \<lparr>data = (\<lambda>_. None)\<rparr>"

definition mem_get :: "bytes \<Rightarrow> memory_store \<Rightarrow> bytes \<times> bool" where
  "mem_get k s = (case data s k of Some v \<Rightarrow> (v, True) | None \<Rightarrow> ([], False))"

definition mem_set :: "bytes \<Rightarrow> bytes \<Rightarrow> memory_store \<Rightarrow> memory_store" where
  "mem_set k v s = s\<lparr>data := (data s)(k \<mapsto> v)\<rparr>"

definition mem_delete :: "bytes \<Rightarrow> memory_store \<Rightarrow> bool \<times> memory_store" where
  "mem_delete k s =
     (let ok = data s k \<noteq> None in (ok, if ok then s\<lparr>data := (data s)(k := None)\<rparr> else s))"

interpretation mst: kv_store mem_get mem_set mem_delete data
  by unfold_locales (auto simp: mem_get_def mem_set_def mem_delete_def Let_def)

section \<open>MemoryStore under its lock\<close>

text \<open>
  A goroutine calls an operation, takes the lock for reading (\<open>RLock\<close>) or writing (\<open>Lock\<close>),
  works on the map, and gives the lock back as it returns. Delete looks the key up and deletes it in
  two separate accesses. Goroutines take turns between any two of these steps. \<open>trail\<close> is a ghost:
  every operation with its result, in the order of its last access to the map.
\<close>

datatype store_op = Get bytes | Set bytes bytes | Delete bytes

datatype store_result = Got "bytes \<times> bool" | SetDone | Deleted bool

datatype phase =
  Idle
| Called store_op
| Locked store_op
| LookedUp bytes bool
| Finished store_op store_result

record lock_state =
  readers :: "nat set"
  writer :: "nat option"
  contents :: memory_store
  phase_of :: "nat \<Rightarrow> phase"
  trail :: "(nat \<times> store_op \<times> store_result) list"

fun is_get :: "store_op \<Rightarrow> bool" where
  "is_get (Get k) = True"
| "is_get _ = False"

definition go_phase :: "nat \<Rightarrow> phase \<Rightarrow> lock_state \<Rightarrow> lock_state" where
  "go_phase g p s = s\<lparr>phase_of := (phase_of s)(g := p)\<rparr>"

definition finish :: "nat \<Rightarrow> store_op \<Rightarrow> store_result \<Rightarrow> lock_state \<Rightarrow> lock_state" where
  "finish g op r s = (go_phase g (Finished op r) s)\<lparr>trail := trail s @ [(g, op, r)]\<rparr>"

inductive lock_step :: "lock_state \<Rightarrow> lock_state \<Rightarrow> bool" where
  invoke: "phase_of s g = Idle \<Longrightarrow> lock_step s (go_phase g (Called op) s)"
| rlock: "phase_of s g = Called (Get k) \<Longrightarrow> writer s = None \<Longrightarrow>
    lock_step s ((go_phase g (Locked (Get k)) s)\<lparr>readers := insert g (readers s)\<rparr>)"
| wlock: "phase_of s g = Called op \<Longrightarrow> \<not> is_get op \<Longrightarrow> writer s = None \<Longrightarrow> readers s = {} \<Longrightarrow>
    lock_step s ((go_phase g (Locked op) s)\<lparr>writer := Some g\<rparr>)"
| fetch: "phase_of s g = Locked (Get k) \<Longrightarrow>
    lock_step s (finish g (Get k) (Got (mem_get k (contents s))) s)"
| put: "phase_of s g = Locked (Set k v) \<Longrightarrow>
    lock_step s ((finish g (Set k v) SetDone s)\<lparr>contents := mem_set k v (contents s)\<rparr>)"
| lookup: "phase_of s g = Locked (Delete k) \<Longrightarrow>
    lock_step s (go_phase g (LookedUp k (snd (mem_get k (contents s)))) s)"
| remove: "phase_of s g = LookedUp k ok \<Longrightarrow>
    lock_step s ((finish g (Delete k) (Deleted ok) s)
      \<lparr>contents := (if ok then (contents s)\<lparr>data := (data (contents s))(k := None)\<rparr> else contents s)\<rparr>)"
| runlock: "phase_of s g = Finished (Get k) r \<Longrightarrow>
    lock_step s ((go_phase g Idle s)\<lparr>readers := readers s - {g}\<rparr>)"
| unlock: "phase_of s g = Finished op r \<Longrightarrow> \<not> is_get op \<Longrightarrow>
    lock_step s ((go_phase g Idle s)\<lparr>writer := None\<rparr>)"

definition lock_start :: lock_state where
  "lock_start = \<lparr>readers = {}, writer = None, contents = new_memory_store,
     phase_of = (\<lambda>_. Idle), trail = []\<rparr>"

inductive lock_reach :: "lock_state \<Rightarrow> bool" where
  start: "lock_reach lock_start"
| more: "lock_reach s \<Longrightarrow> lock_step s t \<Longrightarrow> lock_reach t"

text \<open>The sequential meaning of an operation, and of a list of them.\<close>

fun run_op :: "store_op \<Rightarrow> memory_store \<Rightarrow> store_result \<times> memory_store" where
  "run_op (Get k) s = (Got (mem_get k s), s)"
| "run_op (Set k v) s = (SetDone, mem_set k v s)"
| "run_op (Delete k) s = (let (ok, s') = mem_delete k s in (Deleted ok, s'))"

fun run_ops :: "(nat \<times> store_op \<times> store_result) list \<Rightarrow> memory_store \<Rightarrow> memory_store option" where
  "run_ops [] s = Some s"
| "run_ops ((g, op, r) # es) s = (let (r', s') = run_op op s in if r' = r then run_ops es s' else None)"

lemma run_ops_append:
  "run_ops (es @ fs) s = (case run_ops es s of None \<Rightarrow> None | Some s' \<Rightarrow> run_ops fs s')"
  by (induction es s rule: run_ops.induct) (auto split: prod.splits)

text \<open>Who holds the lock, read off the phases.\<close>

fun reading :: "phase \<Rightarrow> bool" where
  "reading (Locked op) = is_get op"
| "reading (Finished op r) = is_get op"
| "reading _ = False"

fun writing_phase :: "phase \<Rightarrow> bool" where
  "writing_phase (Locked op) = (\<not> is_get op)"
| "writing_phase (Finished op r) = (\<not> is_get op)"
| "writing_phase (LookedUp k ok) = True"
| "writing_phase _ = False"

definition lock_inv :: "lock_state \<Rightarrow> bool" where
  "lock_inv s \<longleftrightarrow>
     readers s = {g. reading (phase_of s g)} \<and>
     (\<forall>g. writing_phase (phase_of s g) \<longleftrightarrow> writer s = Some g) \<and>
     (writer s \<noteq> None \<longrightarrow> readers s = {}) \<and>
     (\<forall>g k ok. phase_of s g = LookedUp k ok \<longrightarrow> ok = (data (contents s) k \<noteq> None)) \<and>
     (\<forall>g op r. phase_of s g = Finished op r \<longrightarrow> (g, op, r) \<in> set (trail s)) \<and>
     run_ops (trail s) new_memory_store = Some (contents s)"

lemma lock_inv_start: "lock_inv lock_start"
  by (simp add: lock_inv_def lock_start_def)

lemma snd_mem_get [simp]: "snd (mem_get k s) \<longleftrightarrow> data s k \<noteq> None"
  by (simp add: mem_get_def split: option.split)

lemma writer_iff: "lock_inv s \<Longrightarrow> writing_phase (phase_of s g) \<longleftrightarrow> writer s = Some g"
  by (simp add: lock_inv_def)

lemma only_writer: "lock_inv s \<Longrightarrow> writing_phase (phase_of s g) \<Longrightarrow> h \<noteq> g \<Longrightarrow>
  \<not> writing_phase (phase_of s h) \<and> \<not> reading (phase_of s h)"
  by (auto simp: lock_inv_def)

lemma looked_up_right: "lock_inv s \<Longrightarrow> phase_of s g = LookedUp k ok \<Longrightarrow> ok = (data (contents s) k \<noteq> None)"
  by (simp add: lock_inv_def)

lemma no_other_lookup:
  assumes "lock_inv s" "writing_phase (phase_of s g)" "h \<noteq> g"
  shows "phase_of s h \<noteq> LookedUp k ok"
  using only_writer [OF assms] by auto

lemma run_ops_snoc:
  "run_ops es s0 = Some s \<Longrightarrow> run_op op s = (r, s') \<Longrightarrow> run_ops (es @ [(g, op, r)]) s0 = Some s'"
  by (simp add: run_ops_append)

lemma lock_inv_step: "lock_step s t \<Longrightarrow> lock_inv s \<Longrightarrow> lock_inv t"
proof (induction rule: lock_step.induct)
  case (invoke s g op)
  then have "writer s \<noteq> Some g" using writer_iff [of s g] by simp
  with invoke show ?case by (auto simp: lock_inv_def go_phase_def)
next
  case (rlock s g k)
  with writer_iff [of s g] show ?case by (auto simp: lock_inv_def go_phase_def)
next
  case (wlock s g op)
  with writer_iff [of s g] show ?case by (auto simp: lock_inv_def go_phase_def)
next
  case (fetch s g k)
  then have "run_ops (trail s @ [(g, Get k, Got (mem_get k (contents s)))]) new_memory_store = Some (contents s)"
    by (intro run_ops_snoc) (auto simp: lock_inv_def)
  with fetch writer_iff [of s g] show ?case by (auto simp: lock_inv_def go_phase_def finish_def)
next
  case (put s g k v)
  have w: "writing_phase (phase_of s g)" using put.hyps by simp
  have "run_ops (trail s @ [(g, Set k v, SetDone)]) new_memory_store = Some (mem_set k v (contents s))"
    using put.prems by (intro run_ops_snoc) (auto simp: lock_inv_def)
  with put no_other_lookup [OF put.prems w] show ?case
    by (auto simp: lock_inv_def go_phase_def finish_def)
next
  case (lookup s g k)
  with writer_iff [of s g] show ?case by (auto simp: lock_inv_def go_phase_def)
next
  case (remove s g k ok)
  let ?c = "if ok then (contents s)\<lparr>data := (data (contents s))(k := None)\<rparr> else contents s"
  have w: "writing_phase (phase_of s g)" using remove.hyps by simp
  have "run_ops (trail s @ [(g, Delete k, Deleted ok)]) new_memory_store = Some ?c"
  proof (rule run_ops_snoc)
    show "run_ops (trail s) new_memory_store = Some (contents s)"
      using remove.prems by (simp add: lock_inv_def)
    show "run_op (Delete k) (contents s) = (Deleted ok, ?c)"
      using looked_up_right [OF remove.prems remove.hyps] by (simp add: mem_delete_def)
  qed
  with remove no_other_lookup [OF remove.prems w] show ?case
    by (auto simp: lock_inv_def go_phase_def finish_def)
next
  case (runlock s g k r)
  with writer_iff [of s g] show ?case by (auto simp: lock_inv_def go_phase_def)
next
  case (unlock s g op r)
  with writer_iff [of s g] show ?case by (auto simp: lock_inv_def go_phase_def)
qed

lemma lock_inv_reach: "lock_reach s \<Longrightarrow> lock_inv s"
  by (induction rule: lock_reach.induct) (auto intro: lock_inv_start lock_inv_step)

section \<open>Properties\<close>

text \<open>
  C11: the store behaves as if every operation took effect at one instant: whatever the
  goroutines interleave, the results in the order of the trail are those of a plain sequential map,
  which ends in the contents; an operation that is about to return has its result there; and while
  one goroutine is in its writing section no other is in any section, so that the Go map is never
  written concurrently.
\<close>

theorem store_linearizable:
  assumes "lock_reach s"
  shows "run_ops (trail s) new_memory_store = Some (contents s) \<and>
    (\<forall>g op r. phase_of s g = Finished op r \<longrightarrow> (g, op, r) \<in> set (trail s)) \<and>
    (\<forall>g h. writing_phase (phase_of s g) \<and> h \<noteq> g \<longrightarrow>
       \<not> writing_phase (phase_of s h) \<and> \<not> reading (phase_of s h))"
proof -
  note inv = lock_inv_reach [OF assms]
  then have "run_ops (trail s) new_memory_store = Some (contents s)"
    and "\<forall>g op r. phase_of s g = Finished op r \<longrightarrow> (g, op, r) \<in> set (trail s)"
    by (simp_all add: lock_inv_def)
  with only_writer [OF inv] show ?thesis by blast
qed

definition two_deletes :: lock_state where
  "two_deletes =
     (let s1 = go_phase 0 (Called (Delete ''k'')) lock_start;
          s2 = go_phase 1 (Called (Delete ''k'')) s1;
          s3 = (go_phase 0 (Locked (Delete ''k'')) s2)\<lparr>writer := Some 0\<rparr>
      in go_phase 0 (LookedUp ''k'' (snd (mem_get ''k'' (contents s3)))) s3)"

theorem store_linearizable_witness:
  "writing_phase (phase_of two_deletes 0) \<and> \<not> writing_phase (phase_of two_deletes 1)"
proof -
  let ?s1 = "go_phase 0 (Called (Delete ''k'')) lock_start"
  let ?s2 = "go_phase 1 (Called (Delete ''k'')) ?s1"
  let ?s3 = "(go_phase 0 (Locked (Delete ''k'')) ?s2)\<lparr>writer := Some 0\<rparr>"
  have "lock_step lock_start ?s1"
    by (rule lock_step.invoke) (simp add: lock_start_def)
  with lock_reach.start have r1: "lock_reach ?s1" by (rule lock_reach.more)
  have "lock_step ?s1 ?s2"
    by (rule lock_step.invoke) (simp add: lock_start_def go_phase_def)
  with r1 have r2: "lock_reach ?s2" by (rule lock_reach.more)
  have "lock_step ?s2 ?s3"
    by (rule lock_step.wlock) (simp_all add: lock_start_def go_phase_def)
  with r2 have r3: "lock_reach ?s3" by (rule lock_reach.more)
  have "lock_step ?s3 two_deletes"
    unfolding two_deletes_def Let_def by (rule lock_step.lookup) (simp add: go_phase_def)
  with r3 have "lock_reach two_deletes" by (rule lock_reach.more)
  from store_linearizable [OF this] show ?thesis
    by (auto simp: two_deletes_def Let_def go_phase_def)
qed

end
