(* ===== verification/Protocol.thy ===== *)
theory Protocol
  imports Store
begin

text \<open>
  protocol/protocol.go: one line of text into a command, and a reply into bytes. What the
  package uses of Go's \<open>strings\<close> and \<open>strconv\<close> is modelled on bytes, with the UTF-8 decoder
  they share; the table of printable runes past Latin-1 is a parameter \<open>printable\<close>.
\<close>

section \<open>UTF-8\<close>

abbreviation newline :: char where "newline \<equiv> CHR 0x0A"
abbreviation return :: char where "return \<equiv> CHR 0x0D"

definition byte :: "char \<Rightarrow> nat" where
  "byte c = of_char c"

text \<open>\<open>utf8.DecodeRuneInString\<close>: the first rune and its width; a byte that starts none is U+FFFD.\<close>

definition rune_error :: nat where "rune_error = 0xFFFD"

definition between :: "nat \<Rightarrow> nat \<Rightarrow> nat \<Rightarrow> bool" where
  "between a b x \<longleftrightarrow> a \<le> x \<and> x \<le> b"

definition decode_rune :: "char \<Rightarrow> bytes \<Rightarrow> nat \<times> nat" where
  "decode_rune c cs =
     (let b0 = byte c; bad = (rune_error, 1) in
      if b0 < 0x80 then (b0, 1)
      else if b0 < 0xC2 \<or> 0xF4 < b0 then bad
      else if b0 < 0xE0 then
        (case cs of
           c1 # _ \<Rightarrow> if between 0x80 0xBF (byte c1)
             then ((b0 - 0xC0) * 64 + (byte c1 - 0x80), 2) else bad
         | _ \<Rightarrow> bad)
      else if b0 < 0xF0 then
        (case cs of
           c1 # c2 # _ \<Rightarrow>
             if between (if b0 = 0xE0 then 0xA0 else 0x80) (if b0 = 0xED then 0x9F else 0xBF) (byte c1)
               \<and> between 0x80 0xBF (byte c2)
             then ((b0 - 0xE0) * 4096 + (byte c1 - 0x80) * 64 + (byte c2 - 0x80), 3) else bad
         | _ \<Rightarrow> bad)
      else
        (case cs of
           c1 # c2 # c3 # _ \<Rightarrow>
             if between (if b0 = 0xF0 then 0x90 else 0x80) (if b0 = 0xF4 then 0x8F else 0xBF) (byte c1)
               \<and> between 0x80 0xBF (byte c2) \<and> between 0x80 0xBF (byte c3)
             then ((b0 - 0xF0) * 262144 + (byte c1 - 0x80) * 4096 + (byte c2 - 0x80) * 64
                   + (byte c3 - 0x80), 4) else bad
         | _ \<Rightarrow> bad))"

text \<open>The bytes of the first rune, and what follows it.\<close>

definition rune_bytes :: "char \<Rightarrow> bytes \<Rightarrow> bytes" where
  "rune_bytes c cs = c # take (snd (decode_rune c cs) - 1) cs"

definition after_rune :: "char \<Rightarrow> bytes \<Rightarrow> bytes" where
  "after_rune c cs = drop (snd (decode_rune c cs) - 1) cs"

lemma length_after_rune [simp]: "length (after_rune c cs) \<le> length cs"
  by (simp add: after_rune_def)

lemma decode_ascii: "byte c < 0x80 \<Longrightarrow> decode_rune c cs = (byte c, 1)"
  by (simp add: decode_rune_def)

lemma decode_wide:
  assumes "0x80 \<le> byte c"
  shows "\<forall>d \<in> set (rune_bytes c cs). 0x80 \<le> byte d"
proof -
  consider "byte c < 0xC2 \<or> 0xF4 < byte c" | "0xC2 \<le> byte c" "byte c < 0xE0"
    | "0xE0 \<le> byte c" "byte c < 0xF0" | "0xF0 \<le> byte c" "byte c \<le> 0xF4"
    by linarith
  then show ?thesis
  proof cases
    case 1
    then have "decode_rune c cs = (rune_error, 1)"
      using assms by (auto simp: decode_rune_def)
    with assms show ?thesis by (simp add: rune_bytes_def)
  next
    case 2
    then show ?thesis
      by (cases cs) (simp_all add: rune_bytes_def decode_rune_def between_def)
  next
    case 3
    show ?thesis
    proof (cases "\<exists>c1 c2 r. cs = c1 # c2 # r")
      case True
      with 3 show ?thesis
        by (elim exE) (auto simp: rune_bytes_def decode_rune_def between_def Let_def split: if_splits)
    next
      case False
      with 3 have "decode_rune c cs = (rune_error, 1)"
        by (auto simp: decode_rune_def Let_def split: list.split)
      with assms show ?thesis by (simp add: rune_bytes_def)
    qed
  next
    case 4
    show ?thesis
    proof (cases "\<exists>c1 c2 c3 r. cs = c1 # c2 # c3 # r")
      case True
      with 4 show ?thesis
        by (elim exE) (auto simp: rune_bytes_def decode_rune_def between_def Let_def split: if_splits)
    next
      case False
      with 4 have "decode_rune c cs = (rune_error, 1)"
        by (auto simp: decode_rune_def Let_def split: list.split)
      with assms show ?thesis by (simp add: rune_bytes_def)
    qed
  qed
qed

section \<open>Blank lines, verbs, fields\<close>

text \<open>\<open>unicode.IsSpace\<close>.\<close>

definition is_space :: "nat \<Rightarrow> bool" where
  "is_space r \<longleftrightarrow> between 9 13 r \<or> r = 32 \<or> r = 0x85 \<or> r = 0xA0 \<or> r = 0x1680 \<or>
     between 0x2000 0x200A r \<or> r = 0x2028 \<or> r = 0x2029 \<or> r = 0x202F \<or> r = 0x205F \<or> r = 0x3000"

text \<open>\<open>strings.TrimSpace(s) == ""\<close>: every rune is a space.\<close>

fun blank :: "bytes \<Rightarrow> bool" where
  "blank [] = True"
| "blank (c # cs) = (is_space (fst (decode_rune c cs)) \<and> blank (after_rune c cs))"

text \<open>
  \<open>strings.ToUpper\<close>, whose result is only compared with the three verbs: besides the ASCII
  letters, U+0131 and U+017F are the two runes whose upper case is ASCII. A rune with any other
  upper case stays non-ASCII and is kept as it is here.
\<close>

definition upper_rune :: "nat \<Rightarrow> bytes \<Rightarrow> bytes" where
  "upper_rune r raw =
     (if between 97 122 r then [char_of (r - 32)]
      else if r = 0x131 then ''I'' else if r = 0x17F then ''S'' else raw)"

fun to_upper :: "bytes \<Rightarrow> bytes" where
  "to_upper [] = []"
| "to_upper (c # cs) =
     upper_rune (fst (decode_rune c cs)) (rune_bytes c cs) @ to_upper (after_rune c cs)"

text \<open>\<open>strings.TrimRight(line, "\<close>CR LF\<open>")\<close>.\<close>

definition trim_eol :: "bytes \<Rightarrow> bytes" where
  "trim_eol s = rev (dropWhile (\<lambda>c. c = return \<or> c = newline) (rev s))"

text \<open>\<open>strings.SplitN(s, " ", n)\<close>.\<close>

fun cut_space :: "bytes \<Rightarrow> bytes \<times> bytes option" where
  "cut_space [] = ([], None)"
| "cut_space (c # cs) =
     (if c = CHR '' '' then ([], Some cs) else (case cut_space cs of (l, r) \<Rightarrow> (c # l, r)))"

fun split_n :: "nat \<Rightarrow> bytes \<Rightarrow> bytes list" where
  "split_n 0 s = []"
| "split_n (Suc n) s =
     (if n = 0 then [s]
      else (case cut_space s of (l, None) \<Rightarrow> [l] | (l, Some r) \<Rightarrow> l # split_n n r))"

section \<open>Commands\<close>

datatype op = OpGet | OpSet | OpDel

record command =
  cmd_op :: op
  cmd_key :: bytes
  cmd_value :: bytes

datatype parse_error = ErrEmpty | TakesOneKey bytes | SetTakes | UnknownCommand bytes

definition parse :: "bytes \<Rightarrow> parse_error + command" where
  "parse line0 =
     (let line = trim_eol line0 in
      if blank line then Inl ErrEmpty
      else (let parts = split_n 3 line; verb = to_upper (parts ! 0) in
        if verb = ''GET'' \<or> verb = ''DEL'' then
          (if length parts \<noteq> 2 \<or> parts ! 1 = [] then Inl (TakesOneKey verb)
           else Inr \<lparr>cmd_op = (if verb = ''DEL'' then OpDel else OpGet), cmd_key = parts ! 1, cmd_value = []\<rparr>)
        else if verb = ''SET'' then
          (if length parts \<noteq> 3 \<or> parts ! 1 = [] then Inl SetTakes
           else Inr \<lparr>cmd_op = OpSet, cmd_key = parts ! 1, cmd_value = parts ! 2\<rparr>)
        else Inl (UnknownCommand (parts ! 0))))"

section \<open>Quoting\<close>

definition hex_digit :: "nat \<Rightarrow> char" where
  "hex_digit d = (if d < 10 then char_of (48 + d) else char_of (87 + d))"

fun hex :: "nat \<Rightarrow> nat \<Rightarrow> bytes" where
  "hex 0 n = []"
| "hex (Suc w) n = hex w (n div 16) @ [hex_digit (n mod 16)]"

text \<open>\<open>strconv.IsPrint\<close>: written out up to U+00FF.\<close>

definition is_print :: "(nat \<Rightarrow> bool) \<Rightarrow> nat \<Rightarrow> bool" where
  "is_print printable r =
     (if r \<le> 0xFF then between 0x20 0x7E r \<or> between 0xA1 0xFF r \<and> r \<noteq> 0xAD else printable r)"

abbreviation backslash :: char where "backslash \<equiv> CHR 0x5C"

definition control_letter :: "nat \<rightharpoonup> char" where
  "control_letter = [7 \<mapsto> CHR ''a'', 8 \<mapsto> CHR ''b'', 12 \<mapsto> CHR ''f'', 10 \<mapsto> CHR ''n'',
     13 \<mapsto> CHR ''r'', 9 \<mapsto> CHR ''t'', 11 \<mapsto> CHR ''v'']"

definition escape_rune :: "(nat \<Rightarrow> bool) \<Rightarrow> nat \<Rightarrow> bytes \<Rightarrow> bytes" where
  "escape_rune printable r raw =
     (if r = 34 \<or> r = 92 then backslash # raw
      else if is_print printable r then raw
      else (case control_letter r of
          Some l \<Rightarrow> [backslash, l]
        | None \<Rightarrow>
            if r < 32 \<or> r = 0x7F then backslash # CHR ''x'' # hex 2 r
            else if r < 0x10000 then backslash # CHR ''u'' # hex 4 r
            else backslash # CHR ''U'' # hex 8 r))"

fun quote_body :: "(nat \<Rightarrow> bool) \<Rightarrow> bytes \<Rightarrow> bytes" where
  "quote_body printable [] = []"
| "quote_body printable (c # cs) =
     (let (r, w) = decode_rune c cs in
      if w = 1 \<and> r = rune_error then backslash # CHR ''x'' # hex 2 (byte c)
      else escape_rune printable r (rune_bytes c cs))
     @ quote_body printable (after_rune c cs)"

text \<open>\<open>%q\<close>.\<close>

definition quote :: "(nat \<Rightarrow> bool) \<Rightarrow> bytes \<Rightarrow> bytes" where
  "quote printable s = CHR 0x22 # quote_body printable s @ [CHR 0x22]"

definition error_text :: "(nat \<Rightarrow> bool) \<Rightarrow> parse_error \<Rightarrow> bytes" where
  "error_text printable e =
     (case e of
        ErrEmpty \<Rightarrow> ''empty command''
      | TakesOneKey verb \<Rightarrow> verb @ '' takes exactly one key''
      | SetTakes \<Rightarrow> ''SET takes a key and a value''
      | UnknownCommand word \<Rightarrow> ''unknown command '' @ quote printable word)"

section \<open>Replies\<close>

definition reply_value :: "bytes \<Rightarrow> bytes" where "reply_value v = v @ [newline]"
definition reply_nil :: bytes where "reply_nil = ''(nil)'' @ [newline]"
definition reply_ok :: bytes where "reply_ok = ''OK'' @ [newline]"
definition reply_int :: "int \<Rightarrow> bytes" where "reply_int n = dec_int n @ [newline]"

definition reply_error :: "bytes \<Rightarrow> bytes" where
  "reply_error text = ''ERR '' @ text @ [newline]"

section \<open>Fields of a line\<close>

definition eol_free :: "bytes \<Rightarrow> bool" where
  "eol_free s \<longleftrightarrow> s = [] \<or> last s \<noteq> return \<and> last s \<noteq> newline"

lemma trim_eol_append:
  assumes "eol_free s" "set e \<subseteq> {return, newline}"
  shows "trim_eol (s @ e) = s"
proof -
  have "dropWhile (\<lambda>c. c = return \<or> c = newline) (rev e @ rev s) = rev s"
  proof -
    have "dropWhile (\<lambda>c. c = return \<or> c = newline) (rev e @ rev s)
        = dropWhile (\<lambda>c. c = return \<or> c = newline) (rev s)"
      by (rule dropWhile_append2) (use assms(2) in auto)
    also have "\<dots> = rev s"
      using assms(1) by (cases s rule: rev_cases) (auto simp: eol_free_def)
    finally show ?thesis .
  qed
  then show ?thesis by (simp add: trim_eol_def)
qed

lemma cut_space_none [simp]: "CHR '' '' \<notin> set s \<Longrightarrow> cut_space s = (s, None)"
  by (induction s) auto

lemma cut_space_some [simp]: "CHR '' '' \<notin> set l \<Longrightarrow> cut_space (l @ CHR '' '' # r) = (l, Some r)"
  by (induction l) auto

lemma split_n_one: "CHR '' '' \<notin> set v \<Longrightarrow> split_n 3 v = [v]"
  by (simp add: numeral_3_eq_3)

lemma split_n_two: "CHR '' '' \<notin> set v \<Longrightarrow> CHR '' '' \<notin> set k \<Longrightarrow> split_n 3 (v @ CHR '' '' # k) = [v, k]"
  by (simp add: numeral_3_eq_3)

lemma split_n_three:
  "CHR '' '' \<notin> set v \<Longrightarrow> CHR '' '' \<notin> set k \<Longrightarrow> split_n 3 (v @ CHR '' '' # k @ CHR '' '' # r) = [v, k, r]"
  by (simp add: numeral_3_eq_3)

lemma line_cases:
  obtains (one) "CHR '' '' \<notin> set s"
  | (two) v k where "CHR '' '' \<notin> set v" "CHR '' '' \<notin> set k" "s = v @ CHR '' '' # k"
  | (three) v k r where "CHR '' '' \<notin> set v" "CHR '' '' \<notin> set k" "s = v @ CHR '' '' # k @ CHR '' '' # r"
  by (metis split_list_first)

section \<open>Verbs\<close>

fun verb_of :: "op \<Rightarrow> bytes" where
  "verb_of OpGet = ''GET''"
| "verb_of OpSet = ''SET''"
| "verb_of OpDel = ''DEL''"

lemma decode_far: "0xE0 \<le> byte c \<Longrightarrow> 0x800 \<le> fst (decode_rune c cs)"
proof (cases "byte c < 0xF0")
  case True
  moreover assume "0xE0 \<le> byte c"
  ultimately show ?thesis
    by (auto simp: decode_rune_def Let_def between_def rune_error_def split: list.split)
next
  case False
  moreover have "0x800 \<le> (if byte c = 0xF0 then 0x10000 else (0x40000 :: nat))" by simp
  ultimately show ?thesis
    by (auto simp: decode_rune_def Let_def between_def rune_error_def split: list.split)
qed

lemma decode_long_s:
  assumes "fst (decode_rune c cs) = 0x17F" "0x80 \<le> byte c"
  obtains d ds where "byte c = 0xC5" "byte d = 0xBF" "cs = d # ds"
proof -
  have "byte c < 0xE0"
    using decode_far [of c cs] assms(1) by (cases "byte c < 0xE0") auto
  moreover have "\<not> byte c < 0xC2"
    using assms by (auto simp: decode_rune_def rune_error_def)
  ultimately obtain d ds where cs: "cs = d # ds" and d: "between 0x80 0xBF (byte d)"
      and r: "(byte c - 0xC0) * 64 + (byte d - 0x80) = 0x17F"
    using assms by (auto simp: decode_rune_def rune_error_def Let_def split: list.splits if_splits)
  have "byte d - 0x80 < 64" using d unfolding between_def by linarith
  with r have "(byte c - 0xC0) = 5" "byte d - 0x80 = 63" by presburger+
  then have "byte c = 0xC5" "byte d = 0xBF" by simp_all
  with cs that show thesis by blast
qed

lemma decode_two: "byte c = 0xC5 \<Longrightarrow> byte d = 0xBF \<Longrightarrow> decode_rune c (d # ds) = (0x17F, 2)"
  by (simp add: decode_rune_def between_def)

lemma byte_char_of: "n < 256 \<Longrightarrow> byte (char_of n) = n"
  by (simp add: byte_def)

lemma byte_inject [simp]: "byte c = byte d \<longleftrightarrow> c = d"
  by (simp add: byte_def)

text \<open>A word that reads as a verb starts with no space, whatever follows it.\<close>

lemma verb_not_blank:
  assumes "to_upper v = verb_of x"
  shows "\<not> blank (v @ rest)"
proof (cases v)
  case Nil
  with assms show ?thesis by (cases x) auto
next
  case (Cons c cs)
  have head: "hd (to_upper v) \<in> {CHR ''G'', CHR ''S'', CHR ''D''}" "to_upper v \<noteq> []"
    using assms by (cases x; simp)+
  show ?thesis
  proof (cases "byte c < 0x80")
    case True
    have "\<not> is_space (byte c)"
    proof
      assume "is_space (byte c)"
      with True have r: "\<not> between 97 122 (byte c)" "byte c \<le> 32" "byte c \<noteq> 0x131" "byte c \<noteq> 0x17F"
        by (auto simp: is_space_def between_def)
      then have "hd (to_upper v) = c"
        by (simp add: Cons decode_ascii [OF True] upper_rune_def rune_bytes_def)
      with head(1) r(2) show False by (auto simp: byte_def)
    qed
    with True show ?thesis by (simp add: Cons decode_ascii)
  next
    case False
    let ?r = "fst (decode_rune c cs)"
    have "?r = 0x17F"
    proof (rule ccontr)
      assume n: "?r \<noteq> 0x17F"
      have "\<not> between 97 122 ?r"
      proof (cases "0xC2 \<le> byte c")
        case True
        then show ?thesis
          using decode_far [of c cs]
          by (cases "byte c < 0xE0")
            (auto simp: decode_rune_def rune_error_def between_def Let_def split: list.splits if_splits)
      next
        case lo: False
        with False show ?thesis by (simp add: decode_rune_def rune_error_def between_def)
      qed
      with n have "hd (to_upper v) = CHR ''I'' \<or> hd (to_upper v) = c"
        by (auto simp: Cons upper_rune_def rune_bytes_def)
      with head(1) False show False by (auto simp: byte_def)
    qed
    with False obtain d ds where "byte c = 0xC5" "byte d = 0xBF" "cs = d # ds"
      by (auto elim: decode_long_s)
    then show ?thesis
      by (simp add: Cons decode_two is_space_def between_def)
  qed
qed

section \<open>Which lines are commands\<close>

definition well_formed :: "command \<Rightarrow> bool" where
  "well_formed c \<longleftrightarrow> cmd_key c \<noteq> [] \<and> CHR '' '' \<notin> set (cmd_key c) \<and> (cmd_op c \<noteq> OpSet \<longrightarrow> cmd_value c = [])"

definition arguments :: "command \<Rightarrow> bytes" where
  "arguments c = cmd_key c @ (if cmd_op c = OpSet then CHR '' '' # cmd_value c else [])"

definition command_line :: "command \<Rightarrow> bytes" where
  "command_line c = verb_of (cmd_op c) @ CHR '' '' # arguments c"

lemma parse_built:
  assumes "to_upper v = verb_of (cmd_op c)" "CHR '' '' \<notin> set v" "trim_eol line = v @ CHR '' '' # arguments c"
    and "well_formed c"
  shows "parse line = Inr c"
proof -
  have "\<not> blank (trim_eol line)"
    using verb_not_blank [OF assms(1)] by (simp add: assms(3))
  moreover have "split_n 3 (trim_eol line) =
      (if cmd_op c = OpSet then [v, cmd_key c, cmd_value c] else [v, cmd_key c])"
    using assms by (simp add: arguments_def well_formed_def split_n_two split_n_three)
  ultimately show ?thesis
    using assms(1,4) by (cases "cmd_op c") (auto simp: parse_def well_formed_def)
qed

lemma parse_taken_apart:
  assumes "parse line = Inr c"
  shows "\<exists>v. to_upper v = verb_of (cmd_op c) \<and> CHR '' '' \<notin> set v \<and> trim_eol line = v @ CHR '' '' # arguments c"
    and "well_formed c"
  using assms
  by (atomize(full), cases "trim_eol line" rule: line_cases)
    (auto simp: parse_def Let_def split_n_one split_n_two split_n_three arguments_def well_formed_def
      split: if_splits)

lemma parse_command_line:
  assumes "well_formed c" "eol_free (arguments c)" "set e \<subseteq> {return, newline}"
  shows "parse (command_line c @ e) = Inr c"
proof (rule parse_built)
  have "eol_free (command_line c)"
    using assms(1,2) by (auto simp: eol_free_def command_line_def well_formed_def arguments_def)
  from trim_eol_append [OF this assms(3)]
  show "trim_eol (command_line c @ e) = verb_of (cmd_op c) @ CHR '' '' # arguments c"
    by (simp add: command_line_def)
  show "to_upper (verb_of (cmd_op c)) = verb_of (cmd_op c)"
    by (cases "cmd_op c") (auto simp: upper_rune_def decode_rune_def rune_bytes_def after_rune_def between_def byte_def)
  show "CHR '' '' \<notin> set (verb_of (cmd_op c))"
    by (cases "cmd_op c") auto
qed (rule assms(1))

section \<open>Text without control characters\<close>

definition visible :: "char \<Rightarrow> bool" where
  "visible c \<longleftrightarrow> 0x20 \<le> byte c \<and> byte c \<noteq> 0x7F"

definition visible_text :: "bytes \<Rightarrow> bool" where
  "visible_text s \<longleftrightarrow> (\<forall>c \<in> set s. visible c)"

lemma visible_text_append [simp]: "visible_text (s @ t) \<longleftrightarrow> visible_text s \<and> visible_text t"
  by (auto simp: visible_text_def)

lemma visible_text_Cons [simp]: "visible_text (c # s) \<longleftrightarrow> visible c \<and> visible_text s"
  by (simp add: visible_text_def)

lemma visible_text_Nil [simp]: "visible_text []"
  by (simp add: visible_text_def)

lemma visible_no_newline: "visible_text s \<Longrightarrow> newline \<notin> set s"
  by (auto simp: visible_text_def visible_def byte_def)

lemma visible_hex_digit: "d < 16 \<Longrightarrow> visible (hex_digit d)"
  by (auto simp: hex_digit_def visible_def byte_char_of)

lemma visible_hex [simp]: "visible_text (hex w n)"
  by (induction w arbitrary: n) (auto simp: visible_hex_digit)

lemma visible_escape:
  assumes "r = fst (decode_rune c cs)"
  shows "visible_text (escape_rune printable r (rune_bytes c cs))"
proof -
  have raw: "visible_text (rune_bytes c cs)" if "r = 34 \<or> r = 92 \<or> is_print printable r"
  proof (cases "byte c < 0x80")
    case True
    with that assms show ?thesis
      by (auto simp: rune_bytes_def decode_ascii visible_def is_print_def between_def)
  next
    case False
    then show ?thesis
      using decode_wide [of c cs] by (fastforce simp: visible_text_def visible_def)
  qed
  have "visible c" if "control_letter r = Some c" for c
    using that by (auto simp: control_letter_def visible_def byte_def split: if_splits)
  then show ?thesis
    using raw by (auto simp: escape_rune_def visible_def byte_def split: option.split)
qed

lemma visible_quote_body: "visible_text (quote_body printable s)"
proof (induction printable s rule: quote_body.induct)
  case (2 printable c cs)
  then show ?case
    using visible_escape [OF refl, of printable c cs]
    by (auto simp: case_prod_beta visible_def byte_def)
qed simp

lemma visible_error_text:
  assumes "parse line = Inl e"
  shows "visible_text (error_text printable e)"
proof (cases e)
  case (TakesOneKey verb)
  with assms have "verb = ''GET'' \<or> verb = ''DEL''"
    by (auto simp: parse_def Let_def split: if_splits)
  then show ?thesis
    by (auto simp: TakesOneKey error_text_def visible_def byte_def)
next
  case (UnknownCommand w)
  then show ?thesis
    using visible_quote_body [of printable w]
    by (simp add: error_text_def quote_def visible_def byte_def)
qed (simp_all add: error_text_def visible_def byte_def)

section \<open>Properties\<close>

text \<open>
  C10: \<open>Parse\<close> accepts exactly the lines that are a verb in any case, one space, and what the
  command takes: a key without a space, and for SET a further space and the rest of the line as the
  value, spaces included. Nothing else becomes a command, and the fields are those of the line.
\<close>

theorem parse_accepts_exactly:
  "parse line = Inr c \<longleftrightarrow>
     well_formed c \<and>
     (\<exists>v. to_upper v = verb_of (cmd_op c) \<and> CHR '' '' \<notin> set v \<and>
          trim_eol line = v @ CHR '' '' # arguments c)"
  using parse_built parse_taken_apart by blast

text \<open>
  What a client writes for a command is parsed back into that command, whatever line ending
  follows, when the command's last field does not itself end in a carriage return or a newline.
\<close>

theorem parse_written_command:
  assumes "well_formed c" "eol_free (arguments c)" "set e \<subseteq> {return, newline}"
  shows "parse (command_line c @ e) = Inr c"
  by (rule parse_command_line [OF assms])

theorem parse_written_command_witness:
  "parse (''SET name alice smith'' @ [return, newline]) =
     Inr \<lparr>cmd_op = OpSet, cmd_key = ''name'', cmd_value = ''alice smith''\<rparr>"
  using parse_written_command [of "\<lparr>cmd_op = OpSet, cmd_key = ''name'', cmd_value = ''alice smith''\<rparr>" "[return, newline]"]
  by (simp add: well_formed_def eol_free_def arguments_def command_line_def)

text \<open>
  An error reply never carries a byte the client sent that could end the line or drive a
  terminal: whatever bytes the line holds and whatever the table of printable runes says, the text
  after ERR has no control character, so the reply is one line.
\<close>

theorem error_reply_is_one_clean_line:
  assumes "parse line = Inl e"
  shows "reply_error (error_text printable e) = ''ERR '' @ error_text printable e @ [newline] \<and>
    (\<forall>c \<in> set (error_text printable e). 0x20 \<le> byte c \<and> byte c \<noteq> 0x7F)"
  using visible_error_text [OF assms, of printable]
  by (simp add: reply_error_def visible_text_def visible_def)

theorem error_reply_is_one_clean_line_witness:
  "newline \<notin> set (error_text (\<lambda>_. True) (UnknownCommand [CHR ''X'', newline, CHR ''Y'']))"
proof -
  have "parse [CHR ''X'', newline, CHR ''Y''] = Inl (UnknownCommand [CHR ''X'', newline, CHR ''Y''])"
    by (simp add: parse_def trim_eol_def decode_rune_def is_space_def between_def byte_def split_n_one
        upper_rune_def rune_bytes_def after_rune_def)
  from error_reply_is_one_clean_line [OF this, of "\<lambda>_. True"] show ?thesis
    by (auto simp: byte_def)
qed

end
