(* ===== verification/Server.thy ===== *)
theory Server
  imports Protocol
begin

text \<open>
  One connection of server/server.go: the line scanner (\<open>bufio.Scanner\<close> with its 64 KB buffer),
  \<open>execute\<close> over any store, and the loop of \<open>handle\<close>. The store is a record of its three
  operations, so that one definition serves \<open>MemoryStore\<close> and the plain map it is compared with.
\<close>

section \<open>Scanning lines\<close>

definition max_token :: nat where
  "max_token = 64 * 1024"

fun split_line :: "bytes \<Rightarrow> bytes \<times> bytes option" where
  "split_line [] = ([], None)"
| "split_line (c # cs) =
     (if c = newline then ([], Some cs) else (case split_line cs of (l, r) \<Rightarrow> (c # l, r)))"

lemma split_line_shorter: "split_line s = (l, Some t) \<Longrightarrow> length t < length s"
  by (induction s arbitrary: l) (auto split: if_splits prod.splits)

definition drop_cr :: "bytes \<Rightarrow> bytes" where
  "drop_cr l = (if l \<noteq> [] \<and> last l = return then butlast l else l)"

text \<open>
  The tokens \<open>Scan\<close> delivers from everything that arrives until the connection ends. A line
  whose first \<open>max_token\<close> bytes hold no newline fills the buffer and ends the scan; a last line
  without a newline is delivered as it is.
\<close>

function scan :: "bytes \<Rightarrow> bytes list" where
  "scan s =
     (if s = [] then []
      else (case split_line s of (l, r) \<Rightarrow>
        if max_token \<le> length l then []
        else drop_cr l # (case r of None \<Rightarrow> [] | Some t \<Rightarrow> scan t)))"
  by pat_completeness auto
termination
  by (relation "measure length") (auto intro: split_line_shorter [OF sym])

declare scan.simps [simp del]

lemma split_line_none [simp]: "newline \<notin> set l \<Longrightarrow> split_line l = (l, None)"
  by (induction l) auto

lemma split_line_some [simp]: "newline \<notin> set l \<Longrightarrow> split_line (l @ newline # t) = (l, Some t)"
  by (induction l) auto

lemma split_line_fst: "newline \<notin> set (fst (split_line s))"
  by (induction s) (auto split: prod.splits)

lemma scan_Nil [simp]: "scan [] = []"
  by (simp add: scan.simps)

lemma scan_line: "newline \<notin> set l \<Longrightarrow> length l < max_token \<Longrightarrow> scan (l @ newline # t) = drop_cr l # scan t"
  by (subst scan.simps) simp

lemma scan_last: "newline \<notin> set l \<Longrightarrow> length l < max_token \<Longrightarrow> l \<noteq> [] \<Longrightarrow> scan l = [drop_cr l]"
  by (subst scan.simps) simp

lemma scan_no_newline: "l \<in> set (scan s) \<Longrightarrow> newline \<notin> set l"
proof (induction s rule: scan.induct)
  case (1 s)
  obtain k r where k: "split_line s = (k, r)" by force
  with split_line_fst [of s] have "newline \<notin> set (drop_cr k)"
    by (auto simp: drop_cr_def dest: in_set_butlastD)
  with "1.prems" k "1.IH" show ?case
    by (subst (asm) scan.simps) (auto split: if_splits option.splits)
qed

section \<open>Executing a command\<close>

record 's store_ops =
  st_get :: "bytes \<Rightarrow> 's \<Rightarrow> bytes \<times> bool"
  st_set :: "bytes \<Rightarrow> bytes \<Rightarrow> 's \<Rightarrow> 's"
  st_delete :: "bytes \<Rightarrow> 's \<Rightarrow> bool \<times> 's"

definition memory_ops :: "memory_store store_ops" where
  "memory_ops = \<lparr>st_get = mem_get, st_set = mem_set, st_delete = mem_delete\<rparr>"

definition execute :: "'s store_ops \<Rightarrow> command \<Rightarrow> 's \<Rightarrow> bytes \<times> 's" where
  "execute st cmd s =
     (case cmd_op cmd of
        OpGet \<Rightarrow> (case st_get st (cmd_key cmd) s of
            (v, ok) \<Rightarrow> (if \<not> ok then reply_nil else reply_value v, s))
      | OpSet \<Rightarrow> (reply_ok, st_set st (cmd_key cmd) (cmd_value cmd) s)
      | OpDel \<Rightarrow> (case st_delete st (cmd_key cmd) s of
            (found, s') \<Rightarrow> (if found then reply_int 1 else reply_int 0, s')))"

text \<open>One turn of the loop: the reply to a line, and the store after it.\<close>

definition answer :: "(nat \<Rightarrow> bool) \<Rightarrow> 's store_ops \<Rightarrow> bytes \<Rightarrow> 's \<Rightarrow> bytes \<times> 's" where
  "answer printable st line s =
     (case parse line of
        Inl e \<Rightarrow> (reply_error (error_text printable e), s)
      | Inr cmd \<Rightarrow> execute st cmd s)"

text \<open>
  The loop: what was written, and the store. \<open>writes n\<close> says whether the write number \<open>n\<close> of the
  connection succeeds; the first that fails ends it.
\<close>

fun answer_lines ::
  "(nat \<Rightarrow> bool) \<Rightarrow> 's store_ops \<Rightarrow> (nat \<Rightarrow> bool) \<Rightarrow> nat \<Rightarrow> bytes list \<Rightarrow> 's \<Rightarrow> bytes list \<times> 's" where
  "answer_lines printable st writes n [] s = ([], s)"
| "answer_lines printable st writes n (l # ls) s =
     (case answer printable st l s of (r, s1) \<Rightarrow>
        if writes n
        then (case answer_lines printable st writes (Suc n) ls s1 of (rs, s2) \<Rightarrow> (r # rs, s2))
        else ([], s1))"

definition handle ::
  "(nat \<Rightarrow> bool) \<Rightarrow> 's store_ops \<Rightarrow> (nat \<Rightarrow> bool) \<Rightarrow> bytes \<Rightarrow> 's \<Rightarrow> bytes list \<times> 's" where
  "handle printable st writes input s = answer_lines printable st writes 0 (scan input) s"

section \<open>The specification: a plain map\<close>

definition map_ops :: "(bytes \<rightharpoonup> bytes) store_ops" where
  "map_ops =
     \<lparr>st_get = (\<lambda>k m. case m k of Some v \<Rightarrow> (v, True) | None \<Rightarrow> ([], False)),
      st_set = (\<lambda>k v m. m(k \<mapsto> v)),
      st_delete = (\<lambda>k m. (m k \<noteq> None, m(k := None)))\<rparr>"

context kv_store
begin

lemma execute_refines:
  assumes "st = \<lparr>st_get = get, st_set = set_op, st_delete = del\<rparr>"
  shows "fst (execute st c s) = fst (execute map_ops c (view s))"
    and "view (snd (execute st c s)) = snd (execute map_ops c (view s))"
proof -
  have "fst (execute st c s) = fst (execute map_ops c (view s)) \<and>
        view (snd (execute st c s)) = snd (execute map_ops c (view s))"
  proof (cases "cmd_op c")
    case OpGet
    then show ?thesis
      using get_miss [of s "cmd_key c"]
      by (cases "view s (cmd_key c)") (auto simp: assms execute_def map_ops_def get_hit split: prod.split)
  next
    case OpSet
    then show ?thesis by (simp add: assms execute_def map_ops_def view_set)
  next
    case OpDel
    then show ?thesis
      using del_found [of "cmd_key c" s] view_del [of "cmd_key c" s]
      by (auto simp: assms execute_def map_ops_def split: prod.split)
  qed
  then show "fst (execute st c s) = fst (execute map_ops c (view s))"
    "view (snd (execute st c s)) = snd (execute map_ops c (view s))" by auto
qed

lemma answer_refines:
  assumes "st = \<lparr>st_get = get, st_set = set_op, st_delete = del\<rparr>"
  shows "fst (answer p st l s) = fst (answer p map_ops l (view s)) \<and>
    view (snd (answer p st l s)) = snd (answer p map_ops l (view s))"
  by (auto simp: answer_def execute_refines [OF assms] split: sum.split)

lemma answer_lines_refines:
  assumes "st = \<lparr>st_get = get, st_set = set_op, st_delete = del\<rparr>"
  shows "fst (answer_lines p st w n ls s) = fst (answer_lines p map_ops w n ls (view s)) \<and>
    view (snd (answer_lines p st w n ls s)) = snd (answer_lines p map_ops w n ls (view s))"
proof (induction ls arbitrary: n s)
  case (Cons l ls)
  then show ?case
    using answer_refines [OF assms, of p l s]
    by (auto simp: case_prod_beta)
qed simp

end

section \<open>Framing\<close>

definition one_line :: "bytes \<Rightarrow> bool" where
  "one_line r \<longleftrightarrow> (\<exists>t. r = t @ [newline] \<and> newline \<notin> set t)"

definition values_one_line :: "(bytes \<rightharpoonup> bytes) \<Rightarrow> bool" where
  "values_one_line m \<longleftrightarrow> (\<forall>k v. m k = Some v \<longrightarrow> newline \<notin> set v)"

lemma trim_eol_subset: "set (trim_eol l) \<subseteq> set l"
  by (auto simp: trim_eol_def dest: set_dropWhileD)

lemma parsed_value_in_line:
  assumes "parse l = Inr c"
  shows "set (cmd_value c) \<subseteq> set l"
proof -
  obtain v where "trim_eol l = v @ CHR '' '' # arguments c" and "well_formed c"
    using parse_taken_apart [OF assms] by blast
  with trim_eol_subset [of l] show ?thesis
    by (cases "cmd_op c") (auto simp: arguments_def well_formed_def)
qed

lemma one_line_fixed:
  "one_line reply_nil" "one_line reply_ok" "one_line (reply_int 0)" "one_line (reply_int 1)"
  by (auto simp: one_line_def reply_nil_def reply_ok_def reply_int_def dec_int_def dec.simps
      digit_char_def char_of_def)

lemma one_line_value: "newline \<notin> set v \<Longrightarrow> one_line (reply_value v)"
  by (simp add: one_line_def reply_value_def)

lemma execute_one_line:
  assumes "values_one_line m" "newline \<notin> set (cmd_value c)"
  shows "one_line (fst (execute map_ops c m)) \<and> values_one_line (snd (execute map_ops c m))"
  using assms
  by (cases "cmd_op c")
    (auto simp: execute_def map_ops_def one_line_fixed values_one_line_def one_line_value
      split: option.splits if_splits)

lemma answer_one_line:
  assumes "values_one_line m" "newline \<notin> set l"
  shows "one_line (fst (answer p map_ops l m)) \<and> values_one_line (snd (answer p map_ops l m))"
proof (cases "parse l")
  case (Inl e)
  with visible_no_newline [OF visible_error_text [OF Inl, of p]] assms(1) show ?thesis
    by (auto simp: answer_def one_line_def reply_error_def)
next
  case (Inr c)
  with assms parsed_value_in_line [OF Inr] execute_one_line [of m c] show ?thesis
    by (auto simp: answer_def)
qed

lemma answer_lines_one_line:
  assumes "values_one_line m" "\<forall>l \<in> set ls. newline \<notin> set l"
  shows "(\<forall>r \<in> set (fst (answer_lines p map_ops w n ls m)). one_line r) \<and>
         values_one_line (snd (answer_lines p map_ops w n ls m))"
  using assms
proof (induction ls arbitrary: n m)
  case (Cons l ls)
  then show ?case
    using answer_one_line [of m l p] by (auto simp: case_prod_beta)
qed simp

lemma answer_lines_count:
  "length (fst (answer_lines p st w n ls s)) \<le> length ls \<and>
   ((\<forall>i. w i) \<longrightarrow> length (fst (answer_lines p st w n ls s)) = length ls)"
  by (induction ls arbitrary: n s) (auto simp: case_prod_beta)

text \<open>The store after the server has answered some connections to their end, one after another.\<close>

definition after_connections ::
  "(nat \<Rightarrow> bool) \<Rightarrow> 's store_ops \<Rightarrow> ((nat \<Rightarrow> bool) \<times> bytes) list \<Rightarrow> 's \<Rightarrow> 's" where
  "after_connections p st cs s = foldl (\<lambda>s (w, input). snd (handle p st w input s)) s cs"

lemma after_connections_map:
  "data (after_connections p memory_ops cs s) = after_connections p map_ops cs (data s)"
proof (induction cs arbitrary: s)
  case (Cons c cs)
  have "data (snd (handle p memory_ops w i s)) = snd (handle p map_ops w i (data s))" for w i
    using mst.answer_lines_refines [OF memory_ops_def] by (simp add: handle_def)
  with Cons show ?case by (cases c) (simp add: after_connections_def)
qed (simp add: after_connections_def)

lemma after_connections_one_line:
  "values_one_line m \<Longrightarrow> values_one_line (after_connections p map_ops cs m)"
proof (induction cs arbitrary: m)
  case (Cons c cs)
  obtain w i where c: "c = (w, i)" by force
  have "values_one_line (snd (handle p map_ops w i m))"
    using answer_lines_one_line [OF Cons.prems, of "scan i"] scan_no_newline [of _ i]
    by (auto simp: handle_def)
  with Cons.IH show ?case by (simp add: after_connections_def c)
qed (simp add: after_connections_def)

section \<open>What arrives on the wire\<close>

definition wire :: "bytes list \<Rightarrow> bytes" where
  "wire ls = concat (map (\<lambda>l. l @ [newline]) ls)"

definition sendable :: "bytes \<Rightarrow> bool" where
  "sendable l \<longleftrightarrow> newline \<notin> set l \<and> length l < max_token"

lemma scan_wire: "\<forall>l \<in> set ls. sendable l \<Longrightarrow> scan (wire ls @ rest) = map drop_cr ls @ scan rest"
  by (induction ls) (auto simp: wire_def sendable_def scan_line)

lemma split_line_newline:
  "split_line (s @ [newline]) =
     (case split_line s of (l, None) \<Rightarrow> (l, Some []) | (l, Some t) \<Rightarrow> (l, Some (t @ [newline])))"
  by (induction s) (auto split: prod.splits option.splits)

lemma split_line_last: "split_line s = (l, Some t) \<Longrightarrow> last s \<noteq> newline \<Longrightarrow> t \<noteq> [] \<and> last t \<noteq> newline"
proof (induction s arbitrary: l)
  case (Cons c cs)
  then show ?case by (cases "cs = []") (auto split: if_splits prod.splits)
qed simp

lemma scan_unfinished: "s \<noteq> [] \<Longrightarrow> last s \<noteq> newline \<Longrightarrow> scan (s @ [newline]) = scan s"
proof (induction s rule: scan.induct)
  case (1 s)
  obtain l r where s: "split_line s = (l, r)" by force
  show ?case
  proof (cases r)
    case None
    then show ?thesis
      using "1.prems" s by (simp add: scan.simps [of s] scan.simps [of "s @ [newline]"] split_line_newline)
  next
    case (Some t)
    then have "t \<noteq> []" "last t \<noteq> newline"
      using split_line_last s "1.prems" by blast+
    then have "\<not> max_token \<le> length l \<Longrightarrow> scan (t @ [newline]) = scan t"
      using "1.IH" [OF "1.prems"(1) s [symmetric] _ Some] by blast
    then show ?thesis
      using "1.prems" s Some
      by (simp add: scan.simps [of s] scan.simps [of "s @ [newline]"] split_line_newline)
  qed
qed

lemma split_line_take: "newline \<notin> set (take n s) \<Longrightarrow> n \<le> length s \<Longrightarrow> n \<le> length (fst (split_line s))"
proof (induction s arbitrary: n)
  case (Cons c cs)
  then show ?case by (cases n) (auto split: prod.splits)
qed simp

lemma scan_too_long:
  assumes "newline \<notin> set (take max_token x)" "max_token \<le> length x"
  shows "scan x = []"
  using split_line_take [OF assms] by (subst scan.simps) (auto split: prod.splits)

lemma drop_cr_eol_free: "eol_free l \<Longrightarrow> drop_cr l = l"
  by (auto simp: eol_free_def drop_cr_def)

definition talkable :: "command \<Rightarrow> bool" where
  "talkable c \<longleftrightarrow> well_formed c \<and> eol_free (arguments c) \<and> sendable (command_line c)"

lemma answer_talkable:
  assumes "talkable c"
  shows "answer p st (drop_cr (command_line c)) s = execute st c s"
proof -
  have "eol_free (command_line c)"
    using assms by (auto simp: talkable_def eol_free_def command_line_def arguments_def well_formed_def)
  moreover have "parse (command_line c @ []) = Inr c"
    using assms by (intro parse_command_line) (simp_all add: talkable_def)
  ultimately show ?thesis by (simp add: drop_cr_eol_free answer_def)
qed

lemma reply_int_small: "reply_int 0 = ''0'' @ [newline]" "reply_int 1 = ''1'' @ [newline]"
  by code_simp+

section \<open>Properties\<close>

text \<open>
  C6: a connection served from \<open>MemoryStore\<close> writes byte for byte what it would write served
  from a plain finite map, and leaves the map it would leave: for every input, every store it starts
  from and every pattern of failing writes.
\<close>

theorem handle_refines_map:
  "fst (handle p memory_ops w input s) = fst (handle p map_ops w input (data s)) \<and>
   data (snd (handle p memory_ops w input s)) = snd (handle p map_ops w input (data s))"
  using mst.answer_lines_refines [OF memory_ops_def] by (simp add: handle_def)

text \<open>
  C7: strict request and reply: whatever bytes any clients have sent, on this connection and on
  those before it, every reply is one line, so that reply number n answers line number n; there is
  one for every line scanned as long as the writes succeed, and never more.
\<close>

theorem one_reply_line_per_line:
  "let rs = fst (handle p memory_ops w input (after_connections p memory_ops cs new_memory_store)) in
   (\<forall>r \<in> set rs. one_line r) \<and> length rs \<le> length (scan input) \<and>
   ((\<forall>i. w i) \<longrightarrow> length rs = length (scan input))"
proof -
  let ?s = "after_connections p memory_ops cs new_memory_store"
  have m: "values_one_line (data ?s)"
    unfolding after_connections_map
    by (rule after_connections_one_line) (simp add: values_one_line_def new_memory_store_def)
  have "fst (handle p memory_ops w input ?s) = fst (answer_lines p map_ops w 0 (scan input) (data ?s))"
    using mst.answer_lines_refines [OF memory_ops_def] by (simp add: handle_def)
  with answer_lines_one_line [OF m, of "scan input"] scan_no_newline [of _ input]
      answer_lines_count [of p map_ops w 0 "scan input" "data ?s"]
  show ?thesis by (auto simp: Let_def)
qed

theorem one_reply_line_per_line_witness:
  "length (fst (handle (\<lambda>_. True) memory_ops (\<lambda>_. True) (''GET a'' @ [newline] @ ''junk'')
     (after_connections (\<lambda>_. True) memory_ops [(\<lambda>_. True, ''SET a 1'')] new_memory_store))) = 2"
proof -
  have "scan (''GET a'' @ newline # ''junk'') = [''GET a'', ''junk'']"
    by (subst scan_line) (simp_all add: scan_last max_token_def drop_cr_def)
  with one_reply_line_per_line [of "\<lambda>_. True" "\<lambda>_. True" "''GET a'' @ [newline] @ ''junk''" "[(\<lambda>_. True, ''SET a 1'')]"]
  show ?thesis by (simp add: Let_def)
qed

text \<open>
  Over the wire, a value that was set is what the next GET of its key returns, DEL then
  reports 1 and the second DEL 0, and after it GET reports a miss: four replies for any key and
  value a line can carry, whatever was in the store.
\<close>

theorem set_get_delete_over_the_wire:
  assumes "talkable \<lparr>cmd_op = OpSet, cmd_key = k, cmd_value = v\<rparr>"
    and "talkable \<lparr>cmd_op = OpGet, cmd_key = k, cmd_value = []\<rparr>"
    and "talkable \<lparr>cmd_op = OpDel, cmd_key = k, cmd_value = []\<rparr>"
  shows "fst (handle p memory_ops (\<lambda>_. True)
      (wire [''SET '' @ k @ '' '' @ v, ''GET '' @ k, ''DEL '' @ k, ''DEL '' @ k, ''GET '' @ k]) s) =
    [''OK'' @ [newline], v @ [newline], ''1'' @ [newline], ''0'' @ [newline], ''(nil)'' @ [newline]]"
proof -
  let ?set = "\<lparr>cmd_op = OpSet, cmd_key = k, cmd_value = v\<rparr>"
  let ?get = "\<lparr>cmd_op = OpGet, cmd_key = k, cmd_value = []\<rparr>"
  let ?del = "\<lparr>cmd_op = OpDel, cmd_key = k, cmd_value = []\<rparr>"
  let ?cs = "[?set, ?get, ?del, ?del, ?get]"
  have l: "[''SET '' @ k @ '' '' @ v, ''GET '' @ k, ''DEL '' @ k, ''DEL '' @ k, ''GET '' @ k] = map command_line ?cs"
    by (simp add: command_line_def arguments_def)
  have t: "\<forall>c \<in> set ?cs. talkable c"
    using assms by simp
  then have "scan (wire (map command_line ?cs) @ []) = map drop_cr (map command_line ?cs) @ scan []"
    by (intro scan_wire) (auto simp: talkable_def)
  then have "scan (wire (map command_line ?cs)) = map (\<lambda>c. drop_cr (command_line c)) ?cs"
    by (simp del: list.map add: list.map_comp comp_def)
  then show ?thesis
    unfolding l handle_def using assms
    by (simp add: answer_talkable execute_def memory_ops_def mst.get_after_set
        mem_get_def mem_set_def mem_delete_def reply_ok_def reply_value_def reply_int_small reply_nil_def)
qed

theorem set_get_delete_over_the_wire_witness:
  "fst (handle (\<lambda>_. True) memory_ops (\<lambda>_. True)
      (wire [''SET name alice smith'', ''GET name'', ''DEL name'', ''DEL name'', ''GET name'']) new_memory_store) =
    [''OK'' @ [newline], ''alice smith'' @ [newline], ''1'' @ [newline], ''0'' @ [newline], ''(nil)'' @ [newline]]"
  using set_get_delete_over_the_wire [of "''name''" "''alice smith''" "\<lambda>_. True" new_memory_store]
  by (simp add: talkable_def well_formed_def eol_free_def arguments_def sendable_def command_line_def max_token_def)

text \<open>
  C8: the server cannot tell a finished line from one cut short: when the bytes of a
  connection end without a newline, for whatever reason, what has arrived of the last line is
  answered and executed exactly as if its newline had arrived.
\<close>

theorem unfinished_line_is_executed:
  assumes "input \<noteq> []" and "last input \<noteq> newline"
  shows "handle p st w input s = handle p st w (input @ [newline]) s"
  using scan_unfinished [OF assms] by (simp add: handle_def)

text \<open>A DEL of user12 that is cut after user1.\<close>

theorem unfinished_line_is_executed_witness:
  "data (snd (handle (\<lambda>_. True) memory_ops (\<lambda>_. True) ''DEL user1''
     \<lparr>data = [''user1'' \<mapsto> ''a'', ''user12'' \<mapsto> ''b'']\<rparr>)) = [''user12'' \<mapsto> ''b'']"
proof -
  let ?c = "\<lparr>cmd_op = OpDel, cmd_key = ''user1'', cmd_value = []\<rparr>"
  have c: "talkable ?c"
    by (simp add: talkable_def well_formed_def eol_free_def arguments_def sendable_def command_line_def max_token_def)
  have "scan (command_line ?c @ newline # []) = [drop_cr (command_line ?c)]"
    using c by (subst scan_line) (simp_all add: talkable_def sendable_def)
  then have "data (snd (handle (\<lambda>_. True) memory_ops (\<lambda>_. True) (command_line ?c @ [newline])
     \<lparr>data = [''user1'' \<mapsto> ''a'', ''user12'' \<mapsto> ''b'']\<rparr>)) = [''user12'' \<mapsto> ''b'']"
    using c by (simp add: handle_def answer_talkable execute_def memory_ops_def mem_delete_def fun_upd_def fun_eq_iff)
  moreover have "command_line ?c = ''DEL user1''"
    by (simp add: command_line_def arguments_def)
  ultimately show ?thesis
    using unfinished_line_is_executed [of "''DEL user1''" "\<lambda>_. True" memory_ops "\<lambda>_. True"
        "\<lparr>data = [''user1'' \<mapsto> ''a'', ''user12'' \<mapsto> ''b'']\<rparr>"]
    by simp
qed

text \<open>
  C9: a line that fills the 64 KB buffer ends the conversation: the lines before it are
  answered, it gets no reply, and neither it nor anything after it touches the store.
\<close>

theorem overlong_line_ends_the_conversation:
  assumes "\<forall>l \<in> set ls. sendable l"
    and "newline \<notin> set (take max_token rest)" and "max_token \<le> length rest"
  shows "handle p st w (wire ls @ rest) s = handle p st w (wire ls) s"
  using scan_wire [OF assms(1), of rest] scan_wire [OF assms(1), of "[]"] scan_too_long [OF assms(2,3)]
  by (simp add: handle_def)

theorem overlong_line_ends_the_conversation_witness:
  "handle (\<lambda>_. True) memory_ops (\<lambda>_. True)
     (wire [''SET a 1''] @ replicate max_token (CHR ''x'') @ wire [''SET a 2'']) new_memory_store =
   handle (\<lambda>_. True) memory_ops (\<lambda>_. True) (wire [''SET a 1'']) new_memory_store"
proof (rule overlong_line_ends_the_conversation)
  show "\<forall>l \<in> set [''SET a 1'']. sendable l"
    by (simp add: sendable_def max_token_def)
  show "newline \<notin> set (take max_token (replicate max_token (CHR ''x'') @ wire [''SET a 2'']))"
    by simp
  show "max_token \<le> length (replicate max_token (CHR ''x'') @ wire [''SET a 2''])"
    by simp
qed

end
