(* ===== verification/ServerRun.thy ===== *)
theory ServerRun
  imports Server
begin

text \<open>
  The life of a \<open>Server\<close> (server/server.go): the accept loop of \<open>Serve\<close>, one handler goroutine
  per admitted connection with its deferred clean-up, and \<open>Shutdown\<close>, interleaved in any order. A
  step is what runs between two points at which another goroutine can act; \<open>shut\<close> is whether the channel \<open>done\<close> is closed; the mutex is held by
  \<open>Shutdown\<close> in the phases \<open>DoneClosed\<close> and \<open>ListenerClosed\<close>, and a step that needs it waits.
  What a handler reads and writes is the subject of theory Server.
\<close>

section \<open>State\<close>

type_synonym conn = nat

datatype serve_phase =
  Accepting | AcceptFailed | Accepted conn | Spawning conn | Refusing conn | ServeNil | ServeError

datatype handler_phase = NoHandler | Looping | Leaving | Deregistered | ConnClosed | Gone

datatype shutdown_phase = NotCalled | DoneClosed | ListenerClosed | Draining | ShutdownNil | ShutdownError

text \<open>
  \<open>open_conns\<close> are the accepted connections not closed on the server's side, \<open>accepted\<close> all that
  were ever accepted (a ghost), \<open>broken\<close> records that Accept failed by itself.
\<close>

record server =
  conns :: "conn set"
  wg :: nat
  shut :: bool
  ln_open :: bool
  serving :: serve_phase
  handler :: "conn \<Rightarrow> handler_phase"
  stopping :: shutdown_phase
  open_conns :: "conn set"
  accepted :: "conn set"
  broken :: bool

definition fresh_server :: server where
  "fresh_server = \<lparr>conns = {}, wg = 0, shut = False, ln_open = True, serving = Accepting,
     handler = (\<lambda>_. NoHandler), stopping = NotCalled, open_conns = {}, accepted = {}, broken = False\<rparr>"

definition mu_free :: "server \<Rightarrow> bool" where
  "mu_free s \<longleftrightarrow> stopping s \<noteq> DoneClosed \<and> stopping s \<noteq> ListenerClosed"

definition set_handler :: "conn \<Rightarrow> handler_phase \<Rightarrow> server \<Rightarrow> server" where
  "set_handler c h s = s\<lparr>handler := (handler s)(c := h)\<rparr>"

section \<open>Steps\<close>

inductive serve_step :: "server \<Rightarrow> server \<Rightarrow> bool" where
  accept: "serving s = Accepting \<Longrightarrow> ln_open s \<Longrightarrow> c \<notin> accepted s \<Longrightarrow>
    serve_step s (s\<lparr>serving := Accepted c, open_conns := insert c (open_conns s), accepted := insert c (accepted s)\<rparr>)"
| accept_closed: "serving s = Accepting \<Longrightarrow> \<not> ln_open s \<Longrightarrow> serve_step s (s\<lparr>serving := AcceptFailed\<rparr>)"
| accept_broken: "serving s = Accepting \<Longrightarrow> serve_step s (s\<lparr>serving := AcceptFailed, broken := True\<rparr>)"
| stop_serving: "serving s = AcceptFailed \<Longrightarrow>
    serve_step s (s\<lparr>serving := (if shut s then ServeNil else ServeError)\<rparr>)"
| refuse: "serving s = Accepted c \<Longrightarrow> mu_free s \<Longrightarrow> shut s \<Longrightarrow> serve_step s (s\<lparr>serving := Refusing c\<rparr>)"
| refused: "serving s = Refusing c \<Longrightarrow>
    serve_step s (s\<lparr>serving := ServeNil, open_conns := open_conns s - {c}\<rparr>)"
| admit: "serving s = Accepted c \<Longrightarrow> mu_free s \<Longrightarrow> \<not> shut s \<Longrightarrow>
    serve_step s (s\<lparr>serving := Spawning c, conns := insert c (conns s), wg := Suc (wg s)\<rparr>)"
| spawn: "serving s = Spawning c \<Longrightarrow> serve_step s ((set_handler c Looping s)\<lparr>serving := Accepting\<rparr>)"

inductive handler_step :: "server \<Rightarrow> server \<Rightarrow> bool" where
  leave: "handler s c = Looping \<Longrightarrow> handler_step s (set_handler c Leaving s)"
| deregister: "handler s c = Leaving \<Longrightarrow> mu_free s \<Longrightarrow>
    handler_step s ((set_handler c Deregistered s)\<lparr>conns := conns s - {c}\<rparr>)"
| close_conn: "handler s c = Deregistered \<Longrightarrow>
    handler_step s ((set_handler c ConnClosed s)\<lparr>open_conns := open_conns s - {c}\<rparr>)"
| wg_done: "handler s c = ConnClosed \<Longrightarrow> handler_step s ((set_handler c Gone s)\<lparr>wg := wg s - 1\<rparr>)"

inductive shutdown_step :: "server \<Rightarrow> server \<Rightarrow> bool" where
  close_done: "stopping s = NotCalled \<Longrightarrow> shutdown_step s (s\<lparr>stopping := DoneClosed, shut := True\<rparr>)"
| close_listener: "stopping s = DoneClosed \<Longrightarrow>
    shutdown_step s (s\<lparr>stopping := ListenerClosed, ln_open := False\<rparr>)"
| close_conns: "stopping s = ListenerClosed \<Longrightarrow>
    shutdown_step s (s\<lparr>stopping := Draining, open_conns := open_conns s - conns s\<rparr>)"
| drained: "stopping s = Draining \<Longrightarrow> wg s = 0 \<Longrightarrow> shutdown_step s (s\<lparr>stopping := ShutdownNil\<rparr>)"
| give_up: "stopping s = Draining \<Longrightarrow> shutdown_step s (s\<lparr>stopping := ShutdownError\<rparr>)"

inductive server_step :: "server \<Rightarrow> server \<Rightarrow> bool" where
  by_serve: "serve_step s t \<Longrightarrow> server_step s t"
| by_handler: "handler_step s t \<Longrightarrow> server_step s t"
| by_shutdown: "shutdown_step s t \<Longrightarrow> server_step s t"

inductive server_reach :: "server \<Rightarrow> bool" where
  new: "server_reach fresh_server"
| step: "server_reach s \<Longrightarrow> server_step s t \<Longrightarrow> server_reach t"

section \<open>The invariant\<close>

definition alive :: "handler_phase \<Rightarrow> bool" where
  "alive h \<longleftrightarrow> h \<noteq> NoHandler \<and> h \<noteq> Gone"

fun in_hand :: "serve_phase \<Rightarrow> conn set" where
  "in_hand (Accepted c) = {c}"
| "in_hand (Spawning c) = {c}"
| "in_hand (Refusing c) = {c}"
| "in_hand _ = {}"

fun counted :: "serve_phase \<Rightarrow> conn set" where
  "counted (Spawning c) = {c}"
| "counted _ = {}"

text \<open>The connections the wait group counts: those with a live handler and the one being spawned.\<close>

definition members :: "server \<Rightarrow> conn set" where
  "members s = {c. alive (handler s c)} \<union> counted (serving s)"

fun ending :: "serve_phase \<Rightarrow> bool" where
  "ending (Refusing c) = True"
| "ending ServeNil = True"
| "ending _ = False"

definition phases_ok :: "server \<Rightarrow> bool" where
  "phases_ok s \<longleftrightarrow>
     (shut s \<longleftrightarrow> stopping s \<noteq> NotCalled) \<and>
     (ln_open s \<longleftrightarrow> stopping s = NotCalled \<or> stopping s = DoneClosed) \<and>
     (serving s = AcceptFailed \<and> \<not> shut s \<longrightarrow> broken s) \<and>
     (serving s = ServeError \<longrightarrow> broken s) \<and>
     (ending (serving s) \<longrightarrow> shut s)"

definition conns_ok :: "server \<Rightarrow> bool" where
  "conns_ok s \<longleftrightarrow>
     in_hand (serving s) \<subseteq> accepted s \<and>
     (\<forall>c \<in> in_hand (serving s). handler s c = NoHandler) \<and>
     (\<forall>c. handler s c \<noteq> NoHandler \<longrightarrow> c \<in> accepted s) \<and>
     conns s = {c. handler s c = Looping \<or> handler s c = Leaving} \<union> counted (serving s) \<and>
     open_conns s \<subseteq> conns s \<union> in_hand (serving s) \<union> {c. handler s c = Deregistered}"

definition count_ok :: "server \<Rightarrow> bool" where
  "count_ok s \<longleftrightarrow> finite (members s) \<and> wg s = card (members s)"

definition after_closing :: "server \<Rightarrow> bool" where
  "after_closing s \<longleftrightarrow>
     stopping s \<in> {Draining, ShutdownNil, ShutdownError} \<longrightarrow> open_conns s \<inter> conns s = {}"

definition drained_ok :: "server \<Rightarrow> bool" where
  "drained_ok s \<longleftrightarrow> (stopping s = ShutdownNil \<longrightarrow> members s = {})"

definition server_ok :: "server \<Rightarrow> bool" where
  "server_ok s \<longleftrightarrow> phases_ok s \<and> conns_ok s \<and> count_ok s \<and> after_closing s \<and> drained_ok s"

lemma alive_simps [simp]:
  "alive Looping" "alive Leaving" "alive Deregistered" "alive ConnClosed" "\<not> alive NoHandler" "\<not> alive Gone"
  by (simp_all add: alive_def)

lemma phases_ok_serve: "serve_step s t \<Longrightarrow> phases_ok s \<Longrightarrow> phases_ok t"
  by (erule serve_step.cases; hypsubst; simp add: phases_ok_def set_handler_def; argo)

lemma phases_ok_unrelated [simp]:
  "phases_ok (set_handler c h s) = phases_ok s" "phases_ok (s\<lparr>conns := C\<rparr>) = phases_ok s"
  "phases_ok (s\<lparr>open_conns := C\<rparr>) = phases_ok s" "phases_ok (s\<lparr>wg := n\<rparr>) = phases_ok s"
  by (simp_all add: phases_ok_def set_handler_def)

lemma phases_ok_handler: "handler_step s t \<Longrightarrow> phases_ok s \<Longrightarrow> phases_ok t"
  by (erule handler_step.cases; hypsubst) simp_all

lemma phases_ok_shutdown: "shutdown_step s t \<Longrightarrow> phases_ok s \<Longrightarrow> phases_ok t"
  by (erule shutdown_step.cases; hypsubst) (simp_all add: phases_ok_def)

lemma counted_in_hand: "c \<in> counted p \<Longrightarrow> c \<in> in_hand p"
  by (cases p) auto

lemma conns_ok_serve:
  assumes "serve_step s t" "conns_ok s"
  shows "conns_ok t"
  using assms
proof cases
  case (accept c)
  with assms(2) show ?thesis by (auto simp: conns_ok_def)
next
  case (refused c)
  with assms(2) show ?thesis by (auto simp: conns_ok_def)
next
  case (admit c)
  with assms(2) show ?thesis by (auto simp: conns_ok_def)
next
  case (spawn c)
  with assms(2) show ?thesis by (auto simp: conns_ok_def set_handler_def)
qed (use assms(2) in \<open>auto simp: conns_ok_def\<close>)

lemma conns_ok_handler:
  assumes "handler_step s t" "conns_ok s"
  shows "conns_ok t"
  using assms counted_in_hand [of _ "serving s"]
  by (cases rule: handler_step.cases) (auto simp: conns_ok_def set_handler_def)

lemma conns_ok_shutdown: "shutdown_step s t \<Longrightarrow> conns_ok s \<Longrightarrow> conns_ok t"
  by (cases rule: shutdown_step.cases) (auto simp: conns_ok_def)

lemma members_serve:
  assumes "serve_step s t" "conns_ok s"
  shows "members t = members s \<and> wg t = wg s \<or>
    (\<exists>c. serving s = Accepted c \<and> \<not> shut s \<and> c \<notin> members s \<and> members t = insert c (members s) \<and> wg t = Suc (wg s))"
  using assms
  by (cases rule: serve_step.cases) (auto simp: members_def set_handler_def conns_ok_def)

lemma members_handler:
  assumes "handler_step s t"
  shows "members t = members s \<and> wg t = wg s \<or>
    (\<exists>c. handler s c = ConnClosed \<and> members t \<union> {c} = members s \<and> (c \<in> members t \<longrightarrow> c \<in> counted (serving s)) \<and> wg t = wg s - 1)"
  using assms
  by (cases rule: handler_step.cases) (auto simp: members_def set_handler_def split: if_splits)

lemma conns_accepted:
  assumes "conns_ok s"
  shows "conns s \<subseteq> accepted s"
proof
  fix c assume "c \<in> conns s"
  with assms have "handler s c = Looping \<or> handler s c = Leaving \<or> c \<in> counted (serving s)"
    by (auto simp: conns_ok_def)
  with assms show "c \<in> accepted s"
    using counted_in_hand [of c "serving s"] by (auto simp: conns_ok_def)
qed

lemma count_ok_serve:
  assumes "serve_step s t" "conns_ok s" "count_ok s"
  shows "count_ok t"
  using members_serve [OF assms(1,2)] assms(3) by (auto simp: count_ok_def)

lemma count_ok_handler:
  assumes "handler_step s t" "conns_ok s" "count_ok s"
  shows "count_ok t"
  using members_handler [OF assms(1)]
proof (elim disjE exE conjE)
  fix c assume c: "handler s c = ConnClosed" "members t \<union> {c} = members s"
    "c \<in> members t \<longrightarrow> c \<in> counted (serving s)" "wg t = wg s - 1"
  have "c \<notin> members t"
    using c(1,3) assms(2) counted_in_hand [of c "serving s"] by (auto simp: conns_ok_def)
  then have "card (members s) = Suc (card (members t))" "finite (members t)"
    using c(2) assms(3) by (auto simp: count_ok_def simp flip: c(2))
  with c(4) assms(3) show ?thesis by (simp add: count_ok_def)
qed (use assms(3) in \<open>simp add: count_ok_def\<close>)

lemma shutdown_keeps: "shutdown_step s t \<Longrightarrow> members t = members s \<and> wg t = wg s \<and> conns t = conns s"
  by (cases rule: shutdown_step.cases) (auto simp: members_def)

lemma serve_stopping: "serve_step s t \<Longrightarrow> stopping t = stopping s \<and> shut t = shut s"
  by (cases rule: serve_step.cases) (auto simp: set_handler_def)

lemma handler_stopping: "handler_step s t \<Longrightarrow> stopping t = stopping s \<and> shut t = shut s \<and> serving t = serving s"
  by (cases rule: handler_step.cases) (auto simp: set_handler_def)

lemma serve_conns: "serve_step s t \<Longrightarrow> shut s \<Longrightarrow> conns t = conns s \<and> members t = members s \<and> wg t = wg s"
  by (cases rule: serve_step.cases) (auto simp: members_def set_handler_def)

lemma serve_open:
  assumes "serve_step s t" "conns_ok s"
  shows "open_conns t \<inter> conns s \<subseteq> open_conns s"
  using assms conns_accepted [OF assms(2)] by (cases rule: serve_step.cases) (auto simp: set_handler_def)

lemma handler_shrinks: "handler_step s t \<Longrightarrow> open_conns t \<subseteq> open_conns s \<and> conns t \<subseteq> conns s \<and> members t \<subseteq> members s"
  by (cases rule: handler_step.cases) (auto simp: members_def set_handler_def split: if_splits)

lemma server_ok_serve:
  assumes "serve_step s t" "server_ok s"
  shows "server_ok t"
proof -
  have s: "phases_ok s" "conns_ok s" "count_ok s" "after_closing s" "drained_ok s"
    using assms(2) by (simp_all add: server_ok_def)
  have gate: "shut s" if "stopping s \<noteq> NotCalled"
    using s(1) that by (simp add: phases_ok_def)
  have "after_closing t"
    using s(4) serve_stopping [OF assms(1)] serve_open [OF assms(1) s(2)] serve_conns [OF assms(1) gate]
    by (force simp: after_closing_def)
  moreover have "drained_ok t"
    using s(5) serve_stopping [OF assms(1)] serve_conns [OF assms(1) gate] by (auto simp: drained_ok_def)
  ultimately show ?thesis
    using phases_ok_serve [OF assms(1) s(1)] conns_ok_serve [OF assms(1) s(2)] count_ok_serve [OF assms(1) s(2,3)]
    by (simp add: server_ok_def)
qed

lemma server_ok_handler:
  assumes "handler_step s t" "server_ok s"
  shows "server_ok t"
proof -
  have s: "phases_ok s" "conns_ok s" "count_ok s" "after_closing s" "drained_ok s"
    using assms(2) by (simp_all add: server_ok_def)
  have "after_closing t" "drained_ok t"
    using s(4,5) handler_stopping [OF assms(1)] handler_shrinks [OF assms(1)]
    by (auto simp: after_closing_def drained_ok_def)
  then show ?thesis
    using phases_ok_handler [OF assms(1) s(1)] conns_ok_handler [OF assms(1) s(2)] count_ok_handler [OF assms(1) s(2,3)]
    by (simp add: server_ok_def)
qed

lemma server_ok_shutdown:
  assumes "shutdown_step s t" "server_ok s"
  shows "server_ok t"
proof -
  have s: "phases_ok s" "conns_ok s" "count_ok s" "after_closing s" "drained_ok s"
    using assms(2) by (simp_all add: server_ok_def)
  have "count_ok t"
    using s(3) shutdown_keeps [OF assms(1)] by (simp add: count_ok_def)
  moreover have "after_closing t"
    using assms(1) s(4) by (cases rule: shutdown_step.cases) (auto simp: after_closing_def)
  moreover have "drained_ok t"
    using assms(1) s(3) shutdown_keeps [OF assms(1)]
    by (cases rule: shutdown_step.cases) (auto simp: drained_ok_def count_ok_def)
  ultimately show ?thesis
    using phases_ok_shutdown [OF assms(1) s(1)] conns_ok_shutdown [OF assms(1) s(2)]
    by (simp add: server_ok_def)
qed

lemma server_ok_step: "server_step s t \<Longrightarrow> server_ok s \<Longrightarrow> server_ok t"
  by (induction rule: server_step.induct) (auto intro: server_ok_serve server_ok_handler server_ok_shutdown)

lemma server_ok_fresh: "server_ok fresh_server"
  by (simp add: server_ok_def fresh_server_def phases_ok_def conns_ok_def count_ok_def members_def
      after_closing_def drained_ok_def)

lemma server_ok_reach: "server_reach s \<Longrightarrow> server_ok s"
  by (induction rule: server_reach.induct) (auto intro: server_ok_fresh server_ok_step)

section \<open>Draining ends\<close>

lemma handler_runs_out:
  assumes "alive (handler s c)" "mu_free s"
  shows "\<exists>t. server_step\<^sup>*\<^sup>* s t \<and> handler t = (handler s)(c := Gone) \<and> serving t = serving s \<and> stopping t = stopping s"
proof -
  have last: "\<exists>t. server_step\<^sup>*\<^sup>* s t \<and> handler t = (handler s)(c := Gone) \<and> serving t = serving s \<and> stopping t = stopping s"
    if "handler s c = ConnClosed" for s
    using that wg_done [of s c] by (intro exI [of _ "(set_handler c Gone s)\<lparr>wg := wg s - 1\<rparr>"])
      (auto simp: set_handler_def intro: by_handler)
  have third: "\<exists>t. server_step\<^sup>*\<^sup>* s t \<and> handler t = (handler s)(c := Gone) \<and> serving t = serving s \<and> stopping t = stopping s"
    if "handler s c = Deregistered" for s
  proof -
    let ?u = "(set_handler c ConnClosed s)\<lparr>open_conns := open_conns s - {c}\<rparr>"
    have "server_step s ?u" using close_conn [OF that] by (rule by_handler)
    moreover obtain t where "server_step\<^sup>*\<^sup>* ?u t" "handler t = (handler ?u)(c := Gone)"
        "serving t = serving ?u" "stopping t = stopping ?u"
      using last [of ?u] by (auto simp: set_handler_def)
    ultimately show ?thesis
      by (intro exI [of _ t]) (auto simp: set_handler_def intro: converse_rtranclp_into_rtranclp)
  qed
  have second: "\<exists>t. server_step\<^sup>*\<^sup>* s t \<and> handler t = (handler s)(c := Gone) \<and> serving t = serving s \<and> stopping t = stopping s"
    if "handler s c = Leaving" "mu_free s" for s
  proof -
    let ?u = "(set_handler c Deregistered s)\<lparr>conns := conns s - {c}\<rparr>"
    have "server_step s ?u" using deregister [OF that] by (rule by_handler)
    moreover obtain t where "server_step\<^sup>*\<^sup>* ?u t" "handler t = (handler ?u)(c := Gone)"
        "serving t = serving ?u" "stopping t = stopping ?u"
      using third [of ?u] by (auto simp: set_handler_def)
    ultimately show ?thesis
      by (intro exI [of _ t]) (auto simp: set_handler_def intro: converse_rtranclp_into_rtranclp)
  qed
  show ?thesis
  proof (cases "handler s c")
    case Looping
    let ?u = "set_handler c Leaving s"
    have "server_step s ?u" using leave [OF Looping] by (rule by_handler)
    moreover obtain t where "server_step\<^sup>*\<^sup>* ?u t" "handler t = (handler ?u)(c := Gone)"
        "serving t = serving ?u" "stopping t = stopping ?u"
      using second [of ?u] assms(2) by (auto simp: set_handler_def mu_free_def)
    ultimately show ?thesis
      by (intro exI [of _ t]) (auto simp: set_handler_def intro: converse_rtranclp_into_rtranclp)
  qed (use assms second third last in auto)
qed

lemma server_ok_runs: "server_step\<^sup>*\<^sup>* s t \<Longrightarrow> server_ok s \<Longrightarrow> server_ok t"
  by (induction rule: rtranclp_induct) (auto intro: server_ok_step)

lemma handlers_drain:
  "server_ok s \<Longrightarrow> counted (serving s) = {} \<Longrightarrow> stopping s = Draining \<Longrightarrow>
   \<exists>t. server_step\<^sup>*\<^sup>* s t \<and> stopping t = Draining \<and> wg t = 0"
proof (induction "card (members s)" arbitrary: s)
  case 0
  then show ?case by (auto simp: server_ok_def count_ok_def)
next
  case (Suc n)
  then obtain c where c: "alive (handler s c)"
    by (metis (mono_tags, lifting) Collect_empty_eq Suc_neq_Zero card.empty members_def sup_bot.right_neutral)
  from handler_runs_out [OF this] Suc.prems(3) obtain u where
    u: "server_step\<^sup>*\<^sup>* s u" "handler u = (handler s)(c := Gone)" "serving u = serving s" "stopping u = Draining"
    by (auto simp: mu_free_def)
  then have m: "members u = members s - {c}"
    using Suc.prems(2) by (auto simp: members_def)
  have "c \<in> members s" "finite (members s)"
    using c Suc.prems(1) by (auto simp: members_def server_ok_def count_ok_def)
  with m Suc.hyps(2) have "n = card (members u)" by simp
  from Suc.hyps(1) [OF this server_ok_runs [OF u(1) Suc.prems(1)]] u Suc.prems(2) obtain t where
    "server_step\<^sup>*\<^sup>* u t" "stopping t = Draining" "wg t = 0" by auto
  with u(1) show ?case by (meson rtranclp_trans)
qed

lemma shutdown_reachable:
  assumes "server_ok s" "stopping s = Draining"
  shows "\<exists>t. server_step\<^sup>*\<^sup>* s t \<and> stopping t = ShutdownNil"
proof -
  obtain u where u: "server_step\<^sup>*\<^sup>* s u" "stopping u = Draining" "counted (serving u) = {}"
  proof (cases "\<exists>c. serving s = Spawning c")
    case True
    then obtain c where "serving s = Spawning c" ..
    then have "server_step s ((set_handler c Looping s)\<lparr>serving := Accepting\<rparr>)"
      by (intro by_serve spawn)
    then have "server_step\<^sup>*\<^sup>* s ((set_handler c Looping s)\<lparr>serving := Accepting\<rparr>)" by (rule r_into_rtranclp)
    then show thesis
      by (rule that) (simp_all add: set_handler_def assms(2))
  next
    case False
    then have "counted (serving s) = {}" by (cases "serving s") auto
    with assms(2) that show thesis by blast
  qed
  from handlers_drain [OF server_ok_runs [OF u(1) assms(1)] u(3,2)] obtain v where
    v: "server_step\<^sup>*\<^sup>* u v" "stopping v = Draining" "wg v = 0" by blast
  then have "server_step v (v\<lparr>stopping := ShutdownNil\<rparr>)"
    by (intro by_shutdown drained)
  with u(1) v(1) have "server_step\<^sup>*\<^sup>* s (v\<lparr>stopping := ShutdownNil\<rparr>)"
    by (meson rtranclp.rtrancl_into_rtrancl rtranclp_trans)
  then show ?thesis by (intro exI conjI) auto
qed

section \<open>Properties\<close>

text \<open>
  When \<open>Shutdown\<close> returns without an error the server is quiet: no handler goroutine is
  left, the wait group is zero, no connection is registered, and the only connection that may still
  be open is one the accept loop holds and is about to refuse; once \<open>Serve\<close> has returned too,
  every connection that was ever accepted is closed.
\<close>

theorem shutdown_leaves_nothing_running:
  assumes "server_reach s" and "stopping s = ShutdownNil"
  shows "(\<forall>c. \<not> alive (handler s c)) \<and> wg s = 0 \<and> conns s = {} \<and>
    (\<forall>c \<in> open_conns s. serving s = Accepted c \<or> serving s = Refusing c) \<and>
    (serving s = ServeNil \<or> serving s = ServeError \<longrightarrow> open_conns s = {})"
proof -
  have ok: "conns_ok s" "count_ok s" "members s = {}"
    using server_ok_reach [OF assms(1)] assms(2) by (auto simp: server_ok_def drained_ok_def)
  then have none: "\<forall>c. \<not> alive (handler s c)" "counted (serving s) = {}" "wg s = 0"
    by (auto simp: members_def count_ok_def)
  then have h: "handler s c \<noteq> Looping" "handler s c \<noteq> Leaving" "handler s c \<noteq> Deregistered" for c
    by (metis alive_simps)+
  then have "conns s = {}" "open_conns s \<subseteq> in_hand (serving s)"
    using ok(1) none(2) by (auto simp: conns_ok_def)
  with none show ?thesis by (cases "serving s") auto
qed

definition quick_life :: server where
  "quick_life = fresh_server\<lparr>shut := True, ln_open := False, stopping := ShutdownNil\<rparr>"

theorem shutdown_leaves_nothing_running_witness:
  "stopping quick_life = ShutdownNil \<and> wg quick_life = 0 \<and> conns quick_life = {}"
proof -
  let ?s1 = "fresh_server\<lparr>stopping := DoneClosed, shut := True\<rparr>"
  let ?s2 = "?s1\<lparr>stopping := ListenerClosed, ln_open := False\<rparr>"
  let ?s3 = "?s2\<lparr>stopping := Draining, open_conns := open_conns ?s2 - conns ?s2\<rparr>"
  let ?s4 = "?s3\<lparr>stopping := ShutdownNil\<rparr>"
  have "server_step fresh_server ?s1"
    by (intro by_shutdown close_done) (simp add: fresh_server_def)
  with new have r1: "server_reach ?s1" by (rule step)
  have "server_step ?s1 ?s2" by (intro by_shutdown close_listener) simp
  with r1 have r2: "server_reach ?s2" by (rule step)
  have "server_step ?s2 ?s3" by (intro by_shutdown close_conns) simp
  with r2 have r3: "server_reach ?s3" by (rule step)
  have "server_step ?s3 ?s4" by (intro by_shutdown drained) (simp_all add: fresh_server_def)
  with r3 have r4: "server_reach ?s4" by (rule step)
  have "?s4 = quick_life"
    by (simp add: quick_life_def fresh_server_def)
  with r4 have "server_reach quick_life" by simp
  from shutdown_leaves_nothing_running [OF this] show ?thesis
    by (simp add: quick_life_def)
qed

text \<open>
  C16: the admission gate: from the moment \<open>Shutdown\<close> closes \<open>done\<close> no connection is
  registered and the wait group never grows, so that \<open>wg.Add\<close> cannot race \<open>wg.Wait\<close>; after its
  critical section every registered connection has been closed; and \<open>Serve\<close> ends with nil only
  in a shutdown and with an error only if the listener itself failed.
\<close>

theorem admission_gate:
  assumes "server_reach s"
  shows "(shut s \<longrightarrow> (\<forall>t. server_step s t \<longrightarrow> conns t \<subseteq> conns s \<and> wg t \<le> wg s \<and> shut t)) \<and>
    (stopping s \<in> {Draining, ShutdownNil, ShutdownError} \<longrightarrow> open_conns s \<inter> conns s = {}) \<and>
    (serving s = ServeNil \<longrightarrow> shut s) \<and> (serving s = ServeError \<longrightarrow> broken s)"
proof -
  have ok: "phases_ok s" "conns_ok s" "count_ok s" "after_closing s"
    using server_ok_reach [OF assms] by (simp_all add: server_ok_def)
  have "conns t \<subseteq> conns s \<and> wg t \<le> wg s \<and> shut t" if "shut s" "server_step s t" for t
    using that(2)
  proof cases
    case by_serve
    with serve_conns [OF by_serve that(1)] serve_stopping that(1) show ?thesis by auto
  next
    case by_handler
    with handler_shrinks [OF by_handler] handler_stopping [OF by_handler] members_handler [OF by_handler] that(1)
    show ?thesis by auto
  next
    case by_shutdown
    moreover have "shut t"
      using by_shutdown that(1) by (cases rule: shutdown_step.cases) auto
    ultimately show ?thesis using shutdown_keeps by auto
  qed
  with ok show ?thesis by (auto simp: phases_ok_def after_closing_def)
qed

theorem admission_gate_witness:
  "\<not> server_step (fresh_server\<lparr>stopping := DoneClosed, shut := True\<rparr>)
     (fresh_server\<lparr>stopping := DoneClosed, shut := True, conns := {7}, wg := 1\<rparr>)"
proof -
  have "server_step fresh_server (fresh_server\<lparr>stopping := DoneClosed, shut := True\<rparr>)"
    by (intro by_shutdown close_done) (simp add: fresh_server_def)
  with new have "server_reach (fresh_server\<lparr>stopping := DoneClosed, shut := True\<rparr>)" by (rule step)
  from admission_gate [OF this] show ?thesis by (auto simp: fresh_server_def)
qed

text \<open>
  \<open>Shutdown\<close> is never stuck: from every reachable state in which it waits for the
  handlers, whatever they are doing and wherever the accept loop is, the goroutines can run on to a
  state in which it has returned nil; no deadlock on the mutex or the wait group prevents it.
\<close>

theorem shutdown_can_always_finish:
  assumes "server_reach s" and "stopping s = Draining"
  shows "\<exists>t. server_step\<^sup>*\<^sup>* s t \<and> stopping t = ShutdownNil"
  by (rule shutdown_reachable [OF server_ok_reach [OF assms(1)] assms(2)])

definition one_client :: server where
  "one_client = fresh_server\<lparr>serving := Spawning 7, conns := {7}, wg := 1, accepted := {7},
     shut := True, ln_open := False, stopping := Draining\<rparr>"

theorem shutdown_can_always_finish_witness:
  "wg one_client = 1 \<and> (\<exists>t. server_step\<^sup>*\<^sup>* one_client t \<and> stopping t = ShutdownNil)"
proof -
  let ?s1 = "fresh_server\<lparr>serving := Accepted 7, open_conns := {7}, accepted := {7}\<rparr>"
  let ?s2 = "?s1\<lparr>serving := Spawning 7, conns := {7}, wg := 1\<rparr>"
  let ?s3 = "?s2\<lparr>stopping := DoneClosed, shut := True\<rparr>"
  let ?s4 = "?s3\<lparr>stopping := ListenerClosed, ln_open := False\<rparr>"
  let ?s5 = "?s4\<lparr>stopping := Draining, open_conns := open_conns ?s4 - conns ?s4\<rparr>"
  have "server_step fresh_server ?s1"
    using accept [of fresh_server 7] by (intro by_serve) (simp add: fresh_server_def)
  with new have r1: "server_reach ?s1" by (rule step)
  have "server_step ?s1 ?s2"
    using admit [of ?s1 7] by (intro by_serve) (simp add: fresh_server_def mu_free_def)
  with r1 have r2: "server_reach ?s2" by (rule step)
  have "server_step ?s2 ?s3" by (intro by_shutdown close_done) (simp add: fresh_server_def)
  with r2 have r3: "server_reach ?s3" by (rule step)
  have "server_step ?s3 ?s4" by (intro by_shutdown close_listener) simp
  with r3 have r4: "server_reach ?s4" by (rule step)
  have "server_step ?s4 ?s5" by (intro by_shutdown close_conns) simp
  with r4 have r5: "server_reach ?s5" by (rule step)
  have "?s5 = one_client"
    by (simp add: one_client_def fresh_server_def)
  with r5 have "server_reach one_client" by simp
  from shutdown_can_always_finish [OF this] show ?thesis
    by (simp add: one_client_def)
qed

end
