(* ===== verification/ServerConc.thy ===== *)
theory ServerConc
  imports Server
begin

text \<open>
  Many connections at once: each handler of server/server.go reads its lines one after the other and
  answers them over the one \<open>MemoryStore\<close>, whose operations go through the lock step by step
  (theory Store). Handlers take turns between any two steps.
\<close>

section \<open>State\<close>

text \<open>
  Per connection: the lines still to be read, the line in hand, and what has been written.
  \<open>history\<close> is a ghost: every answered line with its connection and its reply, in the order in which
  the lines took effect.
\<close>

record serving_state =
  locks :: lock_state
  unread :: "nat \<Rightarrow> bytes list"
  in_work :: "nat \<Rightarrow> bytes option"
  replies :: "nat \<Rightarrow> bytes list"
  history :: "(nat \<times> bytes \<times> bytes) list"

definition op_of :: "command \<Rightarrow> store_op" where
  "op_of c = (case cmd_op c of OpGet \<Rightarrow> Get (cmd_key c) | OpSet \<Rightarrow> Set (cmd_key c) (cmd_value c)
     | OpDel \<Rightarrow> Delete (cmd_key c))"

definition result_reply :: "store_result \<Rightarrow> bytes" where
  "result_reply r = (case r of
     Got (v, ok) \<Rightarrow> if \<not> ok then reply_nil else reply_value v
   | SetDone \<Rightarrow> reply_ok
   | Deleted found \<Rightarrow> if found then reply_int 1 else reply_int 0)"

definition write_reply :: "nat \<Rightarrow> bytes \<Rightarrow> serving_state \<Rightarrow> serving_state" where
  "write_reply g r s = s\<lparr>in_work := (in_work s)(g := None), replies := (replies s)(g := replies s g @ [r])\<rparr>"

text \<open>What a step of the store adds to the history.\<close>

definition took_effect :: "serving_state \<Rightarrow> lock_state \<Rightarrow> (nat \<times> bytes \<times> bytes) list" where
  "took_effect s l =
     map (\<lambda>(g, op, r). (g, the (in_work s g), result_reply r)) (drop (length (trail (locks s))) (trail l))"

section \<open>Steps\<close>

text \<open>
  A handler reads its next line; answers a line that is no command; calls the store for a
  command; the store moves inside its operations; an operation returns and its reply is written.
\<close>

inductive serving_step :: "(nat \<Rightarrow> bool) \<Rightarrow> serving_state \<Rightarrow> serving_state \<Rightarrow> bool" for p where
  take_line: "unread s g = l # ls \<Longrightarrow> in_work s g = None \<Longrightarrow>
    serving_step p s (s\<lparr>unread := (unread s)(g := ls), in_work := (in_work s)(g := Some l)\<rparr>)"
| refuse_line: "in_work s g = Some l \<Longrightarrow> phase_of (locks s) g = Idle \<Longrightarrow> parse l = Inl e \<Longrightarrow>
    r = reply_error (error_text p e) \<Longrightarrow>
    serving_step p s ((write_reply g r s)\<lparr>history := history s @ [(g, l, r)]\<rparr>)"
| call_store: "in_work s g = Some l \<Longrightarrow> phase_of (locks s) g = Idle \<Longrightarrow> parse l = Inr c \<Longrightarrow>
    serving_step p s (s\<lparr>locks := go_phase g (Called (op_of c)) (locks s)\<rparr>)"
| store_moves: "lock_step (locks s) l \<Longrightarrow> \<forall>h. phase_of l h = Idle \<longleftrightarrow> phase_of (locks s) h = Idle \<Longrightarrow>
    serving_step p s (s\<lparr>locks := l, history := history s @ took_effect s l\<rparr>)"
| store_returns: "phase_of (locks s) g = Finished op r \<Longrightarrow> lock_step (locks s) l \<Longrightarrow> phase_of l g = Idle \<Longrightarrow>
    serving_step p s (write_reply g (result_reply r) (s\<lparr>locks := l\<rparr>))"

definition serving_start :: "(nat \<Rightarrow> bytes list) \<Rightarrow> serving_state" where
  "serving_start input =
     \<lparr>locks = lock_start, unread = input, in_work = (\<lambda>_. None), replies = (\<lambda>_. []), history = []\<rparr>"

inductive serving_run :: "(nat \<Rightarrow> bool) \<Rightarrow> serving_state \<Rightarrow> serving_state \<Rightarrow> bool" for p where
  stay: "serving_run p s s"
| go: "serving_run p s t \<Longrightarrow> serving_step p t u \<Longrightarrow> serving_run p s u"

section \<open>The steps of the store, by their effect\<close>

fun phase_op :: "phase \<Rightarrow> store_op option" where
  "phase_op Idle = None"
| "phase_op (Called op) = Some op"
| "phase_op (Locked op) = Some op"
| "phase_op (LookedUp k ok) = Some (Delete k)"
| "phase_op (Finished op r) = Some op"

fun finished :: "phase \<Rightarrow> store_result option" where
  "finished (Finished op r) = Some r"
| "finished _ = None"

inductive store_kind :: "lock_state \<Rightarrow> lock_state \<Rightarrow> bool" where
  begins: "phase_of l g = Idle \<Longrightarrow> phase_of l' = (phase_of l)(g := Called op) \<Longrightarrow> trail l' = trail l \<Longrightarrow>
    contents l' = contents l \<Longrightarrow> store_kind l l'"
| proceeds: "phase_of l g \<noteq> Idle \<Longrightarrow> finished (phase_of l g) = None \<Longrightarrow> phase_of l' = (phase_of l)(g := ph) \<Longrightarrow>
    phase_op ph = phase_op (phase_of l g) \<Longrightarrow> finished ph = None \<Longrightarrow> trail l' = trail l \<Longrightarrow>
    contents l' = contents l \<Longrightarrow> store_kind l l'"
| acts: "phase_op (phase_of l g) = Some op \<Longrightarrow> finished (phase_of l g) = None \<Longrightarrow>
    phase_of l' = (phase_of l)(g := Finished op r) \<Longrightarrow> trail l' = trail l @ [(g, op, r)] \<Longrightarrow>
    run_op op (contents l) = (r, contents l') \<Longrightarrow> store_kind l l'"
| returns: "phase_of l g = Finished op r \<Longrightarrow> phase_of l' = (phase_of l)(g := Idle) \<Longrightarrow> trail l' = trail l \<Longrightarrow>
    contents l' = contents l \<Longrightarrow> store_kind l l'"

lemma lock_step_kind:
  assumes "lock_step l l'" "lock_inv l"
  shows "store_kind l l'"
  using assms(1)
proof (cases rule: lock_step.cases)
  case (invoke g op)
  then show ?thesis by (intro store_kind.begins [of l g l' op]) (simp_all add: go_phase_def)
next
  case (rlock g k)
  then show ?thesis by (intro store_kind.proceeds [of l g l' "Locked (Get k)"]) (simp_all add: go_phase_def)
next
  case (wlock g op)
  then show ?thesis by (intro store_kind.proceeds [of l g l' "Locked op"]) (simp_all add: go_phase_def)
next
  case (lookup g k)
  then show ?thesis
    by (intro store_kind.proceeds [of l g l' "LookedUp k (snd (mem_get k (contents l)))"]) (simp_all add: go_phase_def)
next
  case (fetch g k)
  then show ?thesis
    by (intro store_kind.acts [of l g "Get k" l' "Got (mem_get k (contents l))"]) (simp_all add: go_phase_def finish_def)
next
  case (put g k v)
  then show ?thesis
    by (intro store_kind.acts [of l g "Set k v" l' SetDone]) (simp_all add: go_phase_def finish_def)
next
  case (remove g k ok)
  then show ?thesis
    using looked_up_right [OF assms(2), of g k ok]
    by (intro store_kind.acts [of l g "Delete k" l' "Deleted ok"])
      (simp_all add: go_phase_def finish_def mem_delete_def)
next
  case (runlock g k r)
  then show ?thesis by (intro store_kind.returns [of l g "Get k" r]) (simp_all add: go_phase_def)
next
  case (unlock g op r)
  then show ?thesis by (intro store_kind.returns [of l g op r]) (simp_all add: go_phase_def)
qed

lemma answer_run_op:
  assumes "parse l = Inr c" "run_op (op_of c) s = (r, s')"
  shows "answer p memory_ops l s = (result_reply r, s')"
  using assms
  by (cases "cmd_op c")
    (auto simp: answer_def execute_def op_of_def result_reply_def memory_ops_def case_prod_beta Let_def)

section \<open>The invariant\<close>

text \<open>The history is a sequential run over one store.\<close>

fun replay :: "(nat \<Rightarrow> bool) \<Rightarrow> (nat \<times> bytes \<times> bytes) list \<Rightarrow> memory_store \<Rightarrow> memory_store option" where
  "replay p [] s = Some s"
| "replay p ((g, l, r) # h) s =
     (case answer p memory_ops l s of (r', s') \<Rightarrow> if r' = r then replay p h s' else None)"

lemma replay_append: "replay p (h @ k) s = Option.bind (replay p h s) (replay p k)"
  by (induction p h s rule: replay.induct) (simp_all split: prod.split)

lemma replay_answers:
  "replay p h s = Some s' \<Longrightarrow>
   answer_lines p memory_ops (\<lambda>_. True) n (map (fst \<circ> snd) h) s = (map (snd \<circ> snd) h, s')"
  by (induction p h s arbitrary: n rule: replay.induct) (auto split: prod.splits if_splits)

definition of_conn :: "nat \<Rightarrow> (nat \<times> bytes \<times> bytes) list \<Rightarrow> (bytes \<times> bytes) list" where
  "of_conn g h = map snd (filter (\<lambda>e. fst e = g) h)"

lemma of_conn_simps [simp]:
  "of_conn g [] = []" "of_conn g (h @ k) = of_conn g h @ of_conn g k"
  "of_conn g ((i, e) # h) = (if i = g then e # of_conn g h else of_conn g h)"
  by (simp_all add: of_conn_def)

text \<open>A connection's part of the history: what it has written, and the result it is about to write.\<close>

definition due :: "nat \<Rightarrow> serving_state \<Rightarrow> bytes list" where
  "due g s = (case finished (phase_of (locks s) g) of None \<Rightarrow> [] | Some r \<Rightarrow> [result_reply r])"

definition open_line :: "nat \<Rightarrow> serving_state \<Rightarrow> bytes list" where
  "open_line g s = (if finished (phase_of (locks s) g) = None then (case in_work s g of None \<Rightarrow> [] | Some l \<Rightarrow> [l]) else [])"

definition working :: "nat \<Rightarrow> serving_state \<Rightarrow> bool" where
  "working g s \<longleftrightarrow> (case phase_op (phase_of (locks s) g) of None \<Rightarrow> True
     | Some op \<Rightarrow> \<exists>l c. in_work s g = Some l \<and> parse l = Inr c \<and> op = op_of c)"

definition conn_right :: "(nat \<Rightarrow> bytes list) \<Rightarrow> serving_state \<Rightarrow> nat \<Rightarrow> bool" where
  "conn_right input s g \<longleftrightarrow> working g s \<and>
     map snd (of_conn g (history s)) = replies s g @ due g s \<and>
     input g = map fst (of_conn g (history s)) @ open_line g s @ unread s g"

definition serving_inv :: "(nat \<Rightarrow> bool) \<Rightarrow> (nat \<Rightarrow> bytes list) \<Rightarrow> serving_state \<Rightarrow> bool" where
  "serving_inv p input s \<longleftrightarrow> lock_inv (locks s) \<and>
     replay p (history s) new_memory_store = Some (contents (locks s)) \<and> (\<forall>g. conn_right input s g)"

lemma serving_inv_start: "serving_inv p input (serving_start input)"
  by (simp add: serving_inv_def serving_start_def lock_inv_start conn_right_def working_def due_def open_line_def)
    (simp add: lock_start_def)

lemma conn_right_cong:
  assumes "conn_right input s g" "phase_of (locks t) g = phase_of (locks s) g" "in_work t g = in_work s g"
    "replies t g = replies s g" "unread t g = unread s g" "of_conn g (history t) = of_conn g (history s)"
  shows "conn_right input t g"
  using assms(1) unfolding conn_right_def working_def due_def open_line_def assms(2-6) .

lemma serving_inv_D:
  assumes "serving_inv p input s"
  shows "lock_inv (locks s)" "replay p (history s) new_memory_store = Some (contents (locks s))"
    "conn_right input s g"
  using assms by (simp_all add: serving_inv_def)

lemma serving_inv_take:
  assumes inv: "serving_inv p input s" and u: "unread s g = l # ls" "in_work s g = None"
  shows "serving_inv p input (s\<lparr>unread := (unread s)(g := ls), in_work := (in_work s)(g := Some l)\<rparr>)"
proof -
  let ?t = "s\<lparr>unread := (unread s)(g := ls), in_work := (in_work s)(g := Some l)\<rparr>"
  have "phase_op (phase_of (locks s) g) = None"
    using serving_inv_D(3) [OF inv, of g] u(2) by (auto simp: conn_right_def working_def split: option.splits)
  then have i: "phase_of (locks s) g = Idle"
    by (cases "phase_of (locks s) g") simp_all
  have "conn_right input ?t h" for h
  proof (cases "h = g")
    case True
    then show ?thesis
      using serving_inv_D(3) [OF inv, of g] u i by (simp add: conn_right_def working_def due_def open_line_def)
  next
    case False
    then show ?thesis by (intro conn_right_cong [OF serving_inv_D(3) [OF inv, of h]]) simp_all
  qed
  then show ?thesis using inv by (simp add: serving_inv_def)
qed

lemma serving_inv_refuse:
  assumes inv: "serving_inv p input s" and w: "in_work s g = Some l" "phase_of (locks s) g = Idle"
    and e: "parse l = Inl e" "r = reply_error (error_text p e)"
  shows "serving_inv p input ((write_reply g r s)\<lparr>history := history s @ [(g, l, r)]\<rparr>)"
proof -
  let ?t = "(write_reply g r s)\<lparr>history := history s @ [(g, l, r)]\<rparr>"
  have "answer p memory_ops l (contents (locks s)) = (r, contents (locks s))"
    using e by (simp add: answer_def)
  then have "replay p (history ?t) new_memory_store = Some (contents (locks ?t))"
    using serving_inv_D(2) [OF inv] by (simp add: replay_append write_reply_def)
  moreover have "conn_right input ?t h" for h
  proof (cases "h = g")
    case True
    then show ?thesis
      using serving_inv_D(3) [OF inv, of g] w
      by (simp add: conn_right_def working_def due_def open_line_def write_reply_def)
  next
    case False
    then show ?thesis
      by (intro conn_right_cong [OF serving_inv_D(3) [OF inv, of h]]) (simp_all add: write_reply_def)
  qed
  ultimately show ?thesis using inv by (simp add: serving_inv_def write_reply_def)
qed

lemma serving_inv_call:
  assumes inv: "serving_inv p input s" and w: "in_work s g = Some l" "phase_of (locks s) g = Idle"
    and c: "parse l = Inr c"
  shows "serving_inv p input (s\<lparr>locks := go_phase g (Called (op_of c)) (locks s)\<rparr>)"
proof -
  let ?t = "s\<lparr>locks := go_phase g (Called (op_of c)) (locks s)\<rparr>"
  have "lock_inv (locks ?t)"
    using lock_inv_step [OF lock_step.invoke [OF w(2)] serving_inv_D(1) [OF inv]] by simp
  moreover have "conn_right input ?t h" for h
  proof (cases "h = g")
    case True
    then show ?thesis
      using serving_inv_D(3) [OF inv, of g] w c
      by (simp add: conn_right_def working_def due_def open_line_def go_phase_def)
  next
    case False
    then show ?thesis
      by (intro conn_right_cong [OF serving_inv_D(3) [OF inv, of h]]) (simp_all add: go_phase_def)
  qed
  ultimately show ?thesis
    using serving_inv_D(2) [OF inv] by (simp add: serving_inv_def go_phase_def)
qed

lemma serving_inv_moves:
  assumes inv: "serving_inv p input s" and m: "lock_step (locks s) l"
    and same: "\<forall>h. phase_of l h = Idle \<longleftrightarrow> phase_of (locks s) h = Idle"
  shows "serving_inv p input (s\<lparr>locks := l, history := history s @ took_effect s l\<rparr>)"
proof -
  let ?t = "s\<lparr>locks := l, history := history s @ took_effect s l\<rparr>"
  note I = serving_inv_D [OF inv]
  have L: "lock_inv (locks ?t)"
    using lock_inv_step [OF m I(1)] by simp
  have "replay p (history ?t) new_memory_store = Some (contents l) \<and> (\<forall>h. conn_right input ?t h)"
    using lock_step_kind [OF m I(1)]
  proof (cases rule: store_kind.cases)
    case (begins g op)
    with same show ?thesis by (metis fun_upd_same phase.distinct(1))
  next
    case (returns g op r)
    with same show ?thesis by (metis fun_upd_same phase.distinct(7))
  next
    case (proceeds g ph)
    then have "took_effect s l = []" by (simp add: took_effect_def)
    moreover have "conn_right input ?t h" for h
    proof (cases "h = g")
      case True
      with proceeds I(3) [of g] \<open>took_effect s l = []\<close> show ?thesis
        by (auto simp: conn_right_def working_def due_def open_line_def split: option.splits)
    next
      case False
      with proceeds \<open>took_effect s l = []\<close> show ?thesis
        by (intro conn_right_cong [OF I(3) [of h]]) simp_all
    qed
    ultimately show ?thesis using I(2) proceeds by simp
  next
    case (acts g op r)
    obtain ln c where w: "in_work s g = Some ln" "parse ln = Inr c" "op = op_of c"
      using I(3) [of g] acts(1) by (auto simp: conn_right_def working_def)
    have e: "took_effect s l = [(g, ln, result_reply r)]"
      using acts(4) w(1) by (simp add: took_effect_def)
    have "answer p memory_ops ln (contents (locks s)) = (result_reply r, contents l)"
      using answer_run_op w(2,3) acts(5) by blast
    then have "replay p (history ?t) new_memory_store = Some (contents l)"
      using I(2) by (simp add: replay_append e)
    moreover have "conn_right input ?t h" for h
    proof (cases "h = g")
      case True
      with acts I(3) [of g] w e show ?thesis
        by (simp add: conn_right_def working_def due_def open_line_def)
    next
      case False
      with acts e show ?thesis
        by (intro conn_right_cong [OF I(3) [of h]]) simp_all
    qed
    ultimately show ?thesis by blast
  qed
  with L show ?thesis by (simp add: serving_inv_def)
qed

lemma serving_inv_returns:
  assumes inv: "serving_inv p input s" and f: "phase_of (locks s) g = Finished op r"
    and m: "lock_step (locks s) l" "phase_of l g = Idle"
  shows "serving_inv p input (write_reply g (result_reply r) (s\<lparr>locks := l\<rparr>))"
proof -
  let ?t = "write_reply g (result_reply r) (s\<lparr>locks := l\<rparr>)"
  note I = serving_inv_D [OF inv]
  have L: "phase_of l = (phase_of (locks s))(g := Idle) \<and> contents l = contents (locks s)"
    using lock_step_kind [OF m(1) I(1)]
  proof (cases rule: store_kind.cases)
    case (begins h op')
    with f m(2) show ?thesis by (metis fun_upd_other fun_upd_same phase.distinct(1) phase.distinct(7))
  next
    case (proceeds h ph)
    with f m(2) show ?thesis
      by (metis finished.simps(1) fun_upd_other fun_upd_same option.distinct(1) phase.distinct(7) phase_op.simps(1)
          phase_op.elims)
  next
    case (acts h op' r')
    with f m(2) show ?thesis by (metis fun_upd_other fun_upd_same phase.distinct(7))
  next
    case (returns h op' r')
    with f m(2) show ?thesis by (metis fun_upd_other phase.distinct(7))
  qed
  have "conn_right input ?t h" for h
  proof (cases "h = g")
    case True
    with L I(3) [of g] f show ?thesis
      by (simp add: conn_right_def working_def due_def open_line_def write_reply_def)
  next
    case False
    with L show ?thesis
      by (intro conn_right_cong [OF I(3) [of h]]) (simp_all add: write_reply_def)
  qed
  then show ?thesis
    using L I(2) lock_inv_step [OF m(1) I(1)] by (simp add: serving_inv_def write_reply_def)
qed

lemma serving_inv_step: "serving_step p s t \<Longrightarrow> serving_inv p input s \<Longrightarrow> serving_inv p input t"
  by (induction rule: serving_step.induct)
    (blast intro: serving_inv_take serving_inv_refuse serving_inv_call serving_inv_moves serving_inv_returns)+

lemma serving_inv_run: "serving_run p s t \<Longrightarrow> serving_inv p input s \<Longrightarrow> serving_inv p input t"
  by (induction rule: serving_run.induct) (auto intro: serving_inv_step)

lemma history_step: "serving_step p s t \<Longrightarrow> \<exists>h. history t = history s @ h"
  by (induction rule: serving_step.induct) (auto simp: write_reply_def)

lemma history_run: "serving_run p s t \<Longrightarrow> \<exists>h. history t = history s @ h"
proof (induction rule: serving_run.induct)
  case (go s t u)
  then show ?case using history_step [of p t u] by fastforce
qed simp

section \<open>Properties\<close>

text \<open>
  C12: any number of clients at once are served as if one after the other. Whatever the handlers and
  the steps of the store's lock interleave, the lines that have taken effect, in the order of the
  history, form one conversation of the sequential server with a single store, which ends in the
  store's contents; each connection's lines are in it in the order they were sent, its replies are
  its part of that conversation, written in order and at most one still to be written; and an answer
  already written stays before every line that is read later.
\<close>

theorem concurrent_connections_are_sequential:
  assumes "serving_run p (serving_start input) s"
  shows "answer_lines p memory_ops (\<lambda>_. True) 0 (map (fst \<circ> snd) (history s)) new_memory_store =
      (map (snd \<circ> snd) (history s), contents (locks s)) \<and>
    (\<exists>rest. input g = map fst (of_conn g (history s)) @ rest) \<and>
    (\<exists>d. map snd (of_conn g (history s)) = replies s g @ d \<and> length d \<le> 1) \<and>
    (phase_of (locks s) g = Idle \<and> in_work s g = None \<and> unread s g = [] \<longrightarrow>
      map snd (of_conn g (history s)) = replies s g \<and> map fst (of_conn g (history s)) = input g) \<and>
    (serving_run p s t \<longrightarrow> (\<exists>later. history t = history s @ later))"
proof -
  have inv: "serving_inv p input s"
    using serving_inv_run [OF assms serving_inv_start] .
  have "length (due g s) \<le> 1"
    by (simp add: due_def split: option.split)
  then show ?thesis
    using serving_inv_D(3) [OF inv, of g] replay_answers [OF serving_inv_D(2) [OF inv], of 0] history_run [of p s t]
    by (auto simp: conn_right_def due_def open_line_def)
qed

text \<open>One client has sent a GET that waits for the lock while the SET of another takes effect.\<close>

definition two_clients :: "nat \<Rightarrow> bytes list" where
  "two_clients g = (if g = 0 then [''SET a 1''] else if g = 1 then [''GET a''] else [])"

definition set_in_effect :: serving_state where
  "set_in_effect =
     (let s0 = serving_start two_clients;
          s1 = s0\<lparr>unread := (unread s0)(0 := []), in_work := (in_work s0)(0 := Some ''SET a 1'')\<rparr>;
          s2 = s1\<lparr>unread := (unread s1)(1 := []), in_work := (in_work s1)(1 := Some ''GET a'')\<rparr>;
          s3 = s2\<lparr>locks := go_phase 0 (Called (Set ''a'' ''1'')) (locks s2)\<rparr>;
          s4 = s3\<lparr>locks := go_phase 1 (Called (Get ''a'')) (locks s3)\<rparr>;
          l5 = (go_phase 0 (Locked (Set ''a'' ''1'')) (locks s4))\<lparr>writer := Some 0\<rparr>;
          s5 = s4\<lparr>locks := l5, history := history s4 @ took_effect s4 l5\<rparr>;
          l6 = (finish 0 (Set ''a'' ''1'') SetDone l5)\<lparr>contents := mem_set ''a'' ''1'' (contents l5)\<rparr>
      in s5\<lparr>locks := l6, history := history s5 @ took_effect s5 l6\<rparr>)"

lemma set_line: "parse ''SET a 1'' = Inr \<lparr>cmd_op = OpSet, cmd_key = ''a'', cmd_value = ''1''\<rparr>"
  using parse_command_line [of "\<lparr>cmd_op = OpSet, cmd_key = ''a'', cmd_value = ''1''\<rparr>" "[]"]
  by (simp add: well_formed_def eol_free_def arguments_def command_line_def)

lemma get_line: "parse ''GET a'' = Inr \<lparr>cmd_op = OpGet, cmd_key = ''a'', cmd_value = []\<rparr>"
  using parse_command_line [of "\<lparr>cmd_op = OpGet, cmd_key = ''a'', cmd_value = []\<rparr>" "[]"]
  by (simp add: well_formed_def eol_free_def arguments_def command_line_def)

lemma two_clients_run: "serving_run p (serving_start two_clients) set_in_effect"
proof -
  let ?s0 = "serving_start two_clients"
  let ?s1 = "?s0\<lparr>unread := (unread ?s0)(0 := []), in_work := (in_work ?s0)(0 := Some ''SET a 1'')\<rparr>"
  let ?s2 = "?s1\<lparr>unread := (unread ?s1)(1 := []), in_work := (in_work ?s1)(1 := Some ''GET a'')\<rparr>"
  let ?s3 = "?s2\<lparr>locks := go_phase 0 (Called (Set ''a'' ''1'')) (locks ?s2)\<rparr>"
  let ?s4 = "?s3\<lparr>locks := go_phase 1 (Called (Get ''a'')) (locks ?s3)\<rparr>"
  let ?l5 = "(go_phase 0 (Locked (Set ''a'' ''1'')) (locks ?s4))\<lparr>writer := Some 0\<rparr>"
  let ?s5 = "?s4\<lparr>locks := ?l5, history := history ?s4 @ took_effect ?s4 ?l5\<rparr>"
  let ?l6 = "(finish 0 (Set ''a'' ''1'') SetDone ?l5)\<lparr>contents := mem_set ''a'' ''1'' (contents ?l5)\<rparr>"
  have "serving_step p ?s0 ?s1"
    by (rule serving_step.take_line) (simp_all add: serving_start_def two_clients_def)
  with serving_run.stay have r1: "serving_run p ?s0 ?s1" by (rule serving_run.go)
  have "serving_step p ?s1 ?s2"
    by (rule serving_step.take_line) (simp_all add: serving_start_def two_clients_def)
  with r1 have r2: "serving_run p ?s0 ?s2" by (rule serving_run.go)
  have "serving_step p ?s2 (?s2\<lparr>locks := go_phase 0 (Called (op_of \<lparr>cmd_op = OpSet, cmd_key = ''a'', cmd_value = ''1''\<rparr>)) (locks ?s2)\<rparr>)"
    by (rule serving_step.call_store [where l = "''SET a 1''"]) (simp_all add: serving_start_def lock_start_def set_line)
  then have "serving_step p ?s2 ?s3" by (simp add: op_of_def)
  with r2 have r3: "serving_run p ?s0 ?s3" by (rule serving_run.go)
  have "serving_step p ?s3 (?s3\<lparr>locks := go_phase 1 (Called (op_of \<lparr>cmd_op = OpGet, cmd_key = ''a'', cmd_value = []\<rparr>)) (locks ?s3)\<rparr>)"
    by (rule serving_step.call_store [where l = "''GET a''"])
      (simp_all add: serving_start_def lock_start_def go_phase_def get_line)
  then have "serving_step p ?s3 ?s4" by (simp add: op_of_def)
  with r3 have r4: "serving_run p ?s0 ?s4" by (rule serving_run.go)
  have "lock_step (locks ?s4) ?l5"
    by (rule lock_step.wlock) (simp_all add: serving_start_def lock_start_def go_phase_def)
  then have "serving_step p ?s4 ?s5"
    by (rule serving_step.store_moves) (simp add: serving_start_def lock_start_def go_phase_def)
  with r4 have r5: "serving_run p ?s0 ?s5" by (rule serving_run.go)
  have "lock_step (locks ?s5) ?l6"
    using lock_step.put [of ?l5 0 "''a''" "''1''"] by (simp add: go_phase_def)
  then have "serving_step p ?s5 (?s5\<lparr>locks := ?l6, history := history ?s5 @ took_effect ?s5 ?l6\<rparr>)"
    by (rule serving_step.store_moves) (simp add: serving_start_def lock_start_def go_phase_def finish_def)
  with r5 show ?thesis
    unfolding set_in_effect_def Let_def by (rule serving_run.go)
qed

theorem concurrent_connections_are_sequential_witness:
  "answer_lines (\<lambda>_. True) memory_ops (\<lambda>_. True) 0 [''SET a 1''] new_memory_store =
     ([reply_ok], contents (locks set_in_effect)) \<and>
   replies set_in_effect 0 = [] \<and> history set_in_effect = [(0, ''SET a 1'', reply_ok)]"
proof -
  have h: "history set_in_effect = [(0, ''SET a 1'', reply_ok)]" "replies set_in_effect 0 = []"
    by (simp_all add: set_in_effect_def Let_def serving_start_def lock_start_def took_effect_def finish_def
        go_phase_def result_reply_def)
  then show ?thesis
    using concurrent_connections_are_sequential [OF two_clients_run, of "\<lambda>_. True" 0] by auto
qed

end
