(* ===== verification/ServerLive.thy ===== *)
theory ServerLive
  imports ServerConc
begin

text \<open>
  The server makes progress: every step of theory ServerConc uses up some of a bounded amount of
  work, and as long as a line is unanswered some step is possible. So no schedule, fair or not,
  leaves a line without its reply.
\<close>

section \<open>Work left\<close>

text \<open>How many steps a handler still takes for the line in hand, at most.\<close>

fun phase_work :: "phase \<Rightarrow> nat" where
  "phase_work Idle = 5"
| "phase_work (Called op) = 4"
| "phase_work (Locked op) = 3"
| "phase_work (LookedUp k ok) = 2"
| "phase_work (Finished op r) = 1"

definition work :: "nat \<Rightarrow> serving_state \<Rightarrow> nat" where
  "work g s = 6 * length (unread s g) + (if in_work s g = None then 0 else phase_work (phase_of (locks s) g))"

definition work_of :: "nat set \<Rightarrow> serving_state \<Rightarrow> nat" where
  "work_of C s = (\<Sum>g\<in>C. work g s)"

lemma phase_work_pos [simp]: "0 < phase_work ph" "phase_work ph \<noteq> 0"
  by (cases ph; simp)+

lemma no_work: "work g s = 0 \<longleftrightarrow> unread s g = [] \<and> in_work s g = None"
  by (simp add: work_def)

lemma store_line:
  assumes "serving_inv p input s" "phase_of (locks s) g \<noteq> Idle"
  obtains l where "in_work s g = Some l"
  using serving_inv_D(3) [OF assms(1), of g] assms(2)
  by (cases "phase_of (locks s) g") (auto simp: conn_right_def working_def)

lemma step_work:
  assumes "serving_step p s t" "serving_inv p input s"
  shows "\<exists>g. work g t < work g s \<and> (\<forall>h. h \<noteq> g \<longrightarrow> work h t = work h s)"
  using assms(1)
proof (cases rule: serving_step.cases)
  case (take_line g l ls)
  then have "phase_work (phase_of (locks s) g) \<le> 5"
    by (cases "phase_of (locks s) g") simp_all
  with take_line show ?thesis by (intro exI [of _ g]) (simp add: work_def)
next
  case (refuse_line g l e r)
  then show ?thesis by (intro exI [of _ g]) (simp add: work_def write_reply_def)
next
  case (call_store g l c)
  then show ?thesis by (intro exI [of _ g]) (simp add: work_def go_phase_def)
next
  case (store_moves l)
  have "\<exists>g. phase_of (locks s) g \<noteq> Idle \<and> phase_work (phase_of l g) < phase_work (phase_of (locks s) g) \<and>
      (\<forall>h. h \<noteq> g \<longrightarrow> phase_of l h = phase_of (locks s) h)"
    using store_moves(2)
  proof (cases rule: lock_step.cases)
    case (invoke g op)
    then show ?thesis using store_moves(3) by (auto simp: go_phase_def dest: spec [of _ g])
  next
    case (runlock g k r)
    then show ?thesis using store_moves(3) by (auto simp: go_phase_def dest: spec [of _ g])
  next
    case (unlock g op r)
    then show ?thesis using store_moves(3) by (auto simp: go_phase_def dest: spec [of _ g])
  qed (rule exI, rule conjI [rotated], rule conjI [rotated], auto simp: go_phase_def finish_def)
  then obtain g where g: "phase_of (locks s) g \<noteq> Idle" "phase_work (phase_of l g) < phase_work (phase_of (locks s) g)"
    "\<And>h. h \<noteq> g \<Longrightarrow> phase_of l h = phase_of (locks s) h" by blast
  obtain k where "in_work s g = Some k" using store_line [OF assms(2) g(1)] .
  with g store_moves(1) show ?thesis by (intro exI [of _ g]) (simp add: work_def)
next
  case (store_returns g op r l)
  obtain k where k: "in_work s g = Some k" using store_line [OF assms(2), of g] store_returns(2) by auto
  have "phase_of l h = phase_of (locks s) h" if "h \<noteq> g" for h
    using store_returns(3)
    by (cases rule: lock_step.cases) (use store_returns(2,4) that in \<open>auto simp: go_phase_def finish_def split: if_splits\<close>)
  with k store_returns show ?thesis
    by (intro exI [of _ g]) (simp add: work_def write_reply_def)
qed

text \<open>While there is work, some step is possible: the lock is never waited for in a circle.\<close>

lemma moves:
  assumes "lock_step (locks s) l" "phase_of l = (phase_of (locks s))(h := ph)" "ph \<noteq> Idle" "phase_of (locks s) h \<noteq> Idle"
  shows "\<exists>t. serving_step p s t"
  by (rule exI, rule serving_step.store_moves [OF assms(1)]) (simp add: assms(2-4))

lemma get_op: "is_get op \<Longrightarrow> \<exists>k. op = Get k"
  by (cases op) simp_all

lemma finished_returns:
  assumes "phase_of (locks s) h = Finished op r"
  shows "\<exists>t. serving_step p s t"
proof (cases "is_get op")
  case True
  then obtain k where "op = Get k" using get_op by blast
  with assms have "lock_step (locks s) ((go_phase h Idle (locks s))\<lparr>readers := readers (locks s) - {h}\<rparr>)"
    by (intro lock_step.runlock) simp
  from serving_step.store_returns [OF assms this, of p] show ?thesis by (auto simp: go_phase_def)
next
  case False
  from serving_step.store_returns [OF assms lock_step.unlock [OF assms False], of p] show ?thesis
    by (auto simp: go_phase_def)
qed

lemma holder_moves:
  assumes "reading (phase_of (locks s) h) \<or> writing_phase (phase_of (locks s) h)"
  shows "\<exists>t. serving_step p s t"
proof (cases "phase_of (locks s) h")
  case (Locked op)
  show ?thesis
  proof (cases op)
    case (Get k)
    with Locked show ?thesis by (intro moves [OF lock_step.fetch [of "locks s" h k]]) (simp add: finish_def go_phase_def)+
  next
    case (Set k v)
    with Locked show ?thesis by (intro moves [OF lock_step.put [of "locks s" h k v]]) (simp add: finish_def go_phase_def)+
  next
    case (Delete k)
    with Locked show ?thesis by (intro moves [OF lock_step.lookup [of "locks s" h k]]) (simp add: go_phase_def)+
  qed
next
  case (LookedUp k ok)
  then show ?thesis by (intro moves [OF lock_step.remove [of "locks s" h k ok]]) (simp add: finish_def go_phase_def)+
next
  case (Finished op r)
  then show ?thesis by (rule finished_returns)
qed (use assms in auto)

lemma caller_enters:
  assumes "phase_of (locks s) h = Called op" "writer (locks s) = None" "readers (locks s) = {}"
  shows "\<exists>t. serving_step p s t"
proof (cases "is_get op")
  case True
  then obtain k where "op = Get k" using get_op by blast
  with assms show ?thesis by (intro moves [OF lock_step.rlock [of "locks s" h k]]) (simp add: go_phase_def)+
next
  case False
  with assms show ?thesis by (intro moves [OF lock_step.wlock [of "locks s" h op]]) (simp add: go_phase_def)+
qed

lemma handler_starts:
  assumes "phase_of (locks s) g = Idle" "work g s \<noteq> 0"
  shows "\<exists>t. serving_step p s t"
proof (cases "in_work s g")
  case None
  with assms obtain l ls where "unread s g = l # ls" by (cases "unread s g") (simp_all add: work_def)
  from serving_step.take_line [OF this None] show ?thesis ..
next
  case (Some l)
  then show ?thesis
    using serving_step.refuse_line [OF Some assms(1) _ refl] serving_step.call_store [OF Some assms(1)]
    by (cases "parse l") blast+
qed

lemma progress:
  assumes inv: "serving_inv p input s" and left: "work g s \<noteq> 0"
  shows "\<exists>t. serving_step p s t"
proof (cases "\<exists>h. reading (phase_of (locks s) h) \<or> writing_phase (phase_of (locks s) h)")
  case True
  then show ?thesis using holder_moves by blast
next
  case free: False
  then have none: "\<not> reading (phase_of (locks s) g) \<and> \<not> writing_phase (phase_of (locks s) g)" by blast
  from free have lock: "writer (locks s) = None" "readers (locks s) = {}"
    using serving_inv_D(1) [OF inv] by (auto simp: lock_inv_def)
  show ?thesis
  proof (cases "phase_of (locks s) g")
    case Idle
    then show ?thesis using left by (rule handler_starts)
  next
    case (Called op)
    then show ?thesis using lock by (rule caller_enters)
  qed (use none in auto)
qed

lemma work_of_step:
  assumes "serving_step p s t" "serving_inv p input s" "finite C" "\<And>g. g \<notin> C \<Longrightarrow> input g = []"
  shows "work_of C t < work_of C s"
proof -
  obtain g where g: "work g t < work g s" "\<And>h. h \<noteq> g \<Longrightarrow> work h t = work h s"
    using step_work [OF assms(1,2)] by blast
  have "g \<in> C"
  proof (rule ccontr)
    assume "g \<notin> C"
    then have "input g = []" by (rule assms(4))
    then have "unread s g = []" "open_line g s = []" "of_conn g (history s) = []"
      using serving_inv_D(3) [OF assms(2), of g] by (simp_all add: conn_right_def)
    moreover from this have "due g s = []"
      using serving_inv_D(3) [OF assms(2), of g] by (simp add: conn_right_def)
    ultimately show False
      using g(1) by (cases "finished (phase_of (locks s) g)") (simp_all add: work_def open_line_def due_def split: option.splits if_splits)
  qed
  then show ?thesis
    unfolding work_of_def using g assms(3)
    by (intro sum_strict_mono_ex1) (auto, metis order_refl less_imp_le)
qed

lemma answered:
  assumes "serving_inv p input s" "work g s = 0"
  shows "of_conn g (history s) = zip (input g) (replies s g)" "length (replies s g) = length (input g)"
proof -
  have i: "phase_of (locks s) g = Idle"
    using store_line [OF assms(1), of g] assms(2) by (auto simp: no_work)
  then have "map snd (of_conn g (history s)) = replies s g" "input g = map fst (of_conn g (history s))"
    using serving_inv_D(3) [OF assms(1), of g] assms(2) by (simp_all add: conn_right_def due_def open_line_def no_work)
  then show "of_conn g (history s) = zip (input g) (replies s g)" "length (replies s g) = length (input g)"
    by (metis zip_map_fst_snd, metis length_map)
qed

lemma serving_run_trans: "serving_run p t u \<Longrightarrow> serving_run p s t \<Longrightarrow> serving_run p s u"
  by (induction rule: serving_run.induct) (auto intro: serving_run.go)

lemma drains:
  assumes "serving_inv p input s" "finite C" "\<And>g. g \<notin> C \<Longrightarrow> input g = []"
  shows "\<exists>t. serving_run p s t \<and> (\<forall>g. work g t = 0)"
  using assms(1)
proof (induction "work_of C s" arbitrary: s rule: less_induct)
  case less
  show ?case
  proof (cases "\<forall>g. work g s = 0")
    case True
    then show ?thesis by (blast intro: serving_run.stay)
  next
    case False
    then obtain t where t: "serving_step p s t" using progress [OF less.prems] by blast
    from less.hyps [OF work_of_step [OF t less.prems assms(2,3)] serving_inv_step [OF t less.prems]]
    obtain u where "serving_run p t u" "\<forall>g. work g u = 0" by blast
    moreover have "serving_run p s t" by (rule serving_run.go [OF serving_run.stay t])
    ultimately show ?thesis by (blast intro: serving_run_trans)
  qed
qed

lemma work_bound:
  assumes "(serving_step p ^^ n) (serving_start input) s" "finite C" "\<And>g. g \<notin> C \<Longrightarrow> input g = []"
  shows "serving_inv p input s \<and> n + work_of C s \<le> 6 * (\<Sum>g\<in>C. length (input g))"
  using assms(1)
proof (induction n arbitrary: s)
  case 0
  then show ?case
    using serving_inv_start [of p input]
    by (auto simp: work_of_def sum_distrib_left work_def serving_start_def)
next
  case (Suc n)
  then obtain u where u: "(serving_step p ^^ n) (serving_start input) u" "serving_step p u s" by auto
  note I = Suc.IH [OF u(1)]
  from work_of_step [OF u(2) conjunct1 [OF I] assms(2,3)] serving_inv_step [OF u(2) conjunct1 [OF I]] I
  show ?case by simp
qed

section \<open>Property\<close>

text \<open>
  C13: every line is answered, whatever the scheduler does. When finitely many connections have sent
  their lines, the handlers take at most six steps per line between them, so every run ends; a run
  that cannot go on has answered every line, with the answers in the order of the lines; and from
  every point of a run such an end can be reached. No handler waits for the store's lock for ever.
\<close>

theorem server_answers_every_line:
  assumes "finite C" and "\<forall>g. g \<notin> C \<longrightarrow> input g = []"
    and "(serving_step p ^^ n) (serving_start input) s"
  shows "n \<le> 6 * (\<Sum>g\<in>C. length (input g)) \<and>
    ((\<nexists>t. serving_step p s t) \<longrightarrow>
      (\<forall>g. length (replies s g) = length (input g) \<and> of_conn g (history s) = zip (input g) (replies s g))) \<and>
    (\<exists>t. serving_run p s t \<and> (\<forall>g. length (replies t g) = length (input g)))"
proof -
  have inv: "serving_inv p input s" and bound: "n \<le> 6 * (\<Sum>g\<in>C. length (input g))"
    using work_bound [OF assms(3,1)] assms(2) by auto
  obtain t where "serving_run p s t" "\<forall>g. work g t = 0"
    using drains [OF inv assms(1)] assms(2) by blast
  then have "\<exists>t. serving_run p s t \<and> (\<forall>g. length (replies t g) = length (input g))"
    using serving_inv_run [OF _ inv] answered(2) by blast
  with bound show ?thesis
    using progress [OF inv] answered [OF inv] by blast
qed

text \<open>Two clients; the first line is in hand, and both replies still come.\<close>

theorem server_answers_every_line_witness:
  "let start = serving_start two_clients;
       s = start\<lparr>unread := (unread start)(0 := []), in_work := (in_work start)(0 := Some ''SET a 1'')\<rparr>
   in (serving_step (\<lambda>_. True) ^^ 1) start s \<and>
     (\<exists>t. serving_run (\<lambda>_. True) s t \<and> length (replies t 0) = 1 \<and> length (replies t 1) = 1)"
proof -
  define start where "start = serving_start two_clients"
  define s where "s = start\<lparr>unread := (unread start)(0 := []), in_work := (in_work start)(0 := Some ''SET a 1'')\<rparr>"
  have "unread start 0 = [''SET a 1'']" "in_work start 0 = None"
    by (simp_all add: start_def serving_start_def two_clients_def)
  then have step: "(serving_step (\<lambda>_. True) ^^ 1) start s"
    using serving_step.take_line [of start 0 "''SET a 1''" "[]" "\<lambda>_. True"] by (simp add: s_def eq_OO)
  have "\<forall>g. g \<notin> {0, 1} \<longrightarrow> two_clients g = []"
    by (simp add: two_clients_def)
  from server_answers_every_line [OF _ this step [unfolded start_def]]
  obtain t where "serving_run (\<lambda>_. True) s t" "\<forall>g. length (replies t g) = length (two_clients g)" by auto
  moreover have "length (two_clients 0) = 1" "length (two_clients 1) = 1"
    by (simp_all add: two_clients_def)
  ultimately have "\<exists>t. serving_run (\<lambda>_. True) s t \<and> length (replies t 0) = 1 \<and> length (replies t 1) = 1"
    by metis
  with step show ?thesis
    unfolding start_def s_def Let_def by blast
qed

end
