(* ===== verification/ServerIso.thy ===== *)
theory ServerIso
  imports ServerLive
begin

text \<open>
  Connections that do not write each other's keys do not notice each other: whatever is interleaved,
  each gets the answers it would get alone.
\<close>

section \<open>What a line reads and writes\<close>

definition touches :: "bytes \<Rightarrow> bytes \<Rightarrow> bool" where
  "touches l k \<longleftrightarrow> (case parse l of Inl e \<Rightarrow> False | Inr c \<Rightarrow> cmd_key c = k)"

definition writes_key :: "bytes \<Rightarrow> bytes \<Rightarrow> bool" where
  "writes_key l k \<longleftrightarrow> (case parse l of Inl e \<Rightarrow> False | Inr c \<Rightarrow> cmd_op c \<noteq> OpGet \<and> cmd_key c = k)"

lemma untouched: "\<not> touches l k \<Longrightarrow> \<not> writes_key l k"
  by (simp add: writes_key_def touches_def split: sum.splits)

lemma answer_elsewhere: "\<not> writes_key l k \<Longrightarrow> data (snd (answer p memory_ops l s)) k = data s k"
  by (cases "parse l")
    (auto simp: writes_key_def answer_def execute_def memory_ops_def mem_set_def mem_delete_def Let_def case_prod_beta
      split: op.splits option.splits)

lemma answer_from_keys:
  assumes "\<forall>k. touches l k \<longrightarrow> data s k = data t k"
  shows "fst (answer p memory_ops l s) = fst (answer p memory_ops l t)"
    and "touches l k \<Longrightarrow> data (snd (answer p memory_ops l s)) k = data (snd (answer p memory_ops l t)) k"
  using assms
  by (cases "parse l";
      auto simp: touches_def answer_def execute_def memory_ops_def mem_get_def mem_set_def mem_delete_def Let_def case_prod_beta
        split: op.splits option.splits)+

section \<open>One connection inside a history\<close>

text \<open>The lines of the others write nothing that \<open>g\<close> touches.\<close>

definition own_keys :: "nat \<Rightarrow> (nat \<times> bytes \<times> bytes) list \<Rightarrow> bool" where
  "own_keys g es \<longleftrightarrow>
     (\<forall>(h, l, r) \<in> set es. h \<noteq> g \<longrightarrow> (\<forall>k l'. l' \<in> fst ` set (of_conn g es) \<and> writes_key l k \<longrightarrow> \<not> touches l' k))"

definition agree_on :: "(bytes \<Rightarrow> bool) \<Rightarrow> memory_store \<Rightarrow> memory_store \<Rightarrow> bool" where
  "agree_on K s t \<longleftrightarrow> (\<forall>k. K k \<longrightarrow> data s k = data t k)"

lemma replay_alone:
  assumes "replay p es s = Some s'" "agree_on K s t"
    and "\<forall>(h, l, r) \<in> set es. (h = g \<longrightarrow> (\<forall>k. touches l k \<longrightarrow> K k)) \<and> (h \<noteq> g \<longrightarrow> (\<forall>k. writes_key l k \<longrightarrow> \<not> K k))"
  shows "fst (answer_lines p memory_ops (\<lambda>_. True) n (map fst (of_conn g es)) t) = map snd (of_conn g es) \<and>
    agree_on K s' (snd (answer_lines p memory_ops (\<lambda>_. True) n (map fst (of_conn g es)) t))"
  using assms
proof (induction p es s arbitrary: t n rule: replay.induct)
  case (2 p h l r es s)
  let ?a = "answer p memory_ops l s" and ?b = "answer p memory_ops l t"
  have a: "fst ?a = r" "replay p es (snd ?a) = Some s'"
    using "2.prems"(1) by (auto split: prod.splits if_splits)
  note IH = "2.IH" [OF prod.collapse a(1) a(2)]
  show ?case
  proof (cases "h = g")
    case True
    then have K: "touches l k \<Longrightarrow> K k" for k using "2.prems"(3) by auto
    then have same: "\<forall>k. touches l k \<longrightarrow> data s k = data t k" using "2.prems"(2) by (auto simp: agree_on_def)
    have "agree_on K (snd ?a) (snd ?b)"
      unfolding agree_on_def
    proof (intro allI impI)
      fix k assume "K k"
      then show "data (snd ?a) k = data (snd ?b) k"
        using answer_from_keys(2) [OF same, of k p] answer_elsewhere [OF untouched] "2.prems"(2)
        by (cases "touches l k") (simp_all add: agree_on_def)
    qed
    from IH [OF this] "2.prems"(3) answer_from_keys(1) [OF same, of p] a(1) True show ?thesis
      by (auto simp: case_prod_beta)
  next
    case False
    then have "\<not> writes_key l k" if "K k" for k using "2.prems"(3) that by auto
    from answer_elsewhere [OF this, of _ p s] have "agree_on K (snd ?a) t"
      using "2.prems"(2) by (simp add: agree_on_def)
    from IH [OF this] "2.prems"(3) False show ?thesis by auto
  qed
qed (simp add: agree_on_def)

lemma alone_in_history:
  assumes "replay p es new_memory_store = Some s'" "own_keys g es"
  shows "fst (answer_lines p memory_ops (\<lambda>_. True) 0 (map fst (of_conn g es)) new_memory_store) = map snd (of_conn g es)"
proof -
  define K where "K = (\<lambda>k. \<exists>l \<in> fst ` set (of_conn g es). touches l k)"
  have mine: "K k" if "(g, l, r) \<in> set es" "touches l k" for l r k
  proof -
    have "(l, r) \<in> set (of_conn g es)" using that(1) by (force simp: of_conn_def)
    with that(2) show ?thesis by (force simp: K_def)
  qed
  have "\<not> K k" if "(h, l, r) \<in> set es" "h \<noteq> g" "writes_key l k" for h l r k
    using assms(2) that by (fastforce simp: own_keys_def K_def)
  then show ?thesis
    using replay_alone [OF assms(1), of K new_memory_store g 0] mine by (fastforce simp: agree_on_def)
qed

text \<open>At every moment of a run the executed lines of \<open>g\<close> have the answers they would have alone.\<close>

lemma alone_in_run:
  assumes inv: "serving_inv p input s"
    and apart: "\<forall>h k. h \<noteq> g \<longrightarrow> (\<forall>l \<in> set (input h). \<forall>l' \<in> set (input g). writes_key l k \<longrightarrow> \<not> touches l' k)"
  shows "fst (answer_lines p memory_ops (\<lambda>_. True) 0 (take (length (of_conn g (history s))) (input g)) new_memory_store) =
      replies s g @ due g s"
    and "length (of_conn g (history s)) = length (replies s g) + length (due g s)" "length (due g s) \<le> 1"
proof -
  let ?mine = "of_conn g (history s)"
  have c: "map snd ?mine = replies s g @ due g s" "input g = map fst ?mine @ open_line g s @ unread s g"
    using serving_inv_D(3) [OF inv, of g] by (simp_all add: conn_right_def)
  have sent: "l \<in> set (input h)" if "(h, l, r) \<in> set (history s)" for h l r
  proof -
    have "(l, r) \<in> set (of_conn h (history s))" using that by (force simp: of_conn_def)
    then show ?thesis using serving_inv_D(3) [OF inv, of h] by (force simp: conn_right_def)
  qed
  have "own_keys g (history s)"
    unfolding own_keys_def
  proof clarify
    fix h l r k l' r'
    assume "(h, l, r) \<in> set (history s)" "h \<noteq> g" "(l', r') \<in> set (of_conn g (history s))" "writes_key l k"
      "touches (fst (l', r')) k"
    moreover from this(3) have "l' \<in> set (input g)" using c(2) by force
    ultimately show False using apart sent by (metis fst_conv)
  qed
  from alone_in_history [OF serving_inv_D(2) [OF inv] this]
  show "fst (answer_lines p memory_ops (\<lambda>_. True) 0 (take (length ?mine) (input g)) new_memory_store) = replies s g @ due g s"
    by (simp add: c)
  show "length ?mine = length (replies s g) + length (due g s)"
    using arg_cong [OF c(1), of length] by simp
  show "length (due g s) \<le> 1" by (simp add: due_def split: option.split)
qed

section \<open>Property\<close>

text \<open>
  C14: connections with keys of their own do not notice each other. When no line that any other
  connection has sent writes a key that connection \<open>g\<close> uses, then at every moment of every
  interleaving the answers \<open>g\<close> has got are, in order, the answers of a server that only \<open>g\<close> talks to,
  and at most one of the answers to its executed lines is still to come.
\<close>

theorem own_keys_own_answers:
  assumes "serving_run p (serving_start input) s"
    and "\<forall>h k. h \<noteq> g \<longrightarrow> (\<forall>l \<in> set (input h). \<forall>l' \<in> set (input g). writes_key l k \<longrightarrow> \<not> touches l' k)"
  shows "\<exists>m rest. length (replies s g) \<le> m \<and> m \<le> Suc (length (replies s g)) \<and>
    fst (answer_lines p memory_ops (\<lambda>_. True) 0 (take m (input g)) new_memory_store) = replies s g @ rest \<and>
    (unread s g = [] \<and> in_work s g = None \<longrightarrow> m = length (input g) \<and> rest = [])"
proof -
  have inv: "serving_inv p input s" using serving_inv_run [OF assms(1) serving_inv_start] .
  note A = alone_in_run [OF inv assms(2)]
  have "length (of_conn g (history s)) = length (input g) \<and> due g s = []" if "unread s g = [] \<and> in_work s g = None"
  proof -
    note all = answered [OF inv no_work [THEN iffD2, OF that]]
    have "length (of_conn g (history s)) = length (input g)" unfolding all(1) using all(2) by simp
    with A(2) all(2) show ?thesis by simp
  qed
  with A show ?thesis
    by (intro exI [of _ "length (of_conn g (history s))"] exI [of _ "due g s"]) auto
qed

text \<open>The client that sets the key is answered as if the one that reads it were not there.\<close>

theorem own_keys_own_answers_witness:
  "\<exists>s. serving_run (\<lambda>_. True) (serving_start two_clients) s \<and>
     replies s 0 = fst (answer_lines (\<lambda>_. True) memory_ops (\<lambda>_. True) 0 [''SET a 1''] new_memory_store)"
proof -
  have "g \<notin> {0, 1} \<Longrightarrow> two_clients g = []" for g by (simp add: two_clients_def)
  then obtain s where s: "serving_run (\<lambda>_. True) (serving_start two_clients) s" "\<forall>g. work g s = 0"
    using drains [OF serving_inv_start, of "{0, 1}" two_clients "\<lambda>_. True"] by auto
  have "\<forall>h k. h \<noteq> 0 \<longrightarrow> (\<forall>l \<in> set (two_clients h). \<forall>l' \<in> set (two_clients 0). writes_key l k \<longrightarrow> \<not> touches l' k)"
    by (simp add: two_clients_def writes_key_def get_line)
  from own_keys_own_answers [OF s(1) this] s(2) have
    "fst (answer_lines (\<lambda>_. True) memory_ops (\<lambda>_. True) 0 (two_clients 0) new_memory_store) = replies s 0"
    by (auto simp: no_work)
  then have "replies s 0 = fst (answer_lines (\<lambda>_. True) memory_ops (\<lambda>_. True) 0 [''SET a 1''] new_memory_store)"
    by (simp add: two_clients_def)
  with s(1) show ?thesis by blast
qed

end
