(* ===== verification/ServerWhole.thy ===== *)
theory ServerWhole
  imports ServerRun ServerLive
begin

text \<open>
  The whole server: its life cycle (theory ServerRun) and its conversations (theory ServerConc) at
  once. A handler reads, executes and answers only while it loops; it leaves its loop between two
  lines or when the write of a reply fails, which it does for certain once \<open>Shutdown\<close> has closed the
  connection.
\<close>

section \<open>Steps\<close>

text \<open>\<open>got\<close> are the replies that were written in full. A reply that fails may still reach the client in part.\<close>

record whole_server =
  cycle :: server
  talk :: serving_state
  got :: "conn \<Rightarrow> bytes list"

definition whole_start :: "(conn \<Rightarrow> bytes list) \<Rightarrow> whole_server" where
  "whole_start input = \<lparr>cycle = fresh_server, talk = serving_start input, got = (\<lambda>_. [])\<rparr>"

text \<open>The handler that makes a step of the conversations.\<close>

definition acts :: "conn \<Rightarrow> serving_state \<Rightarrow> serving_state \<Rightarrow> bool" where
  "acts g n m \<longleftrightarrow>
     unread m g \<noteq> unread n g \<or> in_work m g \<noteq> in_work n g \<or> phase_of (locks m) g \<noteq> phase_of (locks n) g"

inductive whole_step :: "(nat \<Rightarrow> bool) \<Rightarrow> whole_server \<Rightarrow> whole_server \<Rightarrow> bool" for p where
  lives: "server_step (cycle w) c \<Longrightarrow>
    \<forall>g. handler (cycle w) g = Looping \<longrightarrow> handler c g = Looping \<or> in_work (talk w) g = None \<Longrightarrow>
    whole_step p w (w\<lparr>cycle := c\<rparr>)"
| works: "serving_step p (talk w) n \<Longrightarrow> acts g (talk w) n \<Longrightarrow> handler (cycle w) g = Looping \<Longrightarrow>
    replies n g = replies (talk w) g \<Longrightarrow> whole_step p w (w\<lparr>talk := n\<rparr>)"
| delivers: "serving_step p (talk w) n \<Longrightarrow> acts g (talk w) n \<Longrightarrow> handler (cycle w) g = Looping \<Longrightarrow>
    replies n g = replies (talk w) g @ [r] \<Longrightarrow> g \<in> open_conns (cycle w) \<Longrightarrow>
    whole_step p w (w\<lparr>talk := n, got := (got w)(g := got w g @ [r])\<rparr>)"
| loses: "serving_step p (talk w) n \<Longrightarrow> acts g (talk w) n \<Longrightarrow> handler (cycle w) g = Looping \<Longrightarrow>
    replies n g = replies (talk w) g @ [r] \<Longrightarrow>
    whole_step p w (w\<lparr>talk := n, cycle := set_handler g Leaving (cycle w)\<rparr>)"

inductive whole_reach :: "(nat \<Rightarrow> bool) \<Rightarrow> (conn \<Rightarrow> bytes list) \<Rightarrow> whole_server \<Rightarrow> bool" for p input where
  start: "whole_reach p input (whole_start input)"
| step: "whole_reach p input w \<Longrightarrow> whole_step p w v \<Longrightarrow> whole_reach p input v"

section \<open>One handler at a time\<close>

definition same_at :: "conn \<Rightarrow> serving_state \<Rightarrow> serving_state \<Rightarrow> bool" where
  "same_at h n m \<longleftrightarrow> \<not> acts h n m \<and> replies m h = replies n h"

lemma lock_step_local:
  assumes "lock_step l k"
  obtains g where "\<And>h. h \<noteq> g \<Longrightarrow> phase_of k h = phase_of l h"
  using assms by (cases rule: lock_step.cases) (fastforce simp: go_phase_def finish_def)+

lemma serving_step_local:
  assumes "serving_step p n m"
  obtains g where "\<And>h. h \<noteq> g \<Longrightarrow> same_at h n m"
  using assms
proof (cases rule: serving_step.cases)
  case (store_moves l)
  obtain g where "\<And>h. h \<noteq> g \<Longrightarrow> phase_of l h = phase_of (locks n) h"
    using lock_step_local [OF store_moves(2)] by blast
  with store_moves(1) show ?thesis by (intro that [of g]) (simp add: same_at_def acts_def)
next
  case (store_returns g op r l)
  obtain i where i: "\<And>h. h \<noteq> i \<Longrightarrow> phase_of l h = phase_of (locks n) h"
    using lock_step_local [OF store_returns(3)] by blast
  moreover have "i = g"
    using i [of g] store_returns(2,4) by (cases "i = g") simp_all
  ultimately show ?thesis
    using store_returns(1) by (intro that [of g]) (simp add: same_at_def acts_def write_reply_def)
qed (auto simp: same_at_def acts_def write_reply_def go_phase_def intro: that)

text \<open>A handler that writes its reply has no line in hand any more.\<close>

lemma written_is_done: "serving_step p n m \<Longrightarrow> replies m g \<noteq> replies n g \<Longrightarrow> in_work m g = None"
  by (induction rule: serving_step.induct) (auto simp: write_reply_def split: if_splits)

lemma only_actor: "serving_step p n m \<Longrightarrow> acts g n m \<Longrightarrow> h \<noteq> g \<Longrightarrow> same_at h n m"
  using serving_step_local [of p n m] by (metis same_at_def)

text \<open>The life of a handler goes one way.\<close>

definition gone :: "handler_phase \<Rightarrow> bool" where
  "gone h \<longleftrightarrow> h \<noteq> NoHandler \<and> h \<noteq> Looping"

lemma handler_moves:
  assumes "server_step s t" "server_ok s"
  shows "handler t g = handler s g \<or> handler s g = NoHandler \<and> handler t g = Looping \<or>
    handler s g = Looping \<and> gone (handler t g) \<or> gone (handler s g) \<and> gone (handler t g)"
  using assms(1)
proof cases
  case by_serve
  then show ?thesis
    using assms(2) by (cases rule: serve_step.cases) (auto simp: set_handler_def server_ok_def conns_ok_def)
next
  case by_handler
  then show ?thesis by (cases rule: handler_step.cases) (auto simp: set_handler_def gone_def)
next
  case by_shutdown
  then show ?thesis by (cases rule: shutdown_step.cases) auto
qed

section \<open>The invariant\<close>

definition in_step :: "whole_server \<Rightarrow> conn \<Rightarrow> bool" where
  "in_step w g \<longleftrightarrow>
     (handler (cycle w) g \<noteq> Looping \<longrightarrow> in_work (talk w) g = None) \<and>
     (if gone (handler (cycle w) g) then \<exists>lost. replies (talk w) g = got w g @ lost \<and> length lost \<le> 1
      else replies (talk w) g = got w g)"

definition whole_inv :: "(nat \<Rightarrow> bool) \<Rightarrow> (conn \<Rightarrow> bytes list) \<Rightarrow> whole_server \<Rightarrow> bool" where
  "whole_inv p input w \<longleftrightarrow> server_reach (cycle w) \<and> serving_run p (serving_start input) (talk w) \<and> (\<forall>g. in_step w g)"

lemma in_step_same:
  "in_step w g \<Longrightarrow> same_at g (talk w) n \<Longrightarrow> handler c g = handler (cycle w) g \<Longrightarrow> k g = got w g \<Longrightarrow>
   in_step (w\<lparr>talk := n, cycle := c, got := k\<rparr>) g"
  by (auto simp: in_step_def same_at_def acts_def split: if_splits)

lemma in_step_lives:
  assumes "in_step w g" "server_step (cycle w) c" "server_reach (cycle w)"
    "handler (cycle w) g = Looping \<longrightarrow> handler c g = Looping \<or> in_work (talk w) g = None"
  shows "in_step (w\<lparr>cycle := c\<rparr>) g"
  using handler_moves [OF assms(2) server_ok_reach [OF assms(3)], of g] assms(1,4)
  by (auto simp: in_step_def gone_def split: if_splits)

lemma whole_inv_step: "whole_step p w v \<Longrightarrow> whole_inv p input w \<Longrightarrow> whole_inv p input v"
proof (induction rule: whole_step.induct)
  case (lives w c)
  then show ?case
    using in_step_lives by (auto simp: whole_inv_def intro: server_reach.step)
next
  case (works w n g)
  have "in_step (w\<lparr>talk := n, cycle := cycle w, got := got w\<rparr>) h" for h
  proof (cases "h = g")
    case True
    with works show ?thesis by (simp add: whole_inv_def in_step_def gone_def)
  next
    case False
    then show ?thesis using works only_actor [OF works(1,2)] by (intro in_step_same) (simp_all add: whole_inv_def)
  qed
  with works show ?case by (auto simp: whole_inv_def intro: serving_run.go)
next
  case (delivers w n g r)
  have "in_step (w\<lparr>talk := n, cycle := cycle w, got := (got w)(g := got w g @ [r])\<rparr>) h" for h
  proof (cases "h = g")
    case True
    with delivers show ?thesis by (simp add: whole_inv_def in_step_def gone_def)
  next
    case False
    then show ?thesis using delivers only_actor [OF delivers(1,2)] by (intro in_step_same) (simp_all add: whole_inv_def)
  qed
  with delivers show ?case by (auto simp: whole_inv_def intro: serving_run.go)
next
  case (loses w n g r)
  have "in_step (w\<lparr>talk := n, cycle := set_handler g Leaving (cycle w), got := got w\<rparr>) h" for h
  proof (cases "h = g")
    case True
    have "in_work n g = None" by (rule written_is_done [OF loses(1)]) (simp add: loses(4))
    with True loses show ?thesis by (auto simp: whole_inv_def in_step_def gone_def set_handler_def)
  next
    case False
    then show ?thesis
      using loses only_actor [OF loses(1,2)] by (intro in_step_same) (simp_all add: whole_inv_def set_handler_def)
  qed
  moreover have "server_reach (set_handler g Leaving (cycle w))"
    using loses by (auto simp: whole_inv_def intro: server_reach.step by_handler leave)
  ultimately show ?case using loses by (auto simp: whole_inv_def intro: serving_run.go)
qed

lemma whole_inv_reach: "whole_reach p input w \<Longrightarrow> whole_inv p input w"
proof (induction rule: whole_reach.induct)
  case start
  have "\<not> gone (handler fresh_server g)" for g by (simp add: fresh_server_def gone_def)
  then show ?case
    by (simp add: whole_inv_def whole_start_def in_step_def server_reach.new serving_run.stay)
      (simp add: serving_start_def)
qed (rule whole_inv_step)

section \<open>After a shutdown\<close>

lemma stopped_stays: "server_step s t \<Longrightarrow> stopping s = ShutdownNil \<Longrightarrow> stopping t = ShutdownNil"
  by (erule server_step.cases) (auto simp: serve_stopping handler_stopping elim: shutdown_step.cases)

lemma stopped_handlers:
  assumes "server_reach s" "stopping s = ShutdownNil"
  shows "handler s g \<noteq> Looping"
proof -
  have "\<not> alive (handler s g)"
    using server_ok_reach [OF assms(1)] assms(2) by (auto simp: server_ok_def drained_ok_def members_def)
  then show ?thesis by auto
qed

lemma stopped_step:
  assumes "whole_step p w v" "whole_inv p input w" "stopping (cycle w) = ShutdownNil"
  shows "talk v = talk w \<and> got v = got w \<and> stopping (cycle v) = ShutdownNil"
  using assms(1)
proof cases
  case (lives c)
  then show ?thesis using stopped_stays assms(3) by simp
qed (use assms(2,3) stopped_handlers in \<open>auto simp: whole_inv_def\<close>)

lemma stopped_run:
  assumes "(whole_step p)\<^sup>*\<^sup>* w v" "whole_inv p input w" "stopping (cycle w) = ShutdownNil"
  shows "talk v = talk w \<and> got v = got w"
proof -
  have "whole_inv p input v \<and> talk v = talk w \<and> got v = got w \<and> stopping (cycle v) = ShutdownNil"
    using assms(1)
  proof (induction rule: rtranclp_induct)
    case base
    then show ?case using assms(2,3) by simp
  next
    case (step u v)
    then show ?case using whole_inv_step [OF step.hyps(2)] stopped_step [OF step.hyps(2)] by auto
  qed
  then show ?thesis by blast
qed

section \<open>Property\<close>

text \<open>
  C15: a shutdown tears nothing apart. However the accept loop, the handlers, the store's lock, writes
  that fail and \<open>Shutdown\<close> interleave: the lines that have taken effect are, in order, a run of the
  sequential server that ends in the store's contents; every client has got a prefix of its replies in
  that run, at most one of them is missing, and none as long as its handler loops with no line in hand;
  and once \<open>Shutdown\<close> has returned without an error no handler is inside a line or the store, and
  neither the store nor what was answered ever changes again.
\<close>

theorem shutdown_tears_nothing_apart:
  assumes "whole_reach p input w"
  shows "answer_lines p memory_ops (\<lambda>_. True) 0 (map (fst \<circ> snd) (history (talk w))) new_memory_store =
      (map (snd \<circ> snd) (history (talk w)), contents (locks (talk w))) \<and>
    (\<exists>rest. input g = map fst (of_conn g (history (talk w))) @ rest) \<and>
    (\<exists>lost. map snd (of_conn g (history (talk w))) = got w g @ lost \<and> length lost \<le> 1 \<and>
      (handler (cycle w) g = Looping \<and> in_work (talk w) g = None \<longrightarrow> lost = [])) \<and>
    (stopping (cycle w) = ShutdownNil \<longrightarrow>
      in_work (talk w) g = None \<and> phase_of (locks (talk w)) g = Idle \<and>
      (\<forall>v. (whole_step p)\<^sup>*\<^sup>* w v \<longrightarrow> talk v = talk w \<and> got v = got w))"
proof -
  have inv: "whole_inv p input w" using assms by (rule whole_inv_reach)
  then have s: "serving_inv p input (talk w)" and r: "server_reach (cycle w)" and i: "in_step w g"
    using serving_inv_run [OF _ serving_inv_start] by (auto simp: whole_inv_def)
  have idle: "phase_of (locks (talk w)) g = Idle" if "in_work (talk w) g = None"
    using store_line [OF s, of g] that by force
  have c: "map snd (of_conn g (history (talk w))) = replies (talk w) g @ due g (talk w)"
    "\<exists>rest. input g = map fst (of_conn g (history (talk w))) @ rest"
    using serving_inv_D(3) [OF s, of g] by (auto simp: conn_right_def)
  have due: "length (due g (talk w)) \<le> 1" "in_work (talk w) g = None \<Longrightarrow> due g (talk w) = []"
    using idle by (auto simp: due_def split: option.split)
  have "\<exists>lost. map snd (of_conn g (history (talk w))) = got w g @ lost \<and> length lost \<le> 1 \<and>
      (handler (cycle w) g = Looping \<and> in_work (talk w) g = None \<longrightarrow> lost = [])"
    using i c(1) due by (auto simp: in_step_def gone_def split: if_splits)
  moreover have "in_work (talk w) g = None" if "stopping (cycle w) = ShutdownNil"
    using i stopped_handlers [OF r that] by (simp add: in_step_def)
  ultimately show ?thesis
    using replay_answers [OF serving_inv_D(2) [OF s], of 0] c(2) idle stopped_run [OF _ inv] by blast
qed

text \<open>A client connects, sends an empty line and gets the error for it.\<close>

definition empty_line :: "conn \<Rightarrow> bytes list" where
  "empty_line g = (if g = 7 then [[]] else [])"

theorem shutdown_tears_nothing_apart_witness:
  "\<exists>w. whole_reach (\<lambda>_. True) empty_line w \<and> length (got w 7) = 1 \<and>
     map snd (of_conn 7 (history (talk w))) = got w 7"
proof -
  let ?p = "\<lambda>_ :: nat. True" and ?n = "serving_start empty_line" and ?r = "reply_error (error_text (\<lambda>_. True) ErrEmpty)"
  let ?c1 = "fresh_server\<lparr>serving := Accepted 7, open_conns := {7}, accepted := {7}\<rparr>"
  let ?c2 = "?c1\<lparr>serving := Spawning 7, conns := {7}, wg := 1\<rparr>"
  let ?c3 = "(set_handler 7 Looping ?c2)\<lparr>serving := Accepting\<rparr>"
  let ?n1 = "?n\<lparr>unread := (unread ?n)(7 := []), in_work := (in_work ?n)(7 := Some [])\<rparr>"
  let ?n2 = "(write_reply 7 ?r ?n1)\<lparr>history := history ?n1 @ [(7, [], ?r)]\<rparr>"
  define w where "w = (\<lambda>c n k. \<lparr>cycle = c, talk = n, got = k\<rparr>)"
  have w [simp]: "cycle (w c n k) = c" "talk (w c n k) = n" "got (w c n k) = k" "(w c n k)\<lparr>cycle := c'\<rparr> = w c' n k"
    "(w c n k)\<lparr>talk := m\<rparr> = w c m k" "(w c n k)\<lparr>got := k'\<rparr> = w c n k'" for c n k c' m k'
    by (simp_all add: w_def)
  have "server_step fresh_server ?c1" using accept [of fresh_server 7] by (intro by_serve) (simp add: fresh_server_def)
  then have r1: "whole_reach ?p empty_line (w ?c1 ?n (\<lambda>_. []))"
    using whole_reach.step [OF start lives [of "whole_start empty_line"]] by (simp add: whole_start_def w_def fresh_server_def)
  have "server_step ?c1 ?c2" using admit [of ?c1 7] by (intro by_serve) (simp add: fresh_server_def mu_free_def)
  then have r2: "whole_reach ?p empty_line (w ?c2 ?n (\<lambda>_. []))"
    using whole_reach.step [OF r1 lives [of _ ?c2]] by (simp add: fresh_server_def)
  have "server_step ?c2 ?c3" using spawn [of ?c2 7] by (intro by_serve) simp
  then have r3: "whole_reach ?p empty_line (w ?c3 ?n (\<lambda>_. []))"
    using whole_reach.step [OF r2 lives [of _ ?c3]] by (simp add: fresh_server_def)
  have "serving_step ?p ?n ?n1" by (intro take_line) (simp_all add: serving_start_def empty_line_def)
  then have r4: "whole_reach ?p empty_line (w ?c3 ?n1 (\<lambda>_. []))"
    using whole_reach.step [OF r3 works [of ?p _ ?n1 7]] by (simp add: acts_def set_handler_def serving_start_def)
  have empty: "parse [] = Inl ErrEmpty" by (simp add: parse_def trim_eol_def Let_def)
  have "serving_step ?p ?n1 ?n2"
    by (rule refuse_line [OF _ _ empty]) (simp_all add: serving_start_def lock_start_def)
  then have r5: "whole_reach ?p empty_line (w ?c3 ?n2 ((\<lambda>_. [])(7 := [?r])))"
    using whole_reach.step [OF r4 delivers [of ?p _ ?n2 7 ?r]]
    by (simp add: acts_def set_handler_def serving_start_def write_reply_def)
  from shutdown_tears_nothing_apart [OF this, of 7] r5 show ?thesis
    by (intro exI [of _ "w ?c3 ?n2 ((\<lambda>_. [])(7 := [?r]))"]) (auto simp: set_handler_def write_reply_def)
qed

end
