(* ===== verification/ServerMain.thy ===== *)
theory ServerMain
  imports ServerRun
begin

text \<open>
  The command that runs the server (cmd/kvstore/main.go): it listens, lets \<open>Serve\<close> run in a goroutine,
  waits for whichever comes first of its result and an interrupt, and then calls \<open>Shutdown\<close> once.
  The server itself moves as in theory ServerRun as long as the process lives.
\<close>

section \<open>Steps\<close>

text \<open>
  \<open>Waiting\<close> is the \<open>select\<close>, \<open>Stopping\<close> the call of \<open>Shutdown\<close>; \<open>Fatal\<close> is \<open>log.Fatal\<close>, \<open>Exited\<close> the end
  of \<open>main\<close>. \<open>interrupted\<close> is whether the context of \<open>signal.NotifyContext\<close> is done.
\<close>

datatype life_phase = Waiting | Stopping | Fatal | Exited

record process =
  srv :: server
  life :: life_phase
  interrupted :: bool

definition process_start :: "bool \<Rightarrow> process" where
  "process_start listened = \<lparr>srv = fresh_server, life = (if listened then Waiting else Fatal), interrupted = False\<rparr>"

definition running :: "process \<Rightarrow> bool" where
  "running m \<longleftrightarrow> life m = Waiting \<or> life m = Stopping"

inductive main_step :: "process \<Rightarrow> process \<Rightarrow> bool" where
  serves: "running m \<Longrightarrow> serve_step (srv m) s \<Longrightarrow> main_step m (m\<lparr>srv := s\<rparr>)"
| handles: "running m \<Longrightarrow> handler_step (srv m) s \<Longrightarrow> main_step m (m\<lparr>srv := s\<rparr>)"
| interrupt: "running m \<Longrightarrow> main_step m (m\<lparr>interrupted := True\<rparr>)"
| serve_failed: "life m = Waiting \<Longrightarrow> serving (srv m) = ServeError \<Longrightarrow> main_step m (m\<lparr>life := Fatal\<rparr>)"
| serve_ended: "life m = Waiting \<Longrightarrow> serving (srv m) = ServeNil \<Longrightarrow> main_step m (m\<lparr>life := Stopping\<rparr>)"
| stop_now: "life m = Waiting \<Longrightarrow> interrupted m \<Longrightarrow> main_step m (m\<lparr>life := Stopping\<rparr>)"
| shuts_down: "life m = Stopping \<Longrightarrow> shutdown_step (srv m) s \<Longrightarrow> main_step m (m\<lparr>srv := s\<rparr>)"
| ends: "life m = Stopping \<Longrightarrow> stopping (srv m) = ShutdownNil \<or> stopping (srv m) = ShutdownError \<Longrightarrow>
    main_step m (m\<lparr>life := Exited\<rparr>)"

inductive main_reach :: "process \<Rightarrow> bool" where
  start: "main_reach (process_start listened)"
| step: "main_reach m \<Longrightarrow> main_step m n \<Longrightarrow> main_reach n"

section \<open>The invariant\<close>

definition process_ok :: "process \<Rightarrow> bool" where
  "process_ok m \<longleftrightarrow> server_reach (srv m) \<and>
     (life m = Waiting \<longrightarrow> stopping (srv m) = NotCalled) \<and>
     (life m = Fatal \<longrightarrow> stopping (srv m) = NotCalled \<and> (srv m = fresh_server \<or> broken (srv m))) \<and>
     (life m = Stopping \<longrightarrow> interrupted m) \<and>
     (life m = Exited \<longrightarrow> interrupted m \<and> (stopping (srv m) = ShutdownNil \<or> stopping (srv m) = ShutdownError))"

lemma ended_means_shut: "server_reach s \<Longrightarrow> stopping s = NotCalled \<Longrightarrow> serving s \<noteq> ServeNil"
  using server_ok_reach [of s] by (auto simp: server_ok_def phases_ok_def)

lemma failed_means_broken: "server_reach s \<Longrightarrow> serving s = ServeError \<Longrightarrow> broken s"
  using server_ok_reach [of s] by (auto simp: server_ok_def phases_ok_def)

lemma process_ok_step: "main_step m n \<Longrightarrow> process_ok m \<Longrightarrow> process_ok n"
proof (induction rule: main_step.induct)
  case (serves m s)
  then show ?case
    using server_reach.step [OF _ by_serve [OF serves(2)]] serve_stopping [OF serves(2)]
    by (auto simp: process_ok_def running_def)
next
  case (handles m s)
  then show ?case
    using server_reach.step [OF _ by_handler [OF handles(2)]] handler_stopping [OF handles(2)]
    by (auto simp: process_ok_def running_def)
next
  case (serve_failed m)
  then show ?case using failed_means_broken by (simp add: process_ok_def)
next
  case (serve_ended m)
  then show ?case using ended_means_shut by (simp add: process_ok_def)
next
  case (shuts_down m s)
  then show ?case
    using server_reach.step [OF _ by_shutdown [OF shuts_down(2)]] by (simp add: process_ok_def)
qed (auto simp: process_ok_def running_def)

lemma process_ok_reach: "main_reach m \<Longrightarrow> process_ok m"
proof (induction rule: main_reach.induct)
  case (start listened)
  have "stopping fresh_server = NotCalled" by (simp add: fresh_server_def)
  then show ?case by (simp add: process_ok_def process_start_def server_reach.new)
qed (rule process_ok_step)

section \<open>Getting to the end\<close>

lemma stopping_runs:
  "server_step\<^sup>*\<^sup>* s t \<Longrightarrow> life m = Stopping \<Longrightarrow> srv m = s \<Longrightarrow> main_step\<^sup>*\<^sup>* m (m\<lparr>srv := t\<rparr>)"
proof (induction rule: rtranclp_induct)
  case (step t u)
  have "main_step (m\<lparr>srv := t\<rparr>) (m\<lparr>srv := t\<rparr>\<lparr>srv := u\<rparr>)"
    using step.hyps(2)
  proof cases
    case by_serve
    with step.prems(1) show ?thesis by (intro serves) (simp_all add: running_def)
  next
    case by_handler
    with step.prems(1) show ?thesis by (intro handles) (simp_all add: running_def)
  next
    case by_shutdown
    with step.prems(1) show ?thesis by (intro shuts_down) simp_all
  qed
  with step.IH [OF step.prems] show ?case by simp
next
  case base
  then have "m\<lparr>srv := s\<rparr> = m" by simp
  then show ?case by simp
qed

lemma shutdown_from_the_start:
  assumes "server_reach s" "stopping s = NotCalled"
  shows "\<exists>t. server_step\<^sup>*\<^sup>* s t \<and> stopping t = ShutdownNil"
proof -
  let ?s1 = "s\<lparr>stopping := DoneClosed, shut := True\<rparr>"
  let ?s2 = "?s1\<lparr>stopping := ListenerClosed, ln_open := False\<rparr>"
  let ?s3 = "?s2\<lparr>stopping := Draining, open_conns := open_conns ?s2 - conns ?s2\<rparr>"
  have "server_step s ?s1" using assms(2) by (intro by_shutdown close_done)
  moreover have "server_step ?s1 ?s2" by (intro by_shutdown close_listener) simp
  moreover have "server_step ?s2 ?s3" by (intro by_shutdown close_conns) simp
  ultimately have run: "server_step\<^sup>*\<^sup>* s ?s3" by (meson r_into_rtranclp rtranclp.rtrancl_into_rtrancl)
  have "server_ok ?s3" using server_ok_runs [OF run server_ok_reach [OF assms(1)]] .
  from shutdown_reachable [OF this] obtain t where "server_step\<^sup>*\<^sup>* ?s3 t" "stopping t = ShutdownNil" by auto
  with run show ?thesis by (meson rtranclp_trans)
qed

lemma interrupt_ends:
  assumes "main_reach m" "life m = Waiting"
  shows "\<exists>n. main_step\<^sup>*\<^sup>* m n \<and> life n = Exited \<and> stopping (srv n) = ShutdownNil"
proof -
  have ok: "server_reach (srv m)" "stopping (srv m) = NotCalled"
    using process_ok_reach [OF assms(1)] assms(2) by (simp_all add: process_ok_def)
  obtain t where t: "server_step\<^sup>*\<^sup>* (srv m) t" "stopping t = ShutdownNil"
    using shutdown_from_the_start [OF ok] by blast
  let ?a = "m\<lparr>interrupted := True\<rparr>" and ?b = "m\<lparr>interrupted := True, life := Stopping\<rparr>"
  have "main_step m ?a" using assms(2) by (intro interrupt) (simp add: running_def)
  moreover have "main_step ?a ?b" using stop_now [of ?a] assms(2) by simp
  moreover have "main_step\<^sup>*\<^sup>* ?b (?b\<lparr>srv := t\<rparr>)" using t(1) by (intro stopping_runs) simp_all
  moreover have "main_step (?b\<lparr>srv := t\<rparr>) (?b\<lparr>srv := t, life := Exited\<rparr>)"
    using ends [of "?b\<lparr>srv := t\<rparr>"] t(2) by simp
  ultimately have "main_step\<^sup>*\<^sup>* m (?b\<lparr>srv := t, life := Exited\<rparr>)"
    by (meson converse_rtranclp_into_rtranclp rtranclp.rtrancl_into_rtrancl)
  with t(2) show ?thesis
    by (intro exI [of _ "?b\<lparr>srv := t, life := Exited\<rparr>"]) simp
qed

section \<open>Property\<close>

text \<open>
  C17: the command keeps the server's rules. It drives only runs of the server's life cycle, so
  \<open>Shutdown\<close> is called at most once, and only after an interrupt; \<open>Serve\<close> never returns nil while the
  command still waits; it dies early only because it could not listen or the listener broke; when it
  ends after a shutdown without an error no handler is left; and as long as it waits, one interrupt
  is enough for it to be able to end so.
\<close>

theorem command_stops_cleanly:
  assumes "main_reach m"
  shows "server_reach (srv m) \<and>
    (stopping (srv m) \<noteq> NotCalled \<longrightarrow> interrupted m) \<and>
    (life m = Waiting \<longrightarrow> serving (srv m) \<noteq> ServeNil) \<and>
    (life m = Fatal \<longrightarrow> srv m = fresh_server \<or> broken (srv m)) \<and>
    (life m = Exited \<and> stopping (srv m) \<noteq> ShutdownError \<longrightarrow>
      (\<forall>c. \<not> alive (handler (srv m) c)) \<and> wg (srv m) = 0 \<and> conns (srv m) = {}) \<and>
    (life m = Waiting \<longrightarrow> (\<exists>n. main_step\<^sup>*\<^sup>* m n \<and> life n = Exited \<and> stopping (srv n) = ShutdownNil))"
proof -
  note P = process_ok_reach [OF assms, unfolded process_ok_def]
  have "(\<forall>c. \<not> alive (handler (srv m) c)) \<and> wg (srv m) = 0 \<and> conns (srv m) = {}"
    if "stopping (srv m) = ShutdownNil"
  proof -
    have ok: "conns_ok (srv m)" "count_ok (srv m)" "members (srv m) = {}"
      using server_ok_reach [of "srv m"] P that by (auto simp: server_ok_def drained_ok_def)
    then have "\<not> alive (handler (srv m) c)" "counted (serving (srv m)) = {}" "wg (srv m) = 0" for c
      by (auto simp: members_def count_ok_def)
    moreover from this(1) have "handler (srv m) c \<noteq> Looping" "handler (srv m) c \<noteq> Leaving" for c
      by (metis alive_simps)+
    ultimately show ?thesis using ok(1) by (simp add: conns_ok_def)
  qed
  moreover have "stopping (srv m) \<noteq> NotCalled \<longrightarrow> interrupted m"
    using P by (cases "life m") auto
  ultimately show ?thesis
    using P ended_means_shut [of "srv m"] interrupt_ends [OF assms] by auto
qed

theorem command_stops_cleanly_witness:
  "\<exists>n. main_step\<^sup>*\<^sup>* (process_start True) n \<and> life n = Exited \<and> stopping (srv n) = ShutdownNil"
  using command_stops_cleanly [OF main_reach.start [of True]] by (simp add: process_start_def)

end
