(* ===== verification/Utf8.thy ===== *)
theory Utf8
  imports GoText Protocol
begin

text \<open>
  Where the two models of text meet: bytes as Go's packages see them (theory Protocol) and UTF-16 as
  the page sees it (theory GoText). The encoder of one and the decoder of the other are inverse, and
  Go's decoder reads exactly what a well-formed code point writes.
\<close>

section \<open>Crossing to Go and back\<close>

definition to_go :: "jsstr \<Rightarrow> bytes" where
  "to_go s = map (\<lambda>b. char_of (unat b)) (encode s)"

definition to_js :: "bytes \<Rightarrow> jsstr" where
  "to_js bs = decode (map (\<lambda>c. word_of_nat (of_char c)) bs)"

section \<open>A code point as bytes\<close>

definition rune_utf8 :: "nat \<Rightarrow> bytes" where
  "rune_utf8 r = map (\<lambda>b. char_of (unat b)) (utf8_point r)"

lemma char_byte_of: "n < 256 \<Longrightarrow> char_of (unat (byte_of n)) = (char_of n :: char)"
  by (simp add: unat_byte_of)

lemma rune_utf8_cases:
  "p < 0x80 \<Longrightarrow> rune_utf8 p = [char_of p]"
  "0x80 \<le> p \<Longrightarrow> p < 0x800 \<Longrightarrow> rune_utf8 p = [char_of (0xC0 + p div 64), char_of (0x80 + p mod 64)]"
  "0x800 \<le> p \<Longrightarrow> p < 0x10000 \<Longrightarrow>
     rune_utf8 p = [char_of (0xE0 + p div 4096), char_of (0x80 + p div 64 mod 64), char_of (0x80 + p mod 64)]"
  "0x10000 \<le> p \<Longrightarrow> p < 0x110000 \<Longrightarrow>
     rune_utf8 p = [char_of (0xF0 + p div 262144), char_of (0x80 + p div 4096 mod 64),
       char_of (0x80 + p div 64 mod 64), char_of (0x80 + p mod 64)]"
proof -
  show "p < 0x80 \<Longrightarrow> rune_utf8 p = [char_of p]"
    by (simp add: rune_utf8_def utf8_point_def char_byte_of)
  show "0x80 \<le> p \<Longrightarrow> p < 0x800 \<Longrightarrow> rune_utf8 p = [char_of (0xC0 + p div 64), char_of (0x80 + p mod 64)]"
    using low_digit [of p] by (simp add: rune_utf8_def utf8_point_def char_byte_of div_less_iff_less_mult less_diff_conv)
  show "0x800 \<le> p \<Longrightarrow> p < 0x10000 \<Longrightarrow>
     rune_utf8 p = [char_of (0xE0 + p div 4096), char_of (0x80 + p div 64 mod 64), char_of (0x80 + p mod 64)]"
    using low_digit [of p] low_digit [of "p div 64"]
    by (simp add: rune_utf8_def utf8_point_def char_byte_of div_less_iff_less_mult)
  show "0x10000 \<le> p \<Longrightarrow> p < 0x110000 \<Longrightarrow>
     rune_utf8 p = [char_of (0xF0 + p div 262144), char_of (0x80 + p div 4096 mod 64),
       char_of (0x80 + p div 64 mod 64), char_of (0x80 + p mod 64)]"
    using low_digit [of p] low_digit [of "p div 64"] low_digit [of "p div 4096"]
    by (simp add: rune_utf8_def utf8_point_def char_byte_of div_less_iff_less_mult)
qed

lemma byte_char [simp]: "n < 256 \<Longrightarrow> byte (char_of n) = n"
  by (simp add: byte_def)

text \<open>Go's decoder reads back the code point that was written, whatever follows.\<close>

lemma decode_rune_point:
  assumes "scalar p" "rune_utf8 p = c # cs"
  shows "decode_rune c (cs @ rest) = (p, Suc (length cs))"
proof -
  consider "p < 0x80" | "0x80 \<le> p" "p < 0x800" | "0x800 \<le> p" "p < 0x10000" | "0x10000 \<le> p" "p < 0x110000"
    using assms(1) unfolding scalar_def by linarith
  then show ?thesis
  proof cases
    case 1
    then show ?thesis using assms(2) by (auto simp: rune_utf8_cases decode_rune_def)
  next
    case 2
    have "p div 64 < 32" "2 \<le> p div 64"
      using 2 by (simp_all add: less_eq_div_iff_mult_less_eq div_less_iff_less_mult)
    then show ?thesis
      using assms(2) 2 low_digit [of p] by (auto simp: rune_utf8_cases decode_rune_def between_def)
  next
    case 3
    let ?a = "p div 4096" and ?b = "p div 64 mod 64"
    have "?a < 16" using 3 by (simp add: div_less_iff_less_mult)
    moreover have "32 \<le> ?b" if "?a = 0"
      using 3 digits64(1) [of p] low_digit [of p] that by simp
    moreover have "?b < 32" if "?a = 13"
      using assms(1) 3 digits64(1) [of p] low_digit [of "p div 64"] low_digit [of p] that by (simp add: scalar_def)
    ultimately show ?thesis
      using assms(2) 3 low_digit [of p] low_digit [of "p div 64"] digits64(1) [of p]
      by (auto simp: rune_utf8_cases decode_rune_def between_def algebra_simps simp del: div_mult_mod_eq)
  next
    case 4
    let ?a = "p div 262144" and ?b = "p div 4096 mod 64" and ?c = "p div 64 mod 64"
    have "?a < 5" using 4 by (simp add: div_less_iff_less_mult)
    moreover have "16 \<le> ?b" if "?a = 0"
      using 4 digits64(2) [of p] low_digit [of p] low_digit [of "p div 64"] that by simp
    moreover have "?b < 16" if "?a = 4"
      using 4 digits64(2) [of p] that by simp
    ultimately show ?thesis
      using assms(2) 4 low_digit [of p] low_digit [of "p div 64"] low_digit [of "p div 4096"] digits64(2) [of p]
      by (auto simp: rune_utf8_cases decode_rune_def between_def algebra_simps)
  qed
qed

text \<open>And what it accepts is what the code point writes.\<close>

lemma byte_parts: "byte c = n \<Longrightarrow> c = char_of n"
  by (auto simp: byte_def)

lemma last_digit: "z < 64 \<Longrightarrow> (q * 64 + z) div 64 = q \<and> (q * 64 + z) mod 64 = (z :: nat)"
  by simp

lemma div_steps: "p div 4096 = p div 64 div (64 :: nat)" "p div 262144 = p div 64 div 64 div 64"
  by (simp_all flip: div_mult2_eq)

lemma rune_of_two:
  assumes "decode_rune c cs = (r, w)" "\<not> (r = rune_error \<and> w = 1)" "0xC2 \<le> byte c" "byte c < 0xE0"
  shows "scalar r \<and> rune_bytes c cs = rune_utf8 r"
proof -
  obtain c1 ds where cs: "cs = c1 # ds" "between 0x80 0xBF (byte c1)"
      "r = (byte c - 0xC0) * 64 + (byte c1 - 0x80)" "w = 2"
    using assms by (auto simp: decode_rune_def Let_def split: list.splits if_splits)
  obtain x y where xy: "byte c = 0xC0 + x" "byte c1 = 0x80 + y" "2 \<le> x" "x < 32" "y < 64"
    using assms(3,4) cs(2) that [of "byte c - 0xC0" "byte c1 - 0x80"] by (auto simp: between_def)
  then have "r = x * 64 + y" "r div 64 = x" "r mod 64 = y"
    using cs(3) by auto
  with xy cs assms(1) show ?thesis
    using byte_parts [OF xy(1)] byte_parts [OF xy(2)] by (auto simp: scalar_def rune_bytes_def rune_utf8_cases)
qed

lemma rune_of_three:
  assumes "decode_rune c cs = (r, w)" "\<not> (r = rune_error \<and> w = 1)" "0xE0 \<le> byte c" "byte c < 0xF0"
  shows "scalar r \<and> rune_bytes c cs = rune_utf8 r"
proof -
  obtain c1 c2 ds where cs: "cs = c1 # c2 # ds"
      "between (if byte c = 0xE0 then 0xA0 else 0x80) (if byte c = 0xED then 0x9F else 0xBF) (byte c1)"
      "between 0x80 0xBF (byte c2)"
      "r = (byte c - 0xE0) * 4096 + (byte c1 - 0x80) * 64 + (byte c2 - 0x80)" "w = 3"
    using assms by (auto simp: decode_rune_def Let_def split: list.splits if_split_asm)
  obtain x y z where xy: "byte c = 0xE0 + x" "byte c1 = 0x80 + y" "byte c2 = 0x80 + z" "x < 16" "y < 64" "z < 64"
      "x = 0 \<Longrightarrow> 32 \<le> y" "x = 13 \<Longrightarrow> y < 32"
    using assms(3,4) cs(2,3) that [of "byte c - 0xE0" "byte c1 - 0x80" "byte c2 - 0x80"]
    by (auto simp: between_def split: if_splits)
  then have r: "r = x * 4096 + y * 64 + z"
    using cs(4) by auto
  have "r = (x * 64 + y) * 64 + z"
    unfolding r by (simp add: algebra_simps)
  then have d: "r mod 64 = z" "r div 4096 = x" "r div 64 mod 64 = y"
    using last_digit [OF xy(6), of "x * 64 + y"] last_digit [OF xy(5), of x] by (simp_all only: div_steps)
  have "0x800 \<le> r" "r < 0x10000" "\<not> (0xD800 \<le> r \<and> r < 0xE000)"
    using xy(4-8) unfolding r by (cases "x = 0"; cases "x = 13"; auto)+
  with xy cs d assms(1) show ?thesis
    using byte_parts [OF xy(1)] byte_parts [OF xy(2)] byte_parts [OF xy(3)]
    by (auto simp: scalar_def rune_bytes_def rune_utf8_cases)
qed

lemma rune_of_four:
  assumes "decode_rune c cs = (r, w)" "\<not> (r = rune_error \<and> w = 1)" "0xF0 \<le> byte c" "byte c \<le> 0xF4"
  shows "scalar r \<and> rune_bytes c cs = rune_utf8 r"
proof -
  obtain c1 c2 c3 ds where cs: "cs = c1 # c2 # c3 # ds"
      "between (if byte c = 0xF0 then 0x90 else 0x80) (if byte c = 0xF4 then 0x8F else 0xBF) (byte c1)"
      "between 0x80 0xBF (byte c2)" "between 0x80 0xBF (byte c3)"
      "r = (byte c - 0xF0) * 262144 + (byte c1 - 0x80) * 4096 + (byte c2 - 0x80) * 64 + (byte c3 - 0x80)" "w = 4"
    using assms by (auto simp: decode_rune_def Let_def split: list.splits if_split_asm)
  obtain x y z u where xy: "byte c = 0xF0 + x" "byte c1 = 0x80 + y" "byte c2 = 0x80 + z" "byte c3 = 0x80 + u"
      "x < 5" "y < 64" "z < 64" "u < 64" "x = 0 \<Longrightarrow> 16 \<le> y" "x = 4 \<Longrightarrow> y < 16"
    using assms(3,4) cs(2-4) that [of "byte c - 0xF0" "byte c1 - 0x80" "byte c2 - 0x80" "byte c3 - 0x80"]
    by (auto simp: between_def split: if_splits)
  then have r: "r = x * 262144 + y * 4096 + z * 64 + u"
    using cs(5) by auto
  have "r = ((x * 64 + y) * 64 + z) * 64 + u"
    unfolding r by (simp add: algebra_simps)
  then have d: "r div 262144 = x" "r div 4096 mod 64 = y" "r div 64 mod 64 = z" "r mod 64 = u"
    using last_digit [OF xy(8), of "(x * 64 + y) * 64 + z"] last_digit [OF xy(7), of "x * 64 + y"]
      last_digit [OF xy(6), of x] by (simp_all only: div_steps)
  have "0x10000 \<le> r" "r < 0x110000"
    using xy(5-10) unfolding r by (cases "x = 0"; cases "x = 4"; auto)+
  with xy cs d assms(1) show ?thesis
    using byte_parts [OF xy(1)] byte_parts [OF xy(2)] byte_parts [OF xy(3)] byte_parts [OF xy(4)]
    by (auto simp: scalar_def rune_bytes_def rune_utf8_cases)
qed

lemma rune_of_bytes:
  assumes "decode_rune c cs = (r, w)" "\<not> (r = rune_error \<and> w = 1)"
  shows "scalar r \<and> rune_bytes c cs = rune_utf8 r"
proof -
  consider "byte c < 0x80" | "0x80 \<le> byte c" "byte c < 0xC2 \<or> 0xF4 < byte c" | "0xC2 \<le> byte c" "byte c < 0xE0"
    | "0xE0 \<le> byte c" "byte c < 0xF0" | "0xF0 \<le> byte c" "byte c \<le> 0xF4"
    by linarith
  then show ?thesis
  proof cases
    case 1
    then show ?thesis
      using assms(1) by (auto simp: decode_rune_def scalar_def rune_bytes_def rune_utf8_cases byte_def)
  next
    case 2
    then show ?thesis
      using assms by (auto simp: decode_rune_def)
  next
    case 3
    then show ?thesis by (rule rune_of_two [OF assms])
  next
    case 4
    then show ?thesis by (rule rune_of_three [OF assms])
  next
    case 5
    then show ?thesis by (rule rune_of_four [OF assms])
  qed
qed

section \<open>Go's reading of bytes as text\<close>

text \<open>
  A loop over the runes of a string, where every byte that starts none counts as U+FFFD on its own.
\<close>

fun go_text :: "bytes \<Rightarrow> jsstr" where
  "go_text [] = []"
| "go_text (c # cs) = point_units (fst (decode_rune c cs)) @ go_text (after_rune c cs)"

lemma rune_utf8_nonempty: "rune_utf8 p \<noteq> []"
  by (simp add: rune_utf8_def utf8_point_def)

lemma go_text_point:
  assumes "scalar p"
  shows "go_text (rune_utf8 p @ bs) = point_units p @ go_text bs"
proof -
  obtain c cs where c: "rune_utf8 p = c # cs"
    using rune_utf8_nonempty by (cases "rune_utf8 p") auto
  then show ?thesis
    using decode_rune_point [OF assms c, of bs] by (simp add: after_rune_def)
qed

interpretation gt: utf8_reader "\<lambda>bs. go_text (map (\<lambda>b. char_of (unat b)) bs)"
  by unfold_locales (simp_all add: go_text_point flip: rune_utf8_def)

lemma go_text_to_go: "go_text (to_go s) = scrub s"
  using gt.read_encode by (simp add: to_go_def)

section \<open>ASCII text crosses unchanged\<close>

definition ascii :: "string \<Rightarrow> bool" where
  "ascii s \<longleftrightarrow> (\<forall>c \<in> set s. of_char c < (128 :: nat))"

lemma ascii_simps [simp]: "ascii []" "ascii (c # s) \<longleftrightarrow> of_char c < (128 :: nat) \<and> ascii s"
  by (simp_all add: ascii_def)

lemma encode_ascii: "ascii s \<Longrightarrow> encode (lit s) = map (\<lambda>c. word_of_nat (of_char c)) s"
  by (induction s) (auto simp: lit_Cons unat_code_unit utf8_point_def byte_of_def Let_def)

lemma to_go_ascii: "ascii s \<Longrightarrow> to_go (lit s) = s"
proof -
  have "unat (word_of_nat (of_char c) :: 8 word) = of_char c" for c :: char
    using nat_of_char_less_256 [of c] by (simp add: unat_of_nat)
  then show "ascii s \<Longrightarrow> ?thesis"
    by (simp add: to_go_def encode_ascii comp_def)
qed

lemma paired_ascii: "ascii s \<Longrightarrow> paired (lit s)"
  by (induction s) (simp_all add: lit_Cons unat_code_unit)

lemma to_js_ascii:
  assumes "ascii s"
  shows "to_js s = lit s"
proof -
  have "to_js s = decode (encode (lit s))"
    by (simp add: to_js_def encode_ascii [OF assms])
  also have "\<dots> = lit s"
  proof (cases s)
    case (Cons c cs)
    with assms have "code_unit c \<noteq> js_bom"
      by (auto simp: js_bom_def unat_code_unit dest!: arg_cong [where f = unat])
    with Cons show ?thesis
      using scrub_paired [OF paired_ascii [OF assms]] decode_encode_text [of "lit s"] by (simp add: lit_Cons)
  qed (simp add: decode_def utf8_bom_def)
  finally show ?thesis .
qed

lemma go_text_ascii: "ascii s \<Longrightarrow> go_text s = lit s"
  using go_text_to_go [of "lit s"] by (simp add: to_go_ascii scrub_paired paired_ascii)

end
