(* ===== verification/Json.thy ===== *)
theory Json
  imports Utf8
begin

text \<open>
  JSON texts, which the console page and its server exchange. The grammar is one for both sides, over
  numbers that are bytes for Go's \<open>encoding/json\<close> and code units for JavaScript's \<open>JSON\<close>; a string
  literal keeps its raw contents, which each side reads in its own way.
\<close>

section \<open>Tokens\<close>

datatype token =
  OpenBrace | CloseBrace | OpenBracket | CloseBracket | Colon | Comma | StringLit "nat list" | NumberLit "nat list"
| TrueLit | FalseLit | NullLit

definition json_space :: "nat \<Rightarrow> bool" where
  "json_space c \<longleftrightarrow> c = 32 \<or> c = 9 \<or> c = 10 \<or> c = 13"

definition hex_value :: "nat \<Rightarrow> nat option" where
  "hex_value c =
     (if between 48 57 c then Some (c - 48) else if between 97 102 c then Some (c - 87)
      else if between 65 70 c then Some (c - 55) else None)"

text \<open>The number that the first four hexadecimal digits write, if there are four.\<close>

definition hex4 :: "nat list \<Rightarrow> nat option" where
  "hex4 cs =
     (case cs of
        a # b # c # d # _ \<Rightarrow>
          (case (hex_value a, hex_value b, hex_value c, hex_value d) of
             (Some w, Some x, Some y, Some z) \<Rightarrow> Some (((w * 16 + x) * 16 + y) * 16 + z)
           | _ \<Rightarrow> None)
      | _ \<Rightarrow> None)"

text \<open>The character that follows a backslash, and the one it stands for.\<close>

definition escape_letters :: "nat \<rightharpoonup> nat" where
  "escape_letters = [34 \<mapsto> 34, 92 \<mapsto> 92, 47 \<mapsto> 47, 98 \<mapsto> 8, 102 \<mapsto> 12, 110 \<mapsto> 10, 114 \<mapsto> 13, 116 \<mapsto> 9]"

text \<open>The raw contents of a literal whose opening quote has been read, and the rest of the text.\<close>

fun scan_string :: "nat list \<Rightarrow> (nat list \<times> nat list) option" where
  "scan_string [] = None"
| "scan_string (c # cs) =
     (if c = 34 then Some ([], cs)
      else if c < 32 then None
      else if c = 92 then
        (case cs of
           [] \<Rightarrow> None
         | e # ds \<Rightarrow>
             if e = 117 then
               (if hex4 ds = None then None
                else map_option (\<lambda>(x, r). (c # e # take 4 ds @ x, r)) (scan_string (drop 4 ds)))
             else if escape_letters e = None then None
             else map_option (\<lambda>(x, r). (c # e # x, r)) (scan_string ds))
      else map_option (\<lambda>(x, r). (c # x, r)) (scan_string cs))"

definition digit :: "nat \<Rightarrow> bool" where
  "digit c \<longleftrightarrow> between 48 57 c"

text \<open>One digit or more.\<close>

definition scan_digits :: "nat list \<Rightarrow> (nat list \<times> nat list) option" where
  "scan_digits s = (if takeWhile digit s = [] then None else Some (takeWhile digit s, dropWhile digit s))"

definition scan_int :: "nat list \<Rightarrow> (nat list \<times> nat list) option" where
  "scan_int s = (case s of c # cs \<Rightarrow> if c = 48 then Some ([c], cs) else scan_digits s | [] \<Rightarrow> None)"

definition scan_after :: "(nat \<Rightarrow> bool) \<Rightarrow> (nat list \<Rightarrow> (nat list \<times> nat list) option) \<Rightarrow> nat list \<Rightarrow> (nat list \<times> nat list) option" where
  "scan_after mark f s =
     (case s of
        c # cs \<Rightarrow> if mark c then map_option (\<lambda>(x, r). (c # x, r)) (f cs) else Some ([], s)
      | [] \<Rightarrow> Some ([], s))"

definition then_scan :: "(nat list \<times> nat list) option \<Rightarrow> (nat list \<Rightarrow> (nat list \<times> nat list) option) \<Rightarrow> (nat list \<times> nat list) option" where
  "then_scan m f = (case m of None \<Rightarrow> None | Some (x, r) \<Rightarrow> map_option (\<lambda>(y, q). (x @ y, q)) (f r))"

definition scan_sign :: "(nat \<Rightarrow> bool) \<Rightarrow> nat list \<Rightarrow> (nat list \<times> nat list) option" where
  "scan_sign sign s = (case s of c # cs \<Rightarrow> if sign c then Some ([c], cs) else Some ([], s) | [] \<Rightarrow> Some ([], s))"

definition scan_number :: "nat list \<Rightarrow> (nat list \<times> nat list) option" where
  "scan_number s =
     then_scan (then_scan (then_scan (scan_sign (\<lambda>c. c = 45) s) scan_int)
       (scan_after (\<lambda>c. c = 46) scan_digits))
       (scan_after (\<lambda>c. c = 101 \<or> c = 69) (\<lambda>r. then_scan (scan_sign (\<lambda>c. c = 43 \<or> c = 45) r) scan_digits))"

definition scan_word :: "nat list \<Rightarrow> token \<Rightarrow> nat list \<Rightarrow> (token \<times> nat list) option" where
  "scan_word w t s = (if take (length w) s = w then Some (t, drop (length w) s) else None)"

definition punctuation :: "nat \<rightharpoonup> token" where
  "punctuation = [123 \<mapsto> OpenBrace, 125 \<mapsto> CloseBrace, 91 \<mapsto> OpenBracket, 93 \<mapsto> CloseBracket, 58 \<mapsto> Colon, 44 \<mapsto> Comma]"

definition next_token :: "nat list \<Rightarrow> (token \<times> nat list) option" where
  "next_token s =
     (case dropWhile json_space s of
        [] \<Rightarrow> None
      | c # cs \<Rightarrow>
          (case punctuation c of
             Some t \<Rightarrow> Some (t, cs)
           | None \<Rightarrow>
               if c = 34 then map_option (\<lambda>(x, r). (StringLit x, r)) (scan_string cs)
               else if c = 116 then scan_word [114, 117, 101] TrueLit cs
               else if c = 102 then scan_word [97, 108, 115, 101] FalseLit cs
               else if c = 110 then scan_word [117, 108, 108] NullLit cs
               else map_option (\<lambda>(x, r). (NumberLit x, r)) (scan_number (c # cs))))"

section \<open>Values\<close>

datatype json =
  Jnull | Jbool bool | Jnum "nat list" | Jstr "nat list" | Jarr "json list" | Jobj "(nat list \<times> json) list"

text \<open>
  The parser is a stack of open arrays and objects and what it expects next. \<open>InObject\<close> holds the key
  whose value is awaited.
\<close>

datatype frame = InArray "json list" | InObject "(nat list \<times> json) list" "nat list"

datatype expects = AValue | AValueOrEnd | AKey | AKeyOrEnd | AColon | ACommaOrEnd

datatype outcome = Bad | Finished json | Goes "frame list" expects

definition value_done :: "json \<Rightarrow> frame list \<Rightarrow> outcome" where
  "value_done v fs =
     (case fs of
        [] \<Rightarrow> Finished v
      | InArray vs # gs \<Rightarrow> Goes (InArray (vs @ [v]) # gs) ACommaOrEnd
      | InObject ms k # gs \<Rightarrow> Goes (InObject (ms @ [(k, v)]) k # gs) ACommaOrEnd)"

definition open_frame :: "nat \<Rightarrow> frame \<Rightarrow> expects \<Rightarrow> frame list \<Rightarrow> outcome" where
  "open_frame limit f e fs = (if length fs < limit then Goes (f # fs) e else Bad)"

definition begin_value :: "nat \<Rightarrow> frame list \<Rightarrow> token \<Rightarrow> outcome" where
  "begin_value limit fs t =
     (case t of
        StringLit x \<Rightarrow> value_done (Jstr x) fs
      | NumberLit x \<Rightarrow> value_done (Jnum x) fs
      | TrueLit \<Rightarrow> value_done (Jbool True) fs
      | FalseLit \<Rightarrow> value_done (Jbool False) fs
      | NullLit \<Rightarrow> value_done Jnull fs
      | OpenBracket \<Rightarrow> open_frame limit (InArray []) AValueOrEnd fs
      | OpenBrace \<Rightarrow> open_frame limit (InObject [] []) AKeyOrEnd fs
      | _ \<Rightarrow> Bad)"

definition json_step :: "nat \<Rightarrow> frame list \<Rightarrow> expects \<Rightarrow> token \<Rightarrow> outcome" where
  "json_step limit fs e t =
     (case (e, fs, t) of
        (AValue, _, _) \<Rightarrow> begin_value limit fs t
      | (AValueOrEnd, InArray vs # gs, CloseBracket) \<Rightarrow> value_done (Jarr vs) gs
      | (AValueOrEnd, _, _) \<Rightarrow> begin_value limit fs t
      | (AKey, InObject ms _ # gs, StringLit k) \<Rightarrow> Goes (InObject ms k # gs) AColon
      | (AKeyOrEnd, InObject ms _ # gs, StringLit k) \<Rightarrow> Goes (InObject ms k # gs) AColon
      | (AKeyOrEnd, InObject ms _ # gs, CloseBrace) \<Rightarrow> value_done (Jobj ms) gs
      | (AColon, _, Colon) \<Rightarrow> Goes fs AValue
      | (ACommaOrEnd, InArray vs # gs, Comma) \<Rightarrow> Goes fs AValue
      | (ACommaOrEnd, InArray vs # gs, CloseBracket) \<Rightarrow> value_done (Jarr vs) gs
      | (ACommaOrEnd, InObject ms k # gs, Comma) \<Rightarrow> Goes fs AKey
      | (ACommaOrEnd, InObject ms k # gs, CloseBrace) \<Rightarrow> value_done (Jobj ms) gs
      | _ \<Rightarrow> Bad)"

section \<open>Reading consumes the text\<close>

lemma scan_string_shorter: "scan_string s = Some (x, r) \<Longrightarrow> length r < length s"
proof (induction s arbitrary: x r rule: scan_string.induct)
  case (2 c cs)
  show ?case
  proof (cases "c = 92 \<and> 32 \<le> c")
    case True
    then obtain e ds where cs: "cs = e # ds"
      using 2(4) by (cases cs) simp_all
    show ?thesis
    proof (cases "e = 117")
      case True
      with 2(4) cs \<open>c = 92 \<and> _\<close> have "\<exists>y. scan_string (drop 4 ds) = Some (y, r)"
        by (auto split: if_splits)
      with 2(1) [OF _ _ _ cs True] True 2(4) cs \<open>c = 92 \<and> _\<close> show ?thesis
        by (fastforce split: if_splits)
    next
      case False
      with 2(2) [OF _ _ _ cs False] 2(4) cs \<open>c = 92 \<and> _\<close> show ?thesis
        by (fastforce split: if_splits)
    qed
  next
    case False
    with 2(3,4) show ?thesis by (fastforce split: if_splits)
  qed
qed simp

lemma scan_digits_shorter: "scan_digits s = Some (x, r) \<Longrightarrow> length r < length s"
proof -
  assume s: "scan_digits s = Some (x, r)"
  then have "length s = length x + length r" "x \<noteq> []"
    using takeWhile_dropWhile_id [of digit s] by (auto simp: scan_digits_def split: if_splits simp flip: length_append)
  then show ?thesis by simp
qed

text \<open>A reader that never gives back more than it got.\<close>

definition reader :: "(nat list \<Rightarrow> (nat list \<times> nat list) option) \<Rightarrow> bool" where
  "reader f \<longleftrightarrow> (\<forall>s x r. f s = Some (x, r) \<longrightarrow> length r \<le> length s)"

lemma reader_digits: "reader scan_digits"
  using scan_digits_shorter by (auto simp: reader_def less_imp_le)

lemma reader_then: "reader f \<Longrightarrow> reader g \<Longrightarrow> reader (\<lambda>s. then_scan (f s) g)"
  by (fastforce simp: reader_def then_scan_def split: option.splits)

lemma reader_after: "reader f \<Longrightarrow> reader (scan_after mark f)"
  by (fastforce simp: reader_def scan_after_def split: list.splits if_splits)

lemma reader_sign: "reader (scan_sign sign)"
  by (fastforce simp: reader_def scan_sign_def split: list.splits if_splits)

lemma scan_int_shorter: "scan_int s = Some (x, r) \<Longrightarrow> length r < length s"
  using scan_digits_shorter [of s] by (auto simp: scan_int_def split: list.splits if_splits)

lemma scan_number_shorter:
  assumes "scan_number s = Some (x, r)"
  shows "length r < length s"
proof -
  from assms obtain y1 r1 y2 r2 y3 r3 where
    r: "scan_sign (\<lambda>c. c = 45) s = Some (y1, r1)" "scan_int r1 = Some (y2, r2)"
      "scan_after (\<lambda>c. c = 46) scan_digits r2 = Some (y3, r3)"
    and e: "\<exists>y. scan_after (\<lambda>c. c = 101 \<or> c = 69) (\<lambda>r. then_scan (scan_sign (\<lambda>c. c = 43 \<or> c = 45) r) scan_digits) r3 = Some (y, r)"
    by (auto simp: scan_number_def then_scan_def split: option.splits)
  have "length r \<le> length r3"
    using e reader_after [OF reader_then [OF reader_sign reader_digits]] by (auto simp: reader_def)
  also have "\<dots> \<le> length r2"
    using r(3) reader_after [OF reader_digits] by (auto simp: reader_def)
  also have "\<dots> < length r1"
    using r(2) by (rule scan_int_shorter)
  also have "\<dots> \<le> length s"
    using r(1) reader_sign by (auto simp: reader_def)
  finally show ?thesis .
qed

lemma next_token_shorter:
  assumes "next_token s = Some (t, r)"
  shows "length r < length s"
proof -
  obtain c cs where d: "dropWhile json_space s = c # cs"
    using assms by (auto simp: next_token_def split: list.splits)
  have "length (c # cs) \<le> length s"
    unfolding d [symmetric] by (rule length_dropWhile_le)
  moreover have "length r \<le> length cs"
    using assms scan_string_shorter [of cs] scan_number_shorter [of "c # cs"]
    by (fastforce simp: next_token_def d scan_word_def split: option.splits if_splits)
  ultimately show ?thesis by simp
qed

text \<open>
  The first value of a text and what follows it; \<open>None\<close> for a text that is no JSON or ends too early.
\<close>

function json_run :: "nat \<Rightarrow> frame list \<Rightarrow> expects \<Rightarrow> nat list \<Rightarrow> (json \<times> nat list) option" where
  "json_run limit fs e s =
     (case next_token s of
        None \<Rightarrow> None
      | Some (t, r) \<Rightarrow>
          (case json_step limit fs e t of
             Bad \<Rightarrow> None
           | Finished v \<Rightarrow> Some (v, r)
           | Goes gs e' \<Rightarrow> json_run limit gs e' r))"
  by pat_completeness auto
termination
  by (relation "measure (\<lambda>(_, _, _, s). length s)") (auto intro: next_token_shorter)

declare json_run.simps [simp del]

definition first_value :: "nat \<Rightarrow> nat list \<Rightarrow> (json \<times> nat list) option" where
  "first_value limit s = json_run limit [] AValue s"

section \<open>JavaScript: \<open>JSON.stringify\<close> and \<open>JSON.parse\<close>\<close>

definition high_surrogate :: "nat \<Rightarrow> bool" where
  "high_surrogate c \<longleftrightarrow> 0xD800 \<le> c \<and> c < 0xDC00"

definition low_surrogate :: "nat \<Rightarrow> bool" where
  "low_surrogate c \<longleftrightarrow> 0xDC00 \<le> c \<and> c < 0xE000"

definition unit_escape :: "nat \<Rightarrow> bytes" where
  "unit_escape n = backslash # CHR ''u'' # hex 4 n"

definition short_escapes :: "nat \<rightharpoonup> char" where
  "short_escapes = [8 \<mapsto> CHR ''b'', 9 \<mapsto> CHR ''t'', 10 \<mapsto> CHR ''n'', 12 \<mapsto> CHR ''f'', 13 \<mapsto> CHR ''r'',
     34 \<mapsto> CHR 0x22, 92 \<mapsto> CHR 0x5C]"

text \<open>One code unit in a literal; a lone surrogate is written as an escape, so that the text is well formed.\<close>

definition quote_unit :: "16 word \<Rightarrow> jsstr" where
  "quote_unit u =
     (case short_escapes (unat u) of
        Some l \<Rightarrow> lit [backslash, l]
      | None \<Rightarrow> if unat u < 32 then lit (unit_escape (unat u)) else [u])"

fun quote_units :: "jsstr \<Rightarrow> jsstr" where
  "quote_units [] = []"
| "quote_units (u # us) =
     (if high_surrogate (unat u) then
        (case us of
           v # vs \<Rightarrow>
             if low_surrogate (unat v) then u # v # quote_units vs else lit (unit_escape (unat u)) @ quote_units us
         | [] \<Rightarrow> lit (unit_escape (unat u)))
      else if low_surrogate (unat u) then lit (unit_escape (unat u)) @ quote_units us
      else quote_unit u @ quote_units us)"

fun js_unquote :: "nat list \<Rightarrow> jsstr" where
  "js_unquote [] = []"
| "js_unquote (c # cs) =
     (if c = 92 then
        (case cs of
           [] \<Rightarrow> []
         | e # ds \<Rightarrow>
             if e = 117 then (case hex4 ds of None \<Rightarrow> [] | Some n \<Rightarrow> word_of_nat n # js_unquote (drop 4 ds))
             else (case escape_letters e of None \<Rightarrow> [] | Some n \<Rightarrow> word_of_nat n # js_unquote ds))
      else word_of_nat c # js_unquote cs)"

text \<open>\<open>JSON.parse\<close>: one value and nothing but space around it. There is no limit to the nesting.\<close>

definition js_parse :: "jsstr \<Rightarrow> json option" where
  "js_parse s =
     (case first_value (length s) (map unat s) of
        Some (v, r) \<Rightarrow> if list_all json_space r then Some v else None
      | None \<Rightarrow> None)"

text \<open>Reading a property: the last member of that name counts.\<close>

definition json_member :: "jsstr \<Rightarrow> (nat list \<times> json) list \<Rightarrow> json option" where
  "json_member k ms = map_option snd (find (\<lambda>m. js_unquote (fst m) = k) (rev ms))"

section \<open>Go: \<open>json.Decoder\<close> and \<open>json.Encoder\<close>\<close>

definition go_chars :: "nat list \<Rightarrow> bytes" where
  "go_chars x = map char_of x"

text \<open>The surrogate that an escape at the start of the text writes, as \<open>getu4\<close> finds it.\<close>

definition next_escape :: "bytes \<Rightarrow> nat option" where
  "next_escape s =
     (case s of b # u # ds \<Rightarrow> if b = backslash \<and> u = CHR ''u'' then hex4 (map byte ds) else None | _ \<Rightarrow> None)"

definition pair_point :: "nat \<Rightarrow> nat \<Rightarrow> nat" where
  "pair_point a b = 0x10000 + (a - 0xD800) * 1024 + (b - 0xDC00)"

fun go_unquote :: "bytes \<Rightarrow> bytes" where
  "go_unquote [] = []"
| "go_unquote (c # cs) =
     (if c = backslash then
        (case cs of
           [] \<Rightarrow> []
         | e # ds \<Rightarrow>
             if e = CHR ''u'' then
               (case hex4 (map byte ds) of
                  None \<Rightarrow> []
                | Some n \<Rightarrow>
                    if high_surrogate n \<or> low_surrogate n then
                      (case next_escape (drop 4 ds) of
                         Some m \<Rightarrow>
                           if high_surrogate n \<and> low_surrogate m
                           then rune_utf8 (pair_point n m) @ go_unquote (drop 10 ds)
                           else rune_utf8 rune_error @ go_unquote (drop 4 ds)
                       | None \<Rightarrow> rune_utf8 rune_error @ go_unquote (drop 4 ds))
                    else rune_utf8 n @ go_unquote (drop 4 ds))
             else (case escape_letters (byte e) of None \<Rightarrow> [] | Some n \<Rightarrow> char_of n # go_unquote ds))
      else rune_utf8 (fst (decode_rune c cs)) @ go_unquote (after_rune c cs))"

text \<open>
  Decoding into a struct with the one field \<open>command\<close>: names are compared up to ASCII case (no letter
  of this name has another fold), a null leaves the field alone, a value of another type is an error,
  and the decoder stops after the first value of the body.
\<close>

definition ascii_upper :: "char \<Rightarrow> char" where
  "ascii_upper c = (if between 97 122 (byte c) then char_of (byte c - 32) else c)"

fun set_command :: "(nat list \<times> json) list \<Rightarrow> bytes \<Rightarrow> bytes option" where
  "set_command [] c = Some c"
| "set_command ((k, v) # ms) c =
     (if map ascii_upper (go_unquote (go_chars k)) = ''COMMAND'' then
        (case v of
           Jstr x \<Rightarrow> set_command ms (go_unquote (go_chars x))
         | Jnull \<Rightarrow> set_command ms c
         | _ \<Rightarrow> None)
      else set_command ms c)"

definition max_nesting :: nat where "max_nesting = 10000"

definition decode_command :: "bytes \<Rightarrow> bytes option" where
  "decode_command body =
     (case first_value max_nesting (map byte body) of
        Some (Jobj ms, _) \<Rightarrow> set_command ms []
      | Some (Jnull, _) \<Rightarrow> Some []
      | _ \<Rightarrow> None)"

text \<open>\<open>Encoder\<close> with its escaping of HTML: bytes that are no UTF-8 become an escape.\<close>

definition go_escape :: "char \<Rightarrow> bytes" where
  "go_escape c =
     (case short_escapes (byte c) of
        Some l \<Rightarrow> [backslash, l]
      | None \<Rightarrow> if byte c < 32 \<or> c \<in> {CHR ''<'', CHR ''>'', CHR ''&''} then unit_escape (byte c) else [c])"

definition go_quote_rune :: "char \<Rightarrow> bytes \<Rightarrow> bytes" where
  "go_quote_rune c cs =
     (if byte c < 0x80 then go_escape c
      else (let (r, w) = decode_rune c cs in
        if r = rune_error \<and> w = 1 then unit_escape rune_error
        else if r = 0x2028 \<or> r = 0x2029 then unit_escape r
        else rune_bytes c cs))"

fun go_quote :: "bytes \<Rightarrow> bytes" where
  "go_quote [] = []"
| "go_quote (c # cs) = go_quote_rune c cs @ go_quote (after_rune c cs)"

definition quoted :: "bytes \<Rightarrow> bytes" where
  "quoted s = CHR 0x22 # s @ [CHR 0x22]"

section \<open>Literals\<close>

text \<open>The contents that a literal may have; they close under appending.\<close>

inductive plain_literal :: "nat list \<Rightarrow> bool" where
  empty: "plain_literal []"
| character: "32 \<le> c \<Longrightarrow> c \<noteq> 34 \<Longrightarrow> c \<noteq> 92 \<Longrightarrow> plain_literal x \<Longrightarrow> plain_literal (c # x)"
| letter: "e \<noteq> 117 \<Longrightarrow> escape_letters e \<noteq> None \<Longrightarrow> plain_literal x \<Longrightarrow> plain_literal (92 # e # x)"
| number: "length h = 4 \<Longrightarrow> hex4 h \<noteq> None \<Longrightarrow> plain_literal x \<Longrightarrow> plain_literal (92 # 117 # h @ x)"

lemma length_4: "length h = 4 \<Longrightarrow> \<exists>a b c d. h = [a, b, c, d]"
  by (auto simp: length_Suc_conv numeral_eq_Suc)

lemma hex4_append: "length h = 4 \<Longrightarrow> hex4 (h @ x) = hex4 h"
  by (auto simp: hex4_def dest!: length_4)

lemma plain_literal_append: "plain_literal x \<Longrightarrow> plain_literal y \<Longrightarrow> plain_literal (x @ y)"
  by (induction rule: plain_literal.induct) (auto intro: plain_literal.intros)

lemma scan_literal: "plain_literal x \<Longrightarrow> scan_string (x @ 34 # r) = Some (x, r)"
  by (induction rule: plain_literal.induct) (simp_all add: hex4_append)

lemma plain_escape: "length h = 4 \<Longrightarrow> hex4 h \<noteq> None \<Longrightarrow> plain_literal (92 # 117 # h)"
  using plain_literal.number [of h "[]"] plain_literal.empty by simp

lemma plain_characters: "\<forall>c \<in> set x. 32 \<le> c \<and> c \<noteq> 34 \<and> c \<noteq> 92 \<Longrightarrow> plain_literal x"
  by (induction x) (auto intro: plain_literal.intros)

lemma hex_value_digit: "d < 16 \<Longrightarrow> hex_value (byte (hex_digit d)) = Some d"
  by (simp add: hex_digit_def hex_value_def between_def)

lemma hex_four: "hex 4 n = [hex_digit (n div 16 div 16 div 16 mod 16), hex_digit (n div 16 div 16 mod 16),
    hex_digit (n div 16 mod 16), hex_digit (n mod 16)]"
proof -
  have "4 = Suc (Suc (Suc (Suc 0)))" by simp
  then have "hex 4 n = hex (Suc (Suc (Suc (Suc 0)))) n" by (rule arg_cong)
  then show ?thesis by simp
qed

lemma hex4_hex:
  assumes "n < 0x10000"
  shows "hex4 (map byte (hex 4 n)) = Some n"
proof -
  have "n div 16 div 16 div 16 mod 16 = n div 16 div 16 div 16"
    using assms by (simp add: div_less_iff_less_mult)
  then have "((n div 16 div 16 div 16 mod 16 * 16 + n div 16 div 16 mod 16) * 16 + n div 16 mod 16) * 16 + n mod 16 = n"
    by simp
  then show ?thesis
    by (simp add: hex_four hex4_def hex_value_digit)
qed

lemma length_hex4 [simp]: "length (hex 4 n) = 4"
  by (simp add: hex_four)

lemma map_unat_lit [simp]: "map unat (lit s) = map byte s"
  by (simp add: lit_def unat_code_unit byte_def)

lemma map_byte_escape: "map byte (unit_escape n) = 92 # 117 # map byte (hex 4 n)"
  by (simp add: unit_escape_def byte_def)

lemma plain_unit_escape: "n < 0x10000 \<Longrightarrow> plain_literal (map byte (unit_escape n))"
  by (simp add: map_byte_escape plain_escape hex4_hex)

lemma short_escape_back: "short_escapes c = Some l \<Longrightarrow> escape_letters (byte l) = Some c \<and> byte l \<noteq> 117"
  by (auto simp: short_escapes_def escape_letters_def byte_def split: if_splits)

lemma short_escape_plain: "short_escapes c = Some l \<Longrightarrow> plain_literal [92, byte l]"
  using short_escape_back [of c l] by (auto intro: plain_literal.intros)

lemma short_escape_none: "short_escapes c = None \<Longrightarrow> c \<noteq> 34 \<and> c \<noteq> 92"
  by (auto simp: short_escapes_def split: if_splits)

section \<open>What JavaScript writes, Go reads\<close>

text \<open>A string of code units is taken apart as pairs, lone surrogates and ordinary units.\<close>

definition lone :: "16 word \<Rightarrow> jsstr \<Rightarrow> bool" where
  "lone u us \<longleftrightarrow> low_surrogate (unat u) \<or>
     high_surrogate (unat u) \<and> \<not> (\<exists>v vs. us = v # vs \<and> low_surrogate (unat v))"

lemma units_induct [case_names Nil pair lone ordinary]:
  assumes "P []"
    and "\<And>u v us. high_surrogate (unat u) \<Longrightarrow> low_surrogate (unat v) \<Longrightarrow> P us \<Longrightarrow> P (u # v # us)"
    and "\<And>u us. lone u us \<Longrightarrow> P us \<Longrightarrow> P (u # us)"
    and "\<And>u us. \<not> high_surrogate (unat u) \<Longrightarrow> \<not> low_surrogate (unat u) \<Longrightarrow> P us \<Longrightarrow> P (u # us)"
  shows "P s"
proof (induction s rule: length_induct)
  case (1 s)
  show ?case
  proof (cases s)
    case (Cons u us)
    consider v vs where "us = v # vs" "high_surrogate (unat u)" "low_surrogate (unat v)"
      | "lone u us" | "\<not> high_surrogate (unat u)" "\<not> low_surrogate (unat u)"
      unfolding lone_def by blast
    then show ?thesis
      by cases (use 1 Cons assms in auto)
  qed (simp add: assms(1))
qed

lemmas surrogate_defs = high_surrogate_def low_surrogate_def

lemma to_go_append_point: "map (\<lambda>b. char_of (unat b)) (utf8_point p @ bs) = rune_utf8 p @ map (\<lambda>b. char_of (unat b)) bs"
  by (simp add: rune_utf8_def)

lemma to_go_Nil [simp]: "to_go [] = []"
  by (simp add: to_go_def)

lemma to_go_pair: "high_surrogate (unat u) \<Longrightarrow> low_surrogate (unat v) \<Longrightarrow>
    to_go (u # v # us) = rune_utf8 (pair_point (unat u) (unat v)) @ to_go us"
  by (simp add: to_go_def surrogate_defs pair_point_def rune_utf8_def)

lemma to_go_lone: "lone u us \<Longrightarrow> to_go (u # us) = rune_utf8 rune_error @ to_go us"
  by (cases us) (auto simp: to_go_def surrogate_defs lone_def rune_utf8_def rune_error_def Let_def)

lemma to_go_ordinary: "\<not> high_surrogate (unat u) \<Longrightarrow> \<not> low_surrogate (unat u) \<Longrightarrow>
    to_go (u # us) = rune_utf8 (unat u) @ to_go us"
  by (auto simp: to_go_def surrogate_defs rune_utf8_def Let_def)

lemma quote_pair: "high_surrogate (unat u) \<Longrightarrow> low_surrogate (unat v) \<Longrightarrow>
    quote_units (u # v # us) = u # v # quote_units us"
  by simp

lemma quote_lone: "lone u us \<Longrightarrow> quote_units (u # us) = lit (unit_escape (unat u)) @ quote_units us"
  by (cases us) (auto simp: lone_def surrogate_defs)

lemma quote_ordinary: "\<not> high_surrogate (unat u) \<Longrightarrow> \<not> low_surrogate (unat u) \<Longrightarrow>
    quote_units (u # us) = quote_unit u @ quote_units us"
  by simp

declare quote_units.simps(2) [simp del]

lemma unit_small: "unat (u :: 16 word) < 0x10000"
  using unsigned_less [of u, where ?'a = nat] by simp

lemma to_go_ascii_append: "ascii s \<Longrightarrow> to_go (lit s @ us) = s @ to_go us"
  by (induction s) (simp_all add: lit_Cons to_go_ordinary surrogate_defs unat_code_unit rune_utf8_cases)

lemma ascii_hex_digit: "d < 16 \<Longrightarrow> byte (hex_digit d) < 128"
  by (simp add: hex_digit_def)

lemma ascii_escape: "ascii (unit_escape n)"
  using ascii_hex_digit by (simp add: unit_escape_def hex_four byte_def)

lemma rune_utf8_start:
  assumes p: "scalar p" "rune_utf8 p = c # cs"
  shows "p < 0x80 \<and> c = char_of p \<and> cs = [] \<or> 0x80 \<le> p \<and> 0xC0 \<le> byte c"
proof -
  consider "p < 0x80" | "0x80 \<le> p" "p < 0x800" | "0x800 \<le> p" "p < 0x10000" | "0x10000 \<le> p" "p < 0x110000"
    using p(1) unfolding scalar_def by linarith
  then show ?thesis
  proof cases
    case 1
    with p(2) show ?thesis by (simp add: rune_utf8_cases)
  next
    case 2
    then have "0xC0 + p div 64 < 256"
      by (simp add: div_less_iff_less_mult less_diff_conv)
    with 2 p(2) show ?thesis by (auto simp: rune_utf8_cases)
  next
    case 3
    then have "0xE0 + p div 4096 < 256"
      by (simp add: div_less_iff_less_mult less_diff_conv)
    with 3 p(2) show ?thesis by (auto simp: rune_utf8_cases)
  next
    case 4
    then have "0xF0 + p div 262144 < 256"
      by (simp add: div_less_iff_less_mult less_diff_conv)
    with 4 p(2) show ?thesis by (auto simp: rune_utf8_cases)
  qed
qed

lemma rune_utf8_high: "scalar p \<Longrightarrow> 0x80 \<le> p \<Longrightarrow> b \<in> set (rune_utf8 p) \<Longrightarrow> 0x80 \<le> byte b"
proof -
  assume p: "scalar p" "0x80 \<le> p" "b \<in> set (rune_utf8 p)"
  obtain c cs where c: "rune_utf8 p = c # cs"
    using rune_utf8_nonempty by (cases "rune_utf8 p") auto
  have d: "decode_rune c cs = (p, Suc (length cs))"
    using decode_rune_point [OF p(1) c, of "[]"] by simp
  have "0x80 \<le> byte c"
    using rune_utf8_start [OF p(1) c] p(2) by auto
  from decode_wide [OF this, of cs] p(3) show ?thesis
    by (auto simp: rune_bytes_def d c)
qed

lemma plain_rune:
  assumes "scalar p" "32 \<le> p" "p \<noteq> 34" "p \<noteq> 92"
  shows "plain_literal (map byte (rune_utf8 p))"
proof (cases "p < 0x80")
  case True
  with assms show ?thesis by (simp add: rune_utf8_cases plain_characters)
next
  case False
  have "32 \<le> byte b \<and> byte b \<noteq> 34 \<and> byte b \<noteq> 92" if "b \<in> set (rune_utf8 p)" for b
    using rune_utf8_high [OF assms(1) _ that] False by simp
  then show ?thesis by (simp add: plain_characters)
qed

lemma not_backslash: "byte c \<noteq> 92 \<Longrightarrow> c \<noteq> backslash"
  by (auto simp: byte_def)

lemma go_unquote_point:
  assumes "scalar p" "p \<noteq> 92"
  shows "go_unquote (rune_utf8 p @ r) = rune_utf8 p @ go_unquote r"
proof -
  obtain c cs where c: "rune_utf8 p = c # cs"
    using rune_utf8_nonempty by (cases "rune_utf8 p") auto
  have "byte c \<noteq> 92"
    using rune_utf8_start [OF assms(1) c] assms(2) by auto
  then show ?thesis
    using decode_rune_point [OF assms(1) c, of r] not_backslash by (simp add: c after_rune_def)
qed

lemma go_unquote_letter:
  assumes "short_escapes n = Some l"
  shows "go_unquote (backslash # l # r) = char_of n # go_unquote r"
proof -
  have "escape_letters (byte l) = Some n" "l \<noteq> CHR ''u''"
    using short_escape_back [OF assms] by (auto simp: byte_def)
  then show ?thesis by simp
qed

lemma hex4_escape: "n < 0x10000 \<Longrightarrow> hex4 (map byte (hex 4 n @ r)) = Some n"
  using hex4_hex [of n] hex4_append [of "map byte (hex 4 n)" "map byte r"] by simp

lemma next_escape_escape: "n < 0x10000 \<Longrightarrow> next_escape (unit_escape n @ r) = Some n"
  using hex4_escape [of n r] by (simp add: next_escape_def unit_escape_def)

lemma go_unquote_escape:
  "n < 0x10000 \<Longrightarrow> \<not> high_surrogate n \<Longrightarrow> \<not> low_surrogate n \<Longrightarrow>
   go_unquote (unit_escape n @ r) = rune_utf8 n @ go_unquote r"
  using hex4_escape [of n r] by (simp add: unit_escape_def)

lemma go_unquote_lone:
  "n < 0x10000 \<Longrightarrow> high_surrogate n \<or> low_surrogate n \<Longrightarrow>
   \<not> (high_surrogate n \<and> (\<exists>m. next_escape r = Some m \<and> low_surrogate m)) \<Longrightarrow>
   go_unquote (unit_escape n @ r) = rune_utf8 rune_error @ go_unquote r"
  using hex4_escape [of n r] by (auto simp: unit_escape_def split: option.split)

lemma next_escape_rune:
  assumes "scalar p" "p \<noteq> 92"
  shows "next_escape (rune_utf8 p @ r) = None"
proof -
  obtain c cs where c: "rune_utf8 p = c # cs"
    using rune_utf8_nonempty by (cases "rune_utf8 p") auto
  have "byte c \<noteq> 92"
    using rune_utf8_start [OF assms(1) c] assms(2) by auto
  then have "c \<noteq> backslash"
    by (rule not_backslash)
  then show ?thesis by (simp add: c next_escape_def split: list.split)
qed

lemma scalar_pair: "high_surrogate a \<Longrightarrow> low_surrogate b \<Longrightarrow> scalar (pair_point a b) \<and> 0x10000 \<le> pair_point a b"
  by (auto simp: surrogate_defs pair_point_def scalar_def)

lemma scalar_ordinary: "\<not> high_surrogate (unat u) \<Longrightarrow> \<not> low_surrogate (unat (u :: 16 word)) \<Longrightarrow> scalar (unat u)"
  using unit_small [of u] by (auto simp: surrogate_defs scalar_def)

lemma quote_unit_cases:
  obtains (short) l where "short_escapes (unat u) = Some l" "quote_unit u = lit [backslash, l]"
  | (control) "unat u < 32" "quote_unit u = lit (unit_escape (unat u))"
  | (plain) "32 \<le> unat u" "unat u \<noteq> 34" "unat u \<noteq> 92" "quote_unit u = [u]"
  using short_escape_none [of "unat u"]
  by (cases "short_escapes (unat u)"; cases "unat u < 32") (simp_all add: quote_unit_def not_less)

lemma ascii_short: "short_escapes n = Some l \<Longrightarrow> ascii [backslash, l]"
  by (auto simp: short_escapes_def split: if_splits)

lemma next_escape_quoted:
  assumes "\<not> (\<exists>v vs. us = v # vs \<and> low_surrogate (unat v))" "next_escape (to_go (quote_units us)) = Some m"
  shows "\<not> low_surrogate m"
proof (cases us)
  case Nil
  with assms(2) show ?thesis by (simp add: next_escape_def)
next
  case (Cons v vs)
  consider w ws where "vs = w # ws" "high_surrogate (unat v)" "low_surrogate (unat w)"
    | "lone v vs" | "\<not> high_surrogate (unat v)" "\<not> low_surrogate (unat v)"
    unfolding lone_def by blast
  then show ?thesis
  proof cases
    case (1 w ws)
    with assms(2) Cons scalar_pair [OF 1(2,3)] show ?thesis
      by (simp add: quote_pair to_go_pair next_escape_rune)
  next
    case 2
    with assms Cons unit_small [of v] show ?thesis
      by (simp add: quote_lone to_go_ascii_append ascii_escape next_escape_escape)
  next
    case 3
    show ?thesis
    proof (cases v rule: quote_unit_cases)
      case (short l)
      then have "l \<noteq> CHR ''u''"
        using short_escape_back [of "unat v" l] by (auto simp: byte_def)
      with short assms(2) Cons 3 ascii_short [OF short(1)] show ?thesis
        by (simp add: quote_ordinary to_go_ascii_append next_escape_def del: ascii_simps)
    next
      case control
      with assms(2) Cons 3 show ?thesis
        by (simp add: quote_ordinary to_go_ascii_append ascii_escape next_escape_escape surrogate_defs)
    next
      case plain
      with assms(2) Cons 3 scalar_ordinary [OF 3] show ?thesis
        by (simp add: quote_ordinary to_go_ordinary next_escape_rune)
    qed
  qed
qed

lemma quote_units_Nil: "quote_units [] = []"
  by simp

lemma quote_unit_crosses:
  assumes "\<not> high_surrogate (unat u)" "\<not> low_surrogate (unat u)"
  shows "go_unquote (to_go (quote_unit u @ us)) = rune_utf8 (unat u) @ go_unquote (to_go us)"
    and "plain_literal (map byte (to_go us)) \<Longrightarrow> plain_literal (map byte (to_go (quote_unit u @ us)))"
proof -
  have s: "scalar (unat u)" by (rule scalar_ordinary [OF assms])
  have "go_unquote (to_go (quote_unit u @ us)) = rune_utf8 (unat u) @ go_unquote (to_go us) \<and>
    (plain_literal (map byte (to_go us)) \<longrightarrow> plain_literal (map byte (to_go (quote_unit u @ us))))"
  proof (cases u rule: quote_unit_cases)
    case (short l)
    have "unat u < 128"
      using short(1) by (auto simp: short_escapes_def split: if_splits)
    then have "go_unquote (to_go (quote_unit u @ us)) = rune_utf8 (unat u) @ go_unquote (to_go us)"
      using ascii_short [OF short(1)] go_unquote_letter [OF short(1)]
      by (simp add: short(2) to_go_ascii_append rune_utf8_cases del: ascii_simps go_unquote.simps)
    moreover have "map byte [backslash, l] = [92, byte l]"
      by (simp add: byte_def)
    ultimately show ?thesis
      using ascii_short [OF short(1)] plain_literal_append [OF short_escape_plain [OF short(1)]]
      by (simp add: short(2) to_go_ascii_append del: ascii_simps go_unquote.simps)
  next
    case control
    then show ?thesis
      using assms plain_literal_append [OF plain_unit_escape [OF unit_small, of u]]
      by (simp add: to_go_ascii_append ascii_escape go_unquote_escape unit_small)
  next
    case plain
    then show ?thesis
      using s assms plain_literal_append [OF plain_rune [OF s]] by (simp add: to_go_ordinary go_unquote_point)
  qed
  then show "go_unquote (to_go (quote_unit u @ us)) = rune_utf8 (unat u) @ go_unquote (to_go us)"
    and "plain_literal (map byte (to_go us)) \<Longrightarrow> plain_literal (map byte (to_go (quote_unit u @ us)))"
    by blast+
qed

lemma quoted_units_cross: "go_unquote (to_go (quote_units s)) = to_go s"
proof (induction s rule: units_induct)
  case (pair u v us)
  then show ?case
    using scalar_pair [OF pair(1,2)] by (simp add: quote_pair to_go_pair go_unquote_point)
next
  case (lone u us)
  have "\<not> (high_surrogate (unat u) \<and> (\<exists>m. next_escape (to_go (quote_units us)) = Some m \<and> low_surrogate m))"
    using lone(1) next_escape_quoted [of us] by (auto simp: lone_def surrogate_defs)
  moreover have "high_surrogate (unat u) \<or> low_surrogate (unat u)"
    using lone(1) by (auto simp: lone_def)
  ultimately show ?case
    using lone by (simp add: quote_lone to_go_ascii_append ascii_escape to_go_lone go_unquote_lone [OF unit_small])
next
  case (ordinary u us)
  then show ?case
    by (simp add: quote_ordinary quote_unit_crosses(1) to_go_ordinary)
qed simp

lemma quoted_units_plain: "plain_literal (map byte (to_go (quote_units s)))"
proof (induction s rule: units_induct)
  case (pair u v us)
  then show ?case
    using scalar_pair [OF pair(1,2)] plain_rune plain_literal_append by (simp add: quote_pair to_go_pair)
next
  case (lone u us)
  then show ?case
    using plain_literal_append [OF plain_unit_escape [OF unit_small, of u]]
    by (simp add: quote_lone to_go_ascii_append ascii_escape)
next
  case (ordinary u us)
  then show ?case
    by (simp add: quote_ordinary quote_unit_crosses(2))
qed (simp add: plain_literal.empty)

section \<open>What Go writes, JavaScript reads\<close>

text \<open>The bytes of a text as the browser gets them.\<close>

definition wire_bytes :: "bytes \<Rightarrow> 8 word list" where
  "wire_bytes bs = map (\<lambda>c. word_of_nat (of_char c)) bs"

lemma wire_bytes_append [simp]: "wire_bytes (a @ b) = wire_bytes a @ wire_bytes b"
  by (simp add: wire_bytes_def)

lemma wire_rune: "wire_bytes (rune_utf8 p) = utf8_point p"
proof -
  have "unat b mod 256 = unat b" for b :: "8 word"
    using unsigned_less [of b, where ?'a = nat] by simp
  then show ?thesis
    by (simp add: wire_bytes_def rune_utf8_def comp_def)
qed

lemma decode_ascii_append: "ascii s \<Longrightarrow> decode_from decoder.Idle (wire_bytes s @ bs) = lit s @ decode_from decoder.Idle bs"
proof (induction s)
  case (Cons c s)
  then have "decode_from decoder.Idle (utf8_point (of_char c) @ wire_bytes s @ bs) = code_unit c # lit s @ decode_from decoder.Idle bs"
    by (simp add: decode_point scalar_def point_units_def code_unit_def)
  with Cons show ?case
    by (simp add: wire_bytes_def utf8_point_def byte_of_def lit_Cons)
qed (simp add: wire_bytes_def)

lemma js_unquote_letter:
  assumes "short_escapes n = Some l"
  shows "js_unquote (map byte [backslash, l] @ r) = word_of_nat n # js_unquote r"
  using short_escape_back [OF assms] by (simp add: byte_def)

lemma js_unquote_escape: "n < 0x10000 \<Longrightarrow> js_unquote (map byte (unit_escape n) @ r) = word_of_nat n # js_unquote r"
  using hex4_hex [of n] hex4_append [of "map byte (hex 4 n)" r] by (simp add: map_byte_escape)

lemma js_unquote_units: "\<forall>u \<in> set us. unat u \<noteq> 92 \<Longrightarrow> js_unquote (map unat us @ r) = us @ js_unquote r"
  by (induction us) simp_all

lemma go_escape_cases:
  obtains (short) l where "short_escapes (byte c) = Some l" "go_escape c = [backslash, l]"
  | (number) "go_escape c = unit_escape (byte c)"
  | (plain) "32 \<le> byte c" "byte c \<noteq> 34" "byte c \<noteq> 92" "go_escape c = [c]"
  using short_escape_none [of "byte c"]
  by (cases "short_escapes (byte c)"; cases "byte c < 32 \<or> c \<in> {CHR ''<'', CHR ''>'', CHR ''&''}")
    (simp_all add: go_escape_def not_less)

lemma point_units_plain: "scalar r \<Longrightarrow> 0x80 \<le> r \<Longrightarrow> u \<in> set (point_units r) \<Longrightarrow> 0x80 \<le> unat u"
proof -
  assume r: "scalar r" "0x80 \<le> r" "u \<in> set (point_units r)"
  then have "r - 0x10000 < 1048576"
    unfolding scalar_def by linarith
  then have "(r - 0x10000) div 1024 < 1024" "(r - 0x10000) mod 1024 < 1024"
    by (simp_all add: div_less_iff_less_mult)
  moreover have "unat (word_of_nat n :: 16 word) = n" if "n < 0x10000" for n
    using that by (simp add: unsigned_of_nat take_bit_nat_eq_self)
  ultimately show ?thesis
    using r by (auto simp: point_units_def simp del: of_nat_add split: if_splits)
qed

text \<open>One rune: what the page reads of it, in a literal and then as text.\<close>

lemma go_rune_crosses:
  obtains us where "\<And>r. decode_from decoder.Idle (wire_bytes (go_quote_rune c cs) @ r) = us @ decode_from decoder.Idle r"
    "\<And>x. js_unquote (map unat us @ x) = point_units (fst (decode_rune c cs)) @ js_unquote x"
    "plain_literal (map unat us)"
proof (cases "byte c < 0x80")
  case True
  then have p: "decode_rune c cs = (byte c, 1)" "point_units (byte c) = [word_of_nat (byte c)]"
    "go_quote_rune c cs = go_escape c"
    by (simp_all add: decode_ascii point_units_def go_quote_rune_def)
  show ?thesis
  proof (cases c rule: go_escape_cases)
    case (short l)
    have "map byte [backslash, l] = [92, byte l]"
      by (simp add: byte_def)
    with short p ascii_short [OF short(1)] js_unquote_letter [OF short(1)] short_escape_plain [OF short(1)] show ?thesis
      by (intro that [of "lit [backslash, l]"]) (simp_all add: decode_ascii_append del: ascii_simps js_unquote.simps)
  next
    case number
    have "byte c < 0x10000" using True by simp
    with number p show ?thesis
      by (intro that [of "lit (unit_escape (byte c))"])
        (simp_all add: decode_ascii_append ascii_escape js_unquote_escape plain_unit_escape)
  next
    case plain
    have "word_of_nat (byte c) = code_unit c" "map unat (lit [c]) = [byte c]"
      by (simp_all add: code_unit_def byte_def)
    with plain True p show ?thesis
      by (intro that [of "lit [c]"]) (simp_all add: decode_ascii_append byte_def lit_Cons plain_characters)
  qed
next
  case False
  obtain r w where d: "decode_rune c cs = (r, w)" by (cases "decode_rune c cs")
  show ?thesis
  proof (cases "r = rune_error \<and> w = 1 \<or> r = 0x2028 \<or> r = 0x2029")
    case True
    then have "go_quote_rune c cs = unit_escape r" "point_units r = [word_of_nat r]" "r < 0x10000"
      using False d by (auto simp: go_quote_rune_def point_units_def rune_error_def)
    with d show ?thesis
      by (intro that [of "lit (unit_escape r)"])
        (simp_all add: decode_ascii_append ascii_escape js_unquote_escape plain_unit_escape)
  next
    case other: False
    then have r: "scalar r" "rune_bytes c cs = rune_utf8 r" "go_quote_rune c cs = rune_utf8 r"
      using rune_of_bytes [OF d] False d by (auto simp: go_quote_rune_def)
    have "0x80 \<le> r"
      using rune_utf8_start [OF r(1) r(2) [symmetric, unfolded rune_bytes_def]] False by auto
    then have big: "u \<in> set (point_units r) \<Longrightarrow> 0x80 \<le> unat u" for u
      using point_units_plain [OF r(1)] by blast
    then have "\<forall>u \<in> set (point_units r). unat u \<noteq> 92" "plain_literal (map unat (point_units r))"
      by (force intro!: plain_characters)+
    with r d show ?thesis
      by (intro that [of "point_units r"]) (simp_all add: wire_rune decode_point js_unquote_units)
  qed
qed

lemma go_quoted_crosses:
  obtains us where "\<And>r. decode_from decoder.Idle (wire_bytes (go_quote s) @ r) = us @ decode_from decoder.Idle r"
    "js_unquote (map unat us) = go_text s" "plain_literal (map unat us)"
proof -
  have "\<exists>us. (\<forall>r. decode_from decoder.Idle (wire_bytes (go_quote s) @ r) = us @ decode_from decoder.Idle r) \<and>
    js_unquote (map unat us) = go_text s \<and> plain_literal (map unat us)"
  proof (induction s rule: go_text.induct)
    case 1
    then show ?case by (auto simp: wire_bytes_def plain_literal.empty intro!: exI [of _ "[]"])
  next
    case (2 c cs)
    then obtain vs where vs: "\<And>r. decode_from decoder.Idle (wire_bytes (go_quote (after_rune c cs)) @ r) = vs @ decode_from decoder.Idle r"
      "js_unquote (map unat vs) = go_text (after_rune c cs)" "plain_literal (map unat vs)"
      by blast
    obtain us where us: "\<And>r. decode_from decoder.Idle (wire_bytes (go_quote_rune c cs) @ r) = us @ decode_from decoder.Idle r"
      "\<And>x. js_unquote (map unat us @ x) = point_units (fst (decode_rune c cs)) @ js_unquote x"
      "plain_literal (map unat us)"
      using go_rune_crosses [of c cs] by blast
    show ?case
      using us vs plain_literal_append by (intro exI [of _ "us @ vs"]) simp
  qed
  with that show thesis by blast
qed

end
