(* ===== verification/WasmBridge.thy ===== *)
theory WasmBridge
  imports Server
begin

text \<open>
  The bridge that lets the demo page drive the real packages (docs/wasm/main.go): one store, the
  list of key names the page may ask about, and \<open>eval\<close>, which answers one line with everything
  the page draws.
\<close>

section \<open>State and operations\<close>

record bridge =
  br_store :: memory_store
  seen :: "bytes list"

definition first_bridge :: bridge where
  "first_bridge = \<lparr>br_store = new_memory_store, seen = []\<rparr>"

definition seen_cap :: nat where
  "seen_cap = 64"

definition remember :: "bytes \<Rightarrow> bridge \<Rightarrow> bridge" where
  "remember key b =
     (if key \<in> set (seen b) then b
      else if seen_cap \<le> length (seen b) then b
      else b\<lparr>seen := seen b @ [key]\<rparr>)"

text \<open>Its own copy of the server's dispatch.\<close>

definition bridge_execute :: "command \<Rightarrow> memory_store \<Rightarrow> bytes \<times> memory_store" where
  "bridge_execute cmd s =
     (case cmd_op cmd of
        OpGet \<Rightarrow> (case mem_get (cmd_key cmd) s of
            (v, ok) \<Rightarrow> (if \<not> ok then reply_nil else reply_value v, s))
      | OpSet \<Rightarrow> (reply_ok, mem_set (cmd_key cmd) (cmd_value cmd) s)
      | OpDel \<Rightarrow> (case mem_delete (cmd_key cmd) s of
            (found, s') \<Rightarrow> (if found then reply_int 1 else reply_int 0, s')))"

definition rows :: "bridge \<Rightarrow> (bytes \<times> bytes) list" where
  "rows b = concat (map (\<lambda>k. case mem_get k (br_store b) of (v, ok) \<Rightarrow> if ok then [(k, v)] else []) (seen b))"

record evaluation =
  ev_line :: bytes
  ev_touched :: bytes
  ev_verb :: bytes
  ev_reply :: bytes
  ev_ok :: bool
  ev_rows :: "(bytes \<times> bytes) list"

definition eval_line :: "(nat \<Rightarrow> bool) \<Rightarrow> bytes \<Rightarrow> bridge \<Rightarrow> evaluation \<times> bridge" where
  "eval_line printable line b =
     (case parse line of
        Inl e \<Rightarrow>
          (\<lparr>ev_line = line, ev_touched = [], ev_verb = [], ev_reply = reply_error (error_text printable e),
            ev_ok = False, ev_rows = rows b\<rparr>, b)
      | Inr cmd \<Rightarrow>
          (let b1 = (case cmd_op cmd of OpSet \<Rightarrow> remember (cmd_key cmd) b | _ \<Rightarrow> b);
               (reply, s) = bridge_execute cmd (br_store b1);
               b2 = b1\<lparr>br_store := s\<rparr>
           in (\<lparr>ev_line = line, ev_touched = cmd_key cmd, ev_verb = verb_of (cmd_op cmd), ev_reply = reply,
                ev_ok = True, ev_rows = rows b2\<rparr>, b2)))"

definition after_lines :: "(nat \<Rightarrow> bool) \<Rightarrow> bytes list \<Rightarrow> bridge" where
  "after_lines printable ls = foldl (\<lambda>b l. snd (eval_line printable l b)) first_bridge ls"

section \<open>Lemmas\<close>

lemma bridge_execute_server: "bridge_execute = execute memory_ops"
  by (intro ext) (auto simp: bridge_execute_def execute_def memory_ops_def split: op.split)

lemma br_store_remember [simp]: "br_store (remember k b) = br_store b"
  by (simp add: remember_def)

lemma eval_line_answer:
  "ev_reply (fst (eval_line p l b)) = fst (answer p memory_ops l (br_store b)) \<and>
   br_store (snd (eval_line p l b)) = snd (answer p memory_ops l (br_store b))"
  by (auto simp: eval_line_def answer_def bridge_execute_server case_prod_beta Let_def split: sum.split op.split)

lemma eval_line_rows: "ev_rows (fst (eval_line p l b)) = rows (snd (eval_line p l b))"
  by (auto simp: eval_line_def case_prod_beta Let_def split: sum.split)

lemma set_rows: "set (rows b) = {(k, v). k \<in> set (seen b) \<and> data (br_store b) k = Some v}"
proof -
  have "set (case mem_get k s of (v, ok) \<Rightarrow> if ok then [(k, v)] else []) = {(k, v). data s k = Some v} \<inter> {k} \<times> UNIV" for k s
    by (cases "data s k") (auto simp: mem_get_def)
  then show ?thesis by (auto simp: rows_def)
qed

lemma map_fst_rows: "map fst (rows b) = filter (\<lambda>k. k \<in> dom (data (br_store b))) (seen b)"
proof -
  have "map fst (concat (map (\<lambda>k. case mem_get k s of (v, ok) \<Rightarrow> if ok then [(k, v)] else []) ks))
      = filter (\<lambda>k. k \<in> dom (data s)) ks" for s ks
    by (induction ks) (auto simp: mem_get_def split: option.split)
  then show ?thesis by (simp add: rows_def)
qed

definition bridge_ok :: "bridge \<Rightarrow> bool" where
  "bridge_ok b \<longleftrightarrow> distinct (seen b) \<and> length (seen b) \<le> seen_cap \<and>
     (length (seen b) < seen_cap \<longrightarrow> dom (data (br_store b)) \<subseteq> set (seen b))"

lemma execute_dom:
  "dom (data (snd (execute memory_ops c s))) \<subseteq>
     (if cmd_op c = OpSet then insert (cmd_key c) (dom (data s)) else dom (data s))"
  by (cases "cmd_op c") (auto simp: execute_def memory_ops_def mem_get_def mem_set_def mem_delete_def Let_def
      split: option.splits if_splits)

lemma bridge_ok_eval:
  assumes "bridge_ok b"
  shows "bridge_ok (snd (eval_line p l b))"
proof (cases "parse l")
  case (Inl e)
  with assms show ?thesis by (simp add: eval_line_def)
next
  case (Inr c)
  let ?s = "snd (execute memory_ops c (br_store b))"
  have e: "snd (eval_line p l b) =
      (if cmd_op c = OpSet then remember (cmd_key c) b else b)\<lparr>br_store := ?s\<rparr>"
    by (cases "cmd_op c") (auto simp: eval_line_def Inr bridge_execute_server case_prod_beta Let_def)
  show ?thesis
  proof (cases "cmd_op c = OpSet")
    case True
    with e execute_dom [of c "br_store b"] assms show ?thesis
      by (auto simp: bridge_ok_def remember_def)
  next
    case False
    with e execute_dom [of c "br_store b"] assms show ?thesis
      by (auto simp: bridge_ok_def)
  qed
qed

interpretation brg: machine "\<lambda>b l. snd (eval_line p l b)" bridge_ok for p
  by unfold_locales (rule bridge_ok_eval)

lemma bridge_ok_after: "bridge_ok (after_lines p ls)"
  unfolding after_lines_def
  by (rule brg.runs_inv) (simp add: bridge_ok_def first_bridge_def new_memory_store_def seen_cap_def)

text \<open>A full list of remembered keys stays as it is.\<close>

lemma seen_full:
  assumes "length (seen b) = seen_cap"
  shows "seen (foldl (\<lambda>b l. snd (eval_line p l b)) b ls) = seen b"
  using assms
proof (induction ls arbitrary: b)
  case (Cons l ls)
  have "seen (snd (eval_line p l b)) = seen b"
    using Cons.prems by (auto simp: eval_line_def remember_def Let_def split: sum.split op.split prod.split)
  with Cons show ?case by simp
qed simp

section \<open>Properties\<close>

text \<open>
  The page runs the server's own behaviour although the dispatch is a copy: for every
  line and every state the reply and the store after it are those of the TCP server's loop, and the
  rows sent with it are those of the store after the line, each key once with the value the map holds.
\<close>

theorem page_reply_is_server_reply:
  "ev_reply (fst (eval_line p l b)) = fst (answer p memory_ops l (br_store b)) \<and>
   br_store (snd (eval_line p l b)) = snd (answer p memory_ops l (br_store b)) \<and>
   set (ev_rows (fst (eval_line p l b))) =
     {(k, v). k \<in> set (seen (snd (eval_line p l b))) \<and> data (br_store (snd (eval_line p l b))) k = Some v}"
  using eval_line_answer [of p l b] by (simp add: eval_line_rows set_rows)

text \<open>
  C25: how far the drawer can be trusted: after any lines the rows list no key twice and no
  key or value the map does not hold; while fewer than 64 names have been remembered they are the
  whole map; once 64 have been, a key that is new is stored by SET but never listed, whatever lines
  follow, even if they delete every remembered key.
\<close>

theorem rows_complete_below_the_cap:
  "let b = after_lines p ls in
   distinct (map fst (rows b)) \<and>
   (\<forall>(k, v) \<in> set (rows b). data (br_store b) k = Some v) \<and>
   (length (seen b) < seen_cap \<longrightarrow> set (rows b) = {(k, v). data (br_store b) k = Some v}) \<and>
   (\<forall>l c. length (seen b) = seen_cap \<longrightarrow> parse l = Inr c \<longrightarrow> cmd_op c = OpSet \<longrightarrow>
      cmd_key c \<notin> set (seen b) \<longrightarrow>
      data (br_store (snd (eval_line p l b))) (cmd_key c) = Some (cmd_value c) \<and>
      cmd_key c \<notin> fst ` set (rows (snd (eval_line p l b)))) \<and>
   (\<forall>ms. length (seen b) = seen_cap \<longrightarrow> fst ` set (rows (after_lines p (ls @ ms))) \<subseteq> set (seen b))"
proof -
  define b where "b = after_lines p ls"
  have ok: "bridge_ok b"
    by (simp add: b_def bridge_ok_after)
  then have "distinct (map fst (rows b))"
    by (simp add: map_fst_rows bridge_ok_def)
  moreover have "\<forall>(k, v) \<in> set (rows b). data (br_store b) k = Some v"
    by (auto simp: set_rows)
  moreover have "set (rows b) = {(k, v). data (br_store b) k = Some v}" if "length (seen b) < seen_cap"
    using ok that by (auto simp: set_rows bridge_ok_def)
  moreover have "data (br_store (snd (eval_line p l b))) (cmd_key c) = Some (cmd_value c) \<and>
      cmd_key c \<notin> fst ` set (rows (snd (eval_line p l b)))"
    if "length (seen b) = seen_cap" "parse l = Inr c" "cmd_op c = OpSet" "cmd_key c \<notin> set (seen b)" for l c
    using that by (auto simp: eval_line_def bridge_execute_def remember_def mem_set_def set_rows Let_def)
  moreover have "fst ` set (rows (after_lines p (ls @ ms))) \<subseteq> set (seen b)" if "length (seen b) = seen_cap" for ms
    using seen_full [OF that, of p ms] by (auto simp: set_rows after_lines_def b_def)
  ultimately show ?thesis
    unfolding Let_def b_def [symmetric] by blast
qed

text \<open>A line for each of many keys, which fill the list.\<close>

definition many_key :: "nat \<Rightarrow> bytes" where
  "many_key i = replicate (Suc i) (CHR ''k'')"

definition many_line :: "nat \<Rightarrow> bytes" where
  "many_line i = command_line \<lparr>cmd_op = OpSet, cmd_key = many_key i, cmd_value = ''v''\<rparr>"

lemma many_parses: "parse (many_line i) = Inr \<lparr>cmd_op = OpSet, cmd_key = many_key i, cmd_value = ''v''\<rparr>"
  using parse_command_line [of "\<lparr>cmd_op = OpSet, cmd_key = many_key i, cmd_value = ''v''\<rparr>" "[]"]
  by (simp add: many_line_def well_formed_def many_key_def arguments_def eol_free_def)

lemma many_inject: "many_key i = many_key j \<longleftrightarrow> i = j"
  by (simp add: many_key_def)

lemma many_seen: "n \<le> seen_cap \<Longrightarrow> seen (after_lines p (map many_line [0..<n])) = map many_key [0..<n]"
proof (induction n)
  case (Suc n)
  then show ?case
    by (auto simp: after_lines_def eval_line_def many_parses remember_def bridge_execute_def many_inject Let_def)
qed (simp add: after_lines_def first_bridge_def)

theorem rows_complete_below_the_cap_witness:
  "let b = after_lines (\<lambda>_. True) (map many_line [0..<64]) in
   data (br_store (snd (eval_line (\<lambda>_. True) (many_line 64) b))) (many_key 64) = Some ''v'' \<and>
   many_key 64 \<notin> fst ` set (rows (snd (eval_line (\<lambda>_. True) (many_line 64) b))) \<and>
   many_key 64 \<notin> fst ` set (rows (after_lines (\<lambda>_. True) (map many_line [0..<64] @ [many_line 64, ''DEL k''])))"
proof -
  have "seen (after_lines (\<lambda>_. True) (map many_line [0..<64])) = map many_key [0..<64]"
    by (rule many_seen) (simp add: seen_cap_def)
  then have "length (seen (after_lines (\<lambda>_. True) (map many_line [0..<64]))) = seen_cap"
    "many_key 64 \<notin> set (seen (after_lines (\<lambda>_. True) (map many_line [0..<64])))"
    by (auto simp: seen_cap_def many_inject)
  note full = this
  note cap = rows_complete_below_the_cap [of "\<lambda>_. True" "map many_line [0..<64]", unfolded Let_def]
  have "fst ` set (rows (after_lines (\<lambda>_. True) (map many_line [0..<64] @ [many_line 64, ''DEL k'']))) \<subseteq>
      set (seen (after_lines (\<lambda>_. True) (map many_line [0..<64])))"
    using cap full(1) by blast
  moreover have "data (br_store (snd (eval_line (\<lambda>_. True) (many_line 64) (after_lines (\<lambda>_. True) (map many_line [0..<64]))))) (many_key 64) = Some ''v'' \<and>
      many_key 64 \<notin> fst ` set (rows (snd (eval_line (\<lambda>_. True) (many_line 64) (after_lines (\<lambda>_. True) (map many_line [0..<64])))))"
    using cap [THEN conjunct2, THEN conjunct2, THEN conjunct2, THEN conjunct1, rule_format, OF full(1) many_parses [of 64]]
      full(2) by (simp only: command.simps simp_thms)
  ultimately show ?thesis
    using full(2) unfolding Let_def by blast
qed

end
