(* ===== verification/KvWeb.thy ===== *)
theory KvWeb
  imports Server
begin

text \<open>
  The browser console in front of the server (cmd/kvstore-web/main.go): \<open>handleCmd\<close>, which
  forwards the command of one POST over a fresh TCP connection and returns the one line that comes
  back. The JSON decoder's result, the dial and the write are inputs; \<open>peer\<close> is what the other
  side sends for the bytes it was sent, before the deadline.
\<close>

section \<open>Trimming\<close>

text \<open>\<open>strings.TrimSpace\<close>, rune by rune; a decoded JSON string is valid UTF-8.\<close>

fun trim_left :: "bytes \<Rightarrow> bytes" where
  "trim_left [] = []"
| "trim_left (c # cs) = (if is_space (fst (decode_rune c cs)) then trim_left (after_rune c cs) else c # cs)"

fun trim_tail :: "bytes \<Rightarrow> bytes" where
  "trim_tail [] = []"
| "trim_tail (c # cs) =
     (if blank (c # cs) then [] else rune_bytes c cs @ trim_tail (after_rune c cs))"

definition trim_space :: "bytes \<Rightarrow> bytes" where
  "trim_space s = trim_tail (trim_left s)"

section \<open>The handler\<close>

datatype http_reply = HttpError nat bytes | HttpResult bytes bytes

definition read_string :: "bytes \<Rightarrow> bytes option" where
  "read_string s = (case split_line s of (l, Some _) \<Rightarrow> Some (l @ [newline]) | (_, None) \<Rightarrow> None)"

text \<open>The HTTP reply, and the bytes written to the server.\<close>

definition handle_cmd ::
  "bytes \<Rightarrow> bool \<Rightarrow> bool \<Rightarrow> (bytes \<Rightarrow> bytes) \<Rightarrow> bytes option \<Rightarrow> http_reply \<times> bytes" where
  "handle_cmd kv_addr dials writes peer req =
     (case req of
        None \<Rightarrow> (HttpError 400 ''bad request body'', [])
      | Some command \<Rightarrow>
          (let line = trim_space command in
           if line = [] \<or> return \<in> set line \<or> newline \<in> set line
           then (HttpError 400 ''send exactly one command line'', [])
           else if \<not> dials then (HttpError 502 (''kvstore server is not reachable at '' @ kv_addr), [])
           else if \<not> writes then (HttpError 502 ''write to kvstore failed'', [])
           else (case read_string (peer (line @ [newline])) of
               None \<Rightarrow> (HttpError 502 ''read from kvstore failed'', line @ [newline])
             | Some reply \<Rightarrow> (HttpResult line (trim_eol reply), line @ [newline]))))"

section \<open>Properties\<close>

lemma scan_one: "newline \<notin> set l \<Longrightarrow> return \<notin> set l \<Longrightarrow> length l < max_token \<Longrightarrow> scan (l @ [newline]) = [l]"
  by (subst scan_line) (auto simp: drop_cr_def dest: last_in_set)

lemma answer_memory_one_line:
  assumes "values_one_line (data s)" "newline \<notin> set l"
  shows "one_line (fst (answer p memory_ops l s))"
  using answer_one_line [OF assms, of p] mst.answer_refines [OF memory_ops_def, of p l s] by simp

lemma read_one_line: "one_line r \<Longrightarrow> read_string (r @ rest) = Some r"
  by (auto simp: one_line_def read_string_def)

text \<open>
  One request, one command, one line: in front of the real server, a request whose trimmed
  text fits a line makes the server execute exactly that line and returns exactly its reply without
  the line ending; a text with a line break inside is refused and nothing is sent, so no second
  command can be smuggled in.
\<close>

theorem console_forwards_exactly_one_command:
  assumes "values_one_line (data s)" and "trim_space command \<noteq> []"
    and "length (trim_space command) < max_token"
  shows "let line = trim_space command;
             serve = (\<lambda>input. handle p memory_ops (\<lambda>_. True) input s);
             (reply, sent) = handle_cmd addr True True (\<lambda>input. concat (fst (serve input))) (Some command)
         in if newline \<in> set line \<or> return \<in> set line
            then reply = HttpError 400 ''send exactly one command line'' \<and> snd (serve sent) = s
            else reply = HttpResult line (trim_eol (fst (answer p memory_ops line s))) \<and>
                 snd (serve sent) = snd (answer p memory_ops line s)"
proof (cases "newline \<in> set (trim_space command) \<or> return \<in> set (trim_space command)")
  case True
  then show ?thesis by (auto simp: handle_cmd_def handle_def)
next
  case False
  let ?l = "trim_space command"
  have h: "handle p memory_ops (\<lambda>_. True) (?l @ [newline]) s =
      ([fst (answer p memory_ops ?l s)], snd (answer p memory_ops ?l s))"
    using False assms(3) by (simp add: handle_def scan_one case_prod_beta)
  have "read_string (fst (answer p memory_ops ?l s)) = Some (fst (answer p memory_ops ?l s))"
    using read_one_line [OF answer_memory_one_line [OF assms(1)], of ?l p "[]"] False by simp
  with False assms(2) h show ?thesis by (simp add: handle_cmd_def)
qed

theorem console_forwards_exactly_one_command_witness:
  "let (reply, sent) = handle_cmd ''kv'' True True
       (\<lambda>input. concat (fst (handle (\<lambda>_. True) memory_ops (\<lambda>_. True) input new_memory_store)))
       (Some [CHR ''A'', newline, CHR ''B''])
   in reply = HttpError 400 ''send exactly one command line''"
proof -
  have t: "trim_space ([CHR ''A'', newline, CHR ''B'']) = [CHR ''A'', newline, CHR ''B'']"
    by (simp add: trim_space_def decode_rune_def byte_def is_space_def between_def after_rune_def rune_bytes_def)
  have v: "values_one_line (data new_memory_store)"
    by (simp add: values_one_line_def new_memory_store_def)
  from console_forwards_exactly_one_command [OF v, of "[CHR ''A'', newline, CHR ''B'']" "\<lambda>_. True" "''kv''"]
  show ?thesis by (simp add: t max_token_def case_prod_beta Let_def)
qed

end
