(* ===== verification/ConsolePage.thy ===== *)
theory ConsolePage
  imports KvWeb Json
begin

text \<open>
  The whole console (cmd/kvstore-web): the script of its page (index.html), the routes of its HTTP
  server and the JSON in both directions (main.go), in front of the handler of theory KvWeb. The
  browser's network, its error texts and the conversion of values that are no strings are parameters.
\<close>

section \<open>The HTTP server\<close>

datatype route = PageRoute | CommandRoute | NotAllowed | NotFound

text \<open>The two patterns of the mux, for a path that needs no cleaning; a HEAD is a GET.\<close>

definition route_of :: "bytes \<Rightarrow> bytes \<Rightarrow> route" where
  "route_of method path =
     (if path = ''/'' then (if method = ''GET'' \<or> method = ''HEAD'' then PageRoute else NotAllowed)
      else if path = ''/cmd'' then (if method = ''POST'' then CommandRoute else NotAllowed)
      else NotFound)"

record http_response =
  status :: nat
  body :: bytes

text \<open>\<open>http.Error\<close> ends its text with a newline; \<open>Encode\<close> writes the struct and a newline.\<close>

definition encode_result :: "bytes \<Rightarrow> bytes \<Rightarrow> bytes" where
  "encode_result sent reply =
     ''{'' @ quoted ''sent'' @ '':'' @ quoted (go_quote sent) @ '','' @ quoted ''reply'' @ '':'' @
     quoted (go_quote reply) @ ''}'' @ [newline]"

definition http_response_of :: "http_reply \<Rightarrow> http_response" where
  "http_response_of r =
     (case r of
        HttpError code text \<Rightarrow> \<lparr>status = code, body = text @ [newline]\<rparr>
      | HttpResult sent reply \<Rightarrow> \<lparr>status = 200, body = encode_result sent reply\<rparr>)"

text \<open>The response to a request, and the bytes that were sent to the key value server for it.\<close>

definition serve_http ::
  "bytes \<Rightarrow> bytes \<Rightarrow> bool \<Rightarrow> bool \<Rightarrow> (bytes \<Rightarrow> bytes) \<Rightarrow> bytes \<Rightarrow> bytes \<Rightarrow> bytes \<Rightarrow> http_response \<times> bytes" where
  "serve_http page kv_addr dials writes peer method path request =
     (case route_of method path of
        PageRoute \<Rightarrow> (\<lparr>status = 200, body = page\<rparr>, [])
      | CommandRoute \<Rightarrow>
          (case handle_cmd kv_addr dials writes peer (decode_command request) of
             (r, sent) \<Rightarrow> (http_response_of r, sent))
      | NotAllowed \<Rightarrow> (\<lparr>status = 405, body = ''Method Not Allowed'' @ [newline]\<rparr>, [])
      | NotFound \<Rightarrow> (\<lparr>status = 404, body = ''404 page not found'' @ [newline]\<rparr>, []))"

section \<open>The page\<close>

text \<open>A line of the log is its text and its class. \<open>asked\<close> is a ghost: the commands posted so far.\<close>

record console_page =
  log :: "(jsstr \<times> string) list"
  cleared :: bool
  input :: jsstr
  asked :: "jsstr list"

definition first_page :: console_page where
  "first_page =
     \<lparr>log = [(lit ''connected commands appear here'', ''hint'')], cleared = False, input = [], asked = []\<rparr>"

definition add :: "jsstr \<Rightarrow> string \<Rightarrow> console_page \<Rightarrow> console_page" where
  "add text cls p =
     (let q = (if cleared p then p else p\<lparr>log := [], cleared := True\<rparr>) in
      q\<lparr>log := log q @ [(text, cls)]\<rparr>)"

definition post_body :: "jsstr \<Rightarrow> jsstr" where
  "post_body command =
     lit (''{'' @ quoted ''command'' @ '':'') @ lit [CHR 0x22] @ quote_units command @ lit [CHR 0x22] @ lit ''}''"

text \<open>The submit listener up to its first \<open>await\<close>: what is posted, if anything is.\<close>

definition submit :: "console_page \<Rightarrow> bytes option \<times> console_page" where
  "submit p =
     (let command = js_trim (input p) in
      if command = [] then (None, p)
      else (Some (to_go (post_body command)),
            (add (lit ''> '' @ command) ''sent'' (p\<lparr>input := []\<rparr>))\<lparr>asked := asked p @ [command]\<rparr>))"

datatype fetched = FetchFails jsstr | Fetched nat bytes

text \<open>
  What the browser adds: the texts of the two errors the script can run into, and \<open>String(v)\<close> of a value
  that is no string.
\<close>

record js_texts =
  syntax_error :: "jsstr \<Rightarrow> jsstr"
  null_error :: jsstr
  text_of :: "json \<Rightarrow> jsstr"

text \<open>\<open>JSON.parse(text).reply\<close> as the text of an element: undefined and null show nothing.\<close>

definition reply_shown :: "js_texts \<Rightarrow> jsstr \<Rightarrow> jsstr + jsstr" where
  "reply_shown J text =
     (case js_parse text of
        None \<Rightarrow> Inl (syntax_error J text)
      | Some Jnull \<Rightarrow> Inl (null_error J)
      | Some (Jobj ms) \<Rightarrow>
          (case json_member (lit ''reply'') ms of
             None \<Rightarrow> Inr []
           | Some Jnull \<Rightarrow> Inr []
           | Some (Jstr x) \<Rightarrow> Inr (js_unquote x)
           | Some v \<Rightarrow> Inr (text_of J v))
      | Some _ \<Rightarrow> Inr [])"

definition respond :: "js_texts \<Rightarrow> fetched \<Rightarrow> console_page \<Rightarrow> console_page" where
  "respond J f p =
     (case f of
        FetchFails e \<Rightarrow> add e ''err'' p
      | Fetched code bs \<Rightarrow>
          (let text = to_js bs in
           if \<not> (200 \<le> code \<and> code \<le> 299) then add (js_trim text) ''err'' p
           else (case reply_shown J text of
               Inl e \<Rightarrow> add e ''err'' p
             | Inr r \<Rightarrow> add r ''reply'' p)))"

section \<open>In front of the server\<close>

text \<open>One command typed, posted, executed by the real server and shown, before the next is typed.\<close>

definition console_turn ::
  "js_texts \<Rightarrow> (nat \<Rightarrow> bool) \<Rightarrow> bytes \<Rightarrow> jsstr \<Rightarrow> console_page \<times> memory_store \<Rightarrow> console_page \<times> memory_store" where
  "console_turn J p kv_addr typed ps =
     (let (pg, s) = ps in
      case submit (pg\<lparr>input := typed\<rparr>) of
        (None, pg1) \<Rightarrow> (pg1, s)
      | (Some request, pg1) \<Rightarrow>
          (let serve = (\<lambda>bs. handle p memory_ops (\<lambda>_. True) bs s);
               (r, sent) = serve_http [] kv_addr True True (\<lambda>bs. concat (fst (serve bs))) ''POST'' ''/cmd'' request
           in (respond J (Fetched (status r) (body r)) pg1, snd (serve sent))))"

section \<open>JSON across the wire\<close>

lemma punctuation_token [simp]:
  "next_token (123 # s) = Some (OpenBrace, s)" "next_token (125 # s) = Some (CloseBrace, s)"
  "next_token (58 # s) = Some (Colon, s)" "next_token (44 # s) = Some (Comma, s)"
  by (simp_all add: next_token_def json_space_def punctuation_def)

lemma string_token: "plain_literal x \<Longrightarrow> next_token (34 # x @ 34 # s) = Some (StringLit x, s)"
  by (simp add: next_token_def json_space_def punctuation_def scan_literal)

lemma json_run_token:
  "next_token s = Some (t, r) \<Longrightarrow> json_run limit fs e s =
    (case json_step limit fs e t of Bad \<Rightarrow> None | Finished v \<Rightarrow> Some (v, r) | Goes gs e' \<Rightarrow> json_run limit gs e' r)"
  by (subst json_run.simps) simp

lemmas run_steps = json_step_def begin_value_def open_frame_def value_done_def

lemma one_member:
  assumes "plain_literal k" "plain_literal x" "0 < limit"
  shows "first_value limit (123 # 34 # k @ 34 # 58 # 34 # x @ 34 # 125 # r) = Some (Jobj [(k, Jstr x)], r)"
  using assms
  by (simp add: first_value_def json_run_token run_steps string_token)

lemma two_members:
  assumes "plain_literal k" "plain_literal x" "plain_literal l" "plain_literal y" "0 < limit"
  shows "first_value limit (123 # 34 # k @ 34 # 58 # 34 # x @ 34 # 44 # 34 # l @ 34 # 58 # 34 # y @ 34 # 125 # r) =
    Some (Jobj [(k, Jstr x), (l, Jstr y)], r)"
  using assms
  by (simp add: first_value_def json_run_token run_steps string_token)

lemma lone_append: "lone u us \<Longrightarrow> \<not> (\<exists>v vs. t = v # vs \<and> low_surrogate (unat v)) \<Longrightarrow> lone u (us @ t)"
  by (cases us) (auto simp: lone_def)

lemma ascii_not_low: "ascii s \<Longrightarrow> \<not> (\<exists>v vs. lit s = v # vs \<and> low_surrogate (unat v))"
  by (cases s) (auto simp: lit_Cons unat_code_unit low_surrogate_def)

lemma to_go_append_ascii: "ascii s \<Longrightarrow> to_go (us @ lit s) = to_go us @ s"
proof (induction us rule: units_induct)
  case (lone u us)
  then show ?case
    using lone_append [OF lone(1) ascii_not_low [OF lone(3)]] by (simp add: to_go_lone)
qed (simp_all add: to_go_ascii to_go_pair to_go_ordinary)

lemma go_chars_bytes [simp]: "go_chars (map byte s) = s"
  by (simp add: go_chars_def byte_def comp_def)

lemma go_unquote_ascii: "byte c < 128 \<Longrightarrow> c \<noteq> backslash \<Longrightarrow> go_unquote (c # cs) = c # go_unquote cs"
  by (simp add: decode_ascii after_rune_def rune_utf8_cases) (simp add: byte_def)

lemma named_command: "map ascii_upper (go_unquote ''command'') = ''COMMAND''"
  by (simp add: go_unquote_ascii byte_def ascii_upper_def between_def del: go_unquote.simps(2))
    (simp add: char_of_eq_iff take_bit_eq_mod)

lemma command_plain: "plain_literal (map byte ''command'')" "plain_literal (map byte ''sent'')"
  "plain_literal (map byte ''reply'')"
  by (simp_all add: plain_characters byte_def)

lemma post_body_bytes:
  "map byte (to_go (post_body c)) =
     123 # 34 # map byte ''command'' @ 34 # 58 # 34 # map byte (to_go (quote_units c)) @ 34 # 125 # []"
proof -
  have "post_body c = lit (''{'' @ quoted ''command'' @ '':'' @ [CHR 0x22]) @ quote_units c @ lit (CHR 0x22 # ''}'')"
    by (simp add: post_body_def lit_def)
  moreover have "ascii (''{'' @ quoted ''command'' @ '':'' @ [CHR 0x22])" "ascii (CHR 0x22 # ''}'')"
    by (simp_all add: quoted_def)
  ultimately have "to_go (post_body c) =
      ''{'' @ quoted ''command'' @ '':'' @ [CHR 0x22] @ to_go (quote_units c) @ CHR 0x22 # ''}''"
    by (simp only: to_go_ascii_append to_go_append_ascii append_assoc)
  then show ?thesis
    by (simp add: quoted_def byte_def)
qed

lemma decode_posted: "decode_command (to_go (post_body c)) = Some (to_go c)"
  using one_member [OF command_plain(1) quoted_units_plain [of c], of max_nesting "[]"]
  by (simp add: decode_command_def post_body_bytes max_nesting_def named_command quoted_units_cross del: list.map(2) go_unquote.simps(2))

lemma decode_not_bom: "bs = 123 # r \<Longrightarrow> decode bs = decode_from decoder.Idle bs"
  by (simp add: decode_def utf8_bom_def)

lemma result_text:
  obtains x y where "js_unquote x = go_text sent" "js_unquote y = go_text reply"
    "plain_literal x" "plain_literal y"
    "map unat (to_js (encode_result sent reply)) =
       123 # 34 # map byte ''sent'' @ 34 # 58 # 34 # x @ 34 # 44 # 34 # map byte ''reply'' @ 34 # 58 # 34 # y @ 34 # 125 # [10]"
proof -
  obtain us where us: "\<And>r. decode_from decoder.Idle (wire_bytes (go_quote sent) @ r) = us @ decode_from decoder.Idle r"
    "js_unquote (map unat us) = go_text sent" "plain_literal (map unat us)"
    using go_quoted_crosses [of sent] by blast
  obtain vs where vs: "\<And>r. decode_from decoder.Idle (wire_bytes (go_quote reply) @ r) = vs @ decode_from decoder.Idle r"
    "js_unquote (map unat vs) = go_text reply" "plain_literal (map unat vs)"
    using go_quoted_crosses [of reply] by blast
  let ?a = "''{'' @ quoted ''sent'' @ '':'' @ [CHR 0x22]"
    and ?b = "CHR 0x22 # '','' @ quoted ''reply'' @ '':'' @ [CHR 0x22]" and ?c = "CHR 0x22 # ''}'' @ [newline]"
  have asc: "ascii ?a" "ascii ?b" "ascii ?c"
    by (simp_all add: quoted_def)
  have w: "wire_bytes (encode_result sent reply) =
      wire_bytes ?a @ wire_bytes (go_quote sent) @ wire_bytes ?b @ wire_bytes (go_quote reply) @ wire_bytes ?c @ []"
    by (simp add: encode_result_def quoted_def wire_bytes_def)
  have "\<exists>r. wire_bytes (encode_result sent reply) = 123 # r"
    by (simp add: encode_result_def wire_bytes_def)
  then have "to_js (encode_result sent reply) = decode_from decoder.Idle (wire_bytes (encode_result sent reply))"
    using decode_not_bom by (auto simp: to_js_def wire_bytes_def)
  also have "\<dots> = lit ?a @ us @ lit ?b @ vs @ lit ?c"
    unfolding w decode_ascii_append [OF asc(1)] us(1) decode_ascii_append [OF asc(2)] vs(1)
      decode_ascii_append [OF asc(3)] by simp
  finally have "map unat (to_js (encode_result sent reply)) = map byte ?a @ map unat us @ map byte ?b @ map unat vs @ map byte ?c"
    by (simp del: append.simps list.map(2))
  then show thesis
    using us vs by (intro that [of "map unat us" "map unat vs"]) (simp_all add: quoted_def byte_def)
qed

lemma reply_key: "js_unquote (map byte ''sent'') \<noteq> lit ''reply''" "js_unquote (map byte ''reply'') = lit ''reply''"
  by (simp_all add: byte_def lit_def code_unit_def)

lemma reply_shown_result: "reply_shown J (to_js (encode_result sent reply)) = Inr (go_text reply)"
proof -
  obtain x y where xy: "js_unquote x = go_text sent" "js_unquote y = go_text reply" "plain_literal x" "plain_literal y"
    and t: "map unat (to_js (encode_result sent reply)) =
       123 # 34 # map byte ''sent'' @ 34 # 58 # 34 # x @ 34 # 44 # 34 # map byte ''reply'' @ 34 # 58 # 34 # y @ 34 # 125 # [10]"
    by (rule result_text)
  have "0 < length (to_js (encode_result sent reply))"
    using arg_cong [OF t, of length] by simp
  from two_members [OF command_plain(2) xy(3) command_plain(3) xy(4) this, of "[10]"]
  have "js_parse (to_js (encode_result sent reply)) = Some (Jobj [(map byte ''sent'', Jstr x), (map byte ''reply'', Jstr y)])"
    by (simp add: js_parse_def t json_space_def del: list.map(2))
  then show ?thesis
    using xy(2) reply_key by (simp add: reply_shown_def json_member_def del: list.map(2))
qed

section \<open>A conversation\<close>

text \<open>
  What the console should show for a typed text, and what the store should become: in terms of the
  server's answer to one line, without HTTP, JSON or connections.
\<close>

definition turn_line :: "jsstr \<Rightarrow> bytes" where
  "turn_line t = trim_space (to_go (js_trim t))"

definition turn_outcome ::
  "(nat \<Rightarrow> bool) \<Rightarrow> jsstr \<Rightarrow> memory_store \<Rightarrow> (jsstr \<times> string) \<times> memory_store" where
  "turn_outcome p t s =
     (let line = turn_line t in
      if line = [] \<or> newline \<in> set line \<or> return \<in> set line
      then ((lit ''send exactly one command line'', ''err''), s)
      else if max_token \<le> length line then ((lit ''read from kvstore failed'', ''err''), s)
      else ((go_text (trim_eol (fst (answer p memory_ops line s))), ''reply''), snd (answer p memory_ops line s)))"

fun conversation ::
  "(nat \<Rightarrow> bool) \<Rightarrow> jsstr list \<Rightarrow> memory_store \<Rightarrow> (jsstr \<times> string) list \<times> memory_store" where
  "conversation p [] s = ([], s)"
| "conversation p (t # ts) s =
     (if js_trim t = [] then conversation p ts s
      else (case turn_outcome p t s of (out, s1) \<Rightarrow>
        (case conversation p ts s1 of (outs, s2) \<Rightarrow> ((lit ''> '' @ js_trim t, ''sent'') # out # outs, s2))))"

lemma lit_append: "lit (s @ t) = lit s @ lit t"
  by (simp add: lit_def)

lemma js_trim_text:
  assumes "s \<noteq> []" "\<not> js_space (code_unit (hd s))" "\<not> js_space (code_unit (last s))"
  shows "js_trim (lit (s @ [newline])) = lit s"
proof -
  have "dropWhile js_space (lit (s @ [newline])) = lit (s @ [newline])"
    using assms(1,2) by (cases s) (simp_all add: lit_Cons)
  moreover have "js_space (code_unit newline)"
    by (simp add: js_space_def unat_code_unit)
  moreover obtain t c where "s = t @ [c]"
    using assms(1) by (cases s rule: rev_cases) auto
  ultimately show ?thesis
    using assms(3) by (simp add: js_trim_def lit_append lit_Cons)
qed

lemma error_texts:
  "js_trim (to_js (''send exactly one command line'' @ [newline])) = lit ''send exactly one command line''"
  "js_trim (to_js (''read from kvstore failed'' @ [newline])) = lit ''read from kvstore failed''"
  using js_trim_text [of "''send exactly one command line''"] js_trim_text [of "''read from kvstore failed''"]
  by (simp_all add: to_js_ascii js_space_def unat_code_unit)

lemma answer_store_one_line:
  "values_one_line (data s) \<Longrightarrow> newline \<notin> set l \<Longrightarrow> values_one_line (data (snd (answer p memory_ops l s)))"
  using answer_one_line [of "data s" l p] mst.answer_refines [OF memory_ops_def, of p l s] by simp

lemma turn_outcome_one_line: "values_one_line (data s) \<Longrightarrow> values_one_line (data (snd (turn_outcome p t s)))"
  by (auto simp: turn_outcome_def Let_def answer_store_one_line)

lemma overlong_unread: "newline \<notin> set l \<Longrightarrow> max_token \<le> length l \<Longrightarrow> scan (l @ [newline]) = []"
  by (rule scan_too_long) (auto dest: in_set_takeD)

lemma trimmed_submit:
  "js_trim t \<noteq> [] \<Longrightarrow> submit (pg\<lparr>input := t\<rparr>) =
    (Some (to_go (post_body (js_trim t))),
     (add (lit ''> '' @ js_trim t) ''sent'' (pg\<lparr>input := []\<rparr>))\<lparr>asked := asked pg @ [js_trim t]\<rparr>)"
  by (simp add: submit_def Let_def)

text \<open>The HTTP request of one command, in front of the real server.\<close>

lemma served_command:
  assumes "values_one_line (data s)" "line = trim_space c"
  shows "serve_http page addr True True (\<lambda>bs. concat (fst (handle p memory_ops (\<lambda>_. True) bs s))) ''POST'' ''/cmd''
      (to_go (post_body t)) =
    (case handle_cmd addr True True (\<lambda>bs. concat (fst (handle p memory_ops (\<lambda>_. True) bs s))) (Some (to_go t)) of
       (r, sent) \<Rightarrow> (http_response_of r, sent))"
  by (simp add: serve_http_def route_of_def decode_posted)

lemma served_line:
  assumes v: "values_one_line (data s)" and l: "newline \<notin> set l" "return \<notin> set l"
  shows "max_token \<le> length l \<Longrightarrow> handle p memory_ops (\<lambda>_. True) (l @ [newline]) s = ([], s)"
    and "length l < max_token \<Longrightarrow> handle p memory_ops (\<lambda>_. True) (l @ [newline]) s =
      ([fst (answer p memory_ops l s)], snd (answer p memory_ops l s))"
    and "read_string (fst (answer p memory_ops l s)) = Some (fst (answer p memory_ops l s))"
  using l overlong_unread [OF l(1)] scan_one [OF l] read_one_line [OF answer_memory_one_line [OF v l(1)], of p "[]"]
  by (simp_all add: handle_def case_prod_beta)

lemma handled_command:
  assumes v: "values_one_line (data s)" and line: "line = trim_space c"
  shows "handle_cmd addr True True (\<lambda>bs. concat (fst (handle p memory_ops (\<lambda>_. True) bs s))) (Some c) =
    (if line = [] \<or> newline \<in> set line \<or> return \<in> set line then (HttpError 400 ''send exactly one command line'', [])
     else if max_token \<le> length line then (HttpError 502 ''read from kvstore failed'', line @ [newline])
     else (HttpResult line (trim_eol (fst (answer p memory_ops line s))), line @ [newline]))"
proof (cases "line = [] \<or> newline \<in> set line \<or> return \<in> set line")
  case True
  then show ?thesis by (auto simp: handle_cmd_def line)
next
  case False
  then have l: "newline \<notin> set line" "return \<notin> set line" by simp_all
  note served = served_line [OF v l, of p]
  show ?thesis
  proof (cases "max_token \<le> length line")
    case True
    have "read_string [] = None"
      by (simp add: read_string_def)
    with False True served(1) show ?thesis
      by (simp add: handle_cmd_def flip: line)
  next
    case under: False
    with False served(2,3) show ?thesis
      by (simp add: handle_cmd_def flip: line)
  qed
qed

lemma log_add: "log (add x c p) = (if cleared p then log p else []) @ [(x, c)]" "cleared (add x c p)" "asked (add x c p) = asked p"
  by (simp_all add: add_def Let_def)

lemma handle_nothing: "handle p memory_ops w [] s = ([], s)"
  by (simp add: handle_def)

lemma console_turn_runs:
  assumes v: "values_one_line (data s)" and t: "js_trim t \<noteq> []"
  shows "log (fst (console_turn J p addr t (pg, s))) =
      (if cleared pg then log pg else []) @ [(lit ''> '' @ js_trim t, ''sent''), fst (turn_outcome p t s)]"
    and "snd (console_turn J p addr t (pg, s)) = snd (turn_outcome p t s)"
    and "cleared (fst (console_turn J p addr t (pg, s)))"
proof -
  note h = handled_command [OF v, of "turn_line t" "to_go (js_trim t)" addr p, OF turn_line_def]
  show "log (fst (console_turn J p addr t (pg, s))) =
      (if cleared pg then log pg else []) @ [(lit ''> '' @ js_trim t, ''sent''), fst (turn_outcome p t s)]"
    "snd (console_turn J p addr t (pg, s)) = snd (turn_outcome p t s)"
    "cleared (fst (console_turn J p addr t (pg, s)))"
    using served_line [OF v, of "turn_line t" p]
    by (auto simp: console_turn_def trimmed_submit [OF t] served_command [OF v refl] h turn_outcome_def
        http_response_of_def respond_def error_texts [unfolded append.simps] reply_shown_result log_add handle_nothing Let_def)
qed

lemma console_turn_blank:
  "js_trim t = [] \<Longrightarrow> console_turn J p addr t (pg, s) = (pg\<lparr>input := t\<rparr>, s)"
  by (simp add: console_turn_def submit_def)

lemma console_run:
  assumes "values_one_line (data s)"
  shows "log (fst (foldl (\<lambda>ps t. console_turn J p addr t ps) (pg, s) ts)) =
      (if \<forall>t \<in> set ts. js_trim t = [] then log pg
       else (if cleared pg then log pg else []) @ fst (conversation p ts s)) \<and>
    snd (foldl (\<lambda>ps t. console_turn J p addr t ps) (pg, s) ts) = snd (conversation p ts s)"
  using assms
proof (induction ts arbitrary: pg s)
  case (Cons t ts)
  show ?case
  proof (cases "js_trim t = []")
    case True
    with Cons.IH [OF Cons.prems, of "pg\<lparr>input := t\<rparr>"] show ?thesis
      by (simp add: console_turn_blank)
  next
    case False
    obtain pg1 s1 where n: "console_turn J p addr t (pg, s) = (pg1, s1)"
      by (cases "console_turn J p addr t (pg, s)")
    note r = console_turn_runs [OF Cons.prems False, of J p addr pg, unfolded n fst_conv snd_conv]
    have none: "fst (conversation p ts s) = []" if "\<forall>t \<in> set ts. js_trim t = []" for s
      using that by (induction ts) simp_all
    have "values_one_line (data s1)"
      using turn_outcome_one_line [OF Cons.prems] by (simp add: r(2))
    from Cons.IH [OF this, of pg1] r False n none [of s1] show ?thesis
      by (auto simp: case_prod_beta)
  qed
qed simp

section \<open>Properties\<close>

text \<open>
  C30: texts cross HTTP and JSON unharmed in both directions: the handler decodes from the body that
  the page posts exactly the text that was typed, in UTF-8, with only a lone surrogate replaced; and
  the page reads from the handler's JSON exactly the reply, rune by rune, where only a byte that is
  no UTF-8 is replaced, so that a text that once crossed comes back unit by unit.
\<close>

theorem console_texts_cross:
  "decode_command (to_go (post_body t)) = Some (to_go t) \<and>
   reply_shown J (to_js (body (http_response_of (HttpResult sent reply)))) = Inr (go_text reply) \<and>
   reply_shown J (to_js (body (http_response_of (HttpResult sent (to_go t))))) = Inr (scrub t)"
  by (simp add: decode_posted http_response_of_def reply_shown_result go_text_to_go)

text \<open>
  C29: the console shows the server. Whatever texts are typed one after the other, in front of the
  real server the log holds, for each that is not blank, the command and then exactly the reply of
  the server to that one line, or the error that refuses it (a text that is blank for Go, one with a
  line break, one that does not fit the server's buffer), and the store is the one that these lines
  leave behind; blank texts do nothing, and the placeholder goes with the first line.
\<close>

theorem console_shows_the_server:
  assumes "values_one_line (data s)"
    and "run = foldl (\<lambda>ps t. console_turn J p addr t ps) (first_page, s) ts"
  shows "log (fst run) = (if \<forall>t \<in> set ts. js_trim t = [] then log first_page else fst (conversation p ts s)) \<and>
    snd run = snd (conversation p ts s)"
  using console_run [OF assms(1), of J p addr first_page ts] by (simp add: assms(2) first_page_def)

definition no_texts :: js_texts where
  "no_texts = \<lparr>syntax_error = (\<lambda>_. []), null_error = [], text_of = (\<lambda>_. [])\<rparr>"

theorem console_shows_the_server_witness:
  "log (fst (foldl (\<lambda>ps t. console_turn no_texts (\<lambda>_. True) ''kv'' t ps) (first_page, new_memory_store) [lit '' '', lit ''DEL a''])) =
     [(lit ''> DEL a'', ''sent''), (lit ''0'', ''reply'')]"
proof -
  have trim: "js_trim (lit '' '') = []" "js_trim (lit ''DEL a'') = lit ''DEL a''"
    by (simp_all add: js_trim_def lit_Cons js_space_def unat_code_unit)
  have line: "turn_line (lit ''DEL a'') = ''DEL a''"
    by (simp add: turn_line_def trim to_go_ascii trim_space_def decode_ascii byte_def is_space_def between_def
        after_rune_def rune_bytes_def)
  have parsed: "parse ''DEL a'' = Inr \<lparr>cmd_op = OpDel, cmd_key = ''a'', cmd_value = []\<rparr>"
    using parse_command_line [of "\<lparr>cmd_op = OpDel, cmd_key = ''a'', cmd_value = []\<rparr>" "[]"]
    by (simp add: command_line_def arguments_def well_formed_def eol_free_def)
  have zero_char: "char_of (48 :: nat) = CHR ''0''"
    by (simp add: char_of_eq_iff take_bit_eq_mod)
  have "go_text (trim_eol (fst (answer (\<lambda>_. True) memory_ops ''DEL a'' new_memory_store))) = lit ''0''"
    by (simp add: answer_def parsed execute_def memory_ops_def mem_delete_def new_memory_store_def reply_int_def
        dec_int_def dec.simps digit_char_def trim_eol_def zero_char go_text_ascii
        del: go_text.simps)
  then show ?thesis
    using console_shows_the_server [OF _ refl, of new_memory_store no_texts "\<lambda>_. True" "''kv''" "[lit '' '', lit ''DEL a'']"]
    by (simp add: values_one_line_def new_memory_store_def trim turn_outcome_def line max_token_def case_prod_beta)
      (simp add: lit_def)
qed

text \<open>
  The page does not wait for an answer before it takes the next command. Whatever the order of the
  answers, the log holds every posted command in the order of typing and one line for each answer;
  which answer belongs to which command it does not say.
\<close>

datatype page_event = Typed jsstr | Answered fetched

fun page_event_step :: "js_texts \<Rightarrow> console_page \<Rightarrow> page_event \<Rightarrow> console_page" where
  "page_event_step J p (Typed t) = snd (submit (p\<lparr>input := t\<rparr>))"
| "page_event_step J p (Answered f) = respond J f p"

definition commands_shown :: "console_page \<Rightarrow> jsstr list" where
  "commands_shown p = map fst (filter (\<lambda>l. snd l = ''sent'') (log p))"

lemma commands_shown_add:
  "(\<not> cleared p \<longrightarrow> commands_shown p = []) \<Longrightarrow>
   commands_shown (add x c p) = commands_shown p @ (if c = ''sent'' then [x] else [])"
  by (auto simp: commands_shown_def log_add)

lemma respond_adds: "\<exists>x c. c \<in> {''err'', ''reply''} \<and> respond J f p = add x c p"
  by (auto simp: respond_def Let_def split: fetched.split sum.split)

lemma log_keeps_the_order:
  "commands_shown (foldl (page_event_step J) first_page es) =
     map ((@) (lit ''> '')) (asked (foldl (page_event_step J) first_page es))"
proof -
  have "(\<not> cleared p \<longrightarrow> commands_shown p = []) \<and> commands_shown p = map ((@) (lit ''> '')) (asked p)"
    if "p = foldl (page_event_step J) first_page es" for p
    using that
  proof (induction es arbitrary: p rule: rev_induct)
    case Nil
    then show ?case by (simp add: first_page_def commands_shown_def)
  next
    case (snoc e es)
    let ?q = "foldl (page_event_step J) first_page es"
    have q: "\<not> cleared ?q \<longrightarrow> commands_shown ?q = []" "commands_shown ?q = map ((@) (lit ''> '')) (asked ?q)"
      using snoc.IH [OF refl] by blast+
    show ?case
    proof (cases e)
      case (Typed t)
      let ?r = "add (lit ''> '' @ js_trim t) ''sent'' (?q\<lparr>input := []\<rparr>)"
      have "commands_shown ?r = commands_shown ?q @ [lit ''> '' @ js_trim t]"
        using commands_shown_add [of "?q\<lparr>input := []\<rparr>"] q(1) by (simp add: commands_shown_def)
      moreover have "cleared ?r" by (rule log_add)
      ultimately show ?thesis
        using snoc.prems q Typed
        by (cases "js_trim t = []") (auto simp: submit_def Let_def commands_shown_def)
    next
      case (Answered f)
      obtain x c where "c \<in> {''err'', ''reply''}" "respond J f ?q = add x c ?q"
        using respond_adds [of J f ?q] by (elim exE conjE)
      then have "p = add x c ?q" "c \<noteq> ''sent''"
        by (simp_all add: Answered snoc.prems) auto
      with q commands_shown_add [OF q(1), of x c] show ?thesis
        by (simp only: log_add) simp
    qed
  qed
  then show ?thesis by simp
qed

end
