(* ===== verification/Recorded.thy ===== *)
theory Recorded
  imports WasmBridge
begin

text \<open>
  The recorded run that the demo page shows when it cannot load the compiled program
  (docs/data/kvstore.js): the captured session with its final state, the rows of the benchmark that
  were recorded, and the share of a request that the store takes.
\<close>

section \<open>The data\<close>

record exchange =
  ex_command :: bytes
  ex_reply :: bytes

definition captured_lines :: "exchange list" where
  "captured_lines =
     [\<lparr>ex_command = ''SET name alice'', ex_reply = ''OK''\<rparr>,
      \<lparr>ex_command = ''GET name'', ex_reply = ''alice''\<rparr>,
      \<lparr>ex_command = ''SET greeting hello there friend'', ex_reply = ''OK''\<rparr>,
      \<lparr>ex_command = ''GET greeting'', ex_reply = ''hello there friend''\<rparr>,
      \<lparr>ex_command = ''GET nothing'', ex_reply = ''(nil)''\<rparr>,
      \<lparr>ex_command = ''DEL name'', ex_reply = ''1''\<rparr>,
      \<lparr>ex_command = ''GET name'', ex_reply = ''(nil)''\<rparr>,
      \<lparr>ex_command = ''PING'', ex_reply = ''ERR unknown command '' @ [CHR 0x22] @ ''PING'' @ [CHR 0x22]\<rparr>,
      \<lparr>ex_command = ''GET'', ex_reply = ''ERR GET takes exactly one key''\<rparr>]"

definition captured_final_state :: "(bytes \<times> bytes) list" where
  "captured_final_state = [(''greeting'', ''hello there friend'')]"

record budget =
  per_operation_budget_us :: rat
  spent_in_store_ns :: rat
  share_percent :: rat

definition recorded_budget :: budget where
  "recorded_budget = \<lparr>per_operation_budget_us = 86 / 10, spent_in_store_ns = 27, share_percent = 4 / 10\<rparr>"

text \<open>A row of the table for 32 clients, with its latencies in microseconds, and the store by itself.\<close>

record measured_cell =
  mc_workload :: string
  mc_ops_per_sec :: rat
  mc_spread_percent :: rat
  mc_p50_us :: rat
  mc_p90_us :: rat
  mc_p99_us :: rat

definition cross_process_32_clients :: "measured_cell list" where
  "cross_process_32_clients =
     [\<lparr>mc_workload = ''all reads'', mc_ops_per_sec = 107783, mc_spread_percent = 101 / 10,
       mc_p50_us = 234, mc_p90_us = 417, mc_p99_us = 880\<rparr>,
      \<lparr>mc_workload = ''9 reads to 1 write'', mc_ops_per_sec = 142851, mc_spread_percent = 102 / 10,
       mc_p50_us = 198, mc_p90_us = 305, mc_p99_us = 514\<rparr>,
      \<lparr>mc_workload = ''all writes'', mc_ops_per_sec = 126871, mc_spread_percent = 203 / 10,
       mc_p50_us = 215, mc_p90_us = 355, mc_p99_us = 638\<rparr>]"

record store_figures =
  read_ns_per_op :: rat
  write_ns_per_op :: rat
  allocations_per_op :: nat

definition store_alone :: store_figures where
  "store_alone = \<lparr>read_ns_per_op = 2693 / 100, write_ns_per_op = 5406 / 100, allocations_per_op = 0\<rparr>"

section \<open>Replaying it\<close>

definition captured_commands :: "bytes list" where
  "captured_commands = map ex_command captured_lines"

lemma captured_commands_list:
  "captured_commands = [''SET name alice'', ''GET name'', ''SET greeting hello there friend'', ''GET greeting'',
     ''GET nothing'', ''DEL name'', ''GET name'', ''PING'', ''GET'']"
  by (simp add: captured_commands_def captured_lines_def)

lemmas line_eval =
  parse_def trim_eol_def decode_rune_def is_space_def between_def byte_def upper_rune_def rune_bytes_def
  after_rune_def numeral_3_eq_3 Let_def

lemma captured_parses:
  "parse ''SET name alice'' = Inr \<lparr>cmd_op = OpSet, cmd_key = ''name'', cmd_value = ''alice''\<rparr>"
  "parse ''GET name'' = Inr \<lparr>cmd_op = OpGet, cmd_key = ''name'', cmd_value = []\<rparr>"
  "parse ''SET greeting hello there friend'' =
     Inr \<lparr>cmd_op = OpSet, cmd_key = ''greeting'', cmd_value = ''hello there friend''\<rparr>"
  "parse ''GET greeting'' = Inr \<lparr>cmd_op = OpGet, cmd_key = ''greeting'', cmd_value = []\<rparr>"
  "parse ''GET nothing'' = Inr \<lparr>cmd_op = OpGet, cmd_key = ''nothing'', cmd_value = []\<rparr>"
  "parse ''DEL name'' = Inr \<lparr>cmd_op = OpDel, cmd_key = ''name'', cmd_value = []\<rparr>"
  "parse ''PING'' = Inl (UnknownCommand ''PING'')"
  "parse ''GET'' = Inl (TakesOneKey ''GET'')"
  by (simp_all add: line_eval)

lemma captured_errors:
  "reply_error (error_text p (UnknownCommand ''PING'')) =
     ''ERR unknown command '' @ [CHR 0x22] @ ''PING'' @ [CHR 0x22, newline]"
  "reply_error (error_text p (TakesOneKey ''GET'')) = ''ERR GET takes exactly one key'' @ [newline]"
  by (simp_all add: reply_error_def error_text_def quote_def decode_rune_def rune_bytes_def after_rune_def byte_def
      escape_rune_def is_print_def between_def rune_error_def Let_def)

lemma captured_answers:
  "answer_lines p memory_ops (\<lambda>_. True) n captured_commands new_memory_store =
     (map (\<lambda>x. ex_reply x @ [newline]) captured_lines, \<lparr>data = map_of captured_final_state\<rparr>)"
  by (simp add: captured_commands_list answer_def captured_parses captured_errors execute_def memory_ops_def
      mem_get_def mem_set_def mem_delete_def new_memory_store_def reply_ok_def reply_value_def reply_nil_def
      reply_int_small captured_lines_def captured_final_state_def fun_upd_def fun_eq_iff)

lemma captured_scan: "scan (wire captured_commands) = captured_commands"
proof -
  have "scan (wire captured_commands @ []) = map drop_cr captured_commands @ scan []"
    by (rule scan_wire) (simp add: captured_commands_list sendable_def max_token_def)
  then show ?thesis by (simp add: captured_commands_list drop_cr_def)
qed

text \<open>The bridge of the page, fed the same lines.\<close>

fun page_replies :: "(nat \<Rightarrow> bool) \<Rightarrow> bytes list \<Rightarrow> bridge \<Rightarrow> bytes list" where
  "page_replies p [] b = []"
| "page_replies p (l # ls) b = (case eval_line p l b of (ev, b') \<Rightarrow> ev_reply ev # page_replies p ls b')"

lemma page_replies_answers:
  "page_replies p ls b = fst (answer_lines p memory_ops (\<lambda>_. True) n ls (br_store b))"
  by (induction ls arbitrary: b n)
    (simp_all add: case_prod_beta eval_line_answer [THEN conjunct1] flip: eval_line_answer [THEN conjunct2])

lemma captured_rows: "rows (after_lines p captured_commands) = captured_final_state"
  by (simp add: after_lines_def captured_commands_list eval_line_def captured_parses bridge_execute_def
      first_bridge_def remember_def seen_cap_def mem_get_def mem_set_def mem_delete_def new_memory_store_def
      rows_def captured_final_state_def Let_def)

section \<open>The session\<close>

text \<open>
  The recording tells the truth about the program. Sent over one connection to a fresh server,
  the recorded commands are answered by exactly the recorded replies, line by line, and leave
  exactly the recorded final state; the compiled program in the page answers them with the same
  lines and then draws that state; whatever the table of printable runes says.
\<close>

lemma recording_is_what_the_program_does:
  "handle p memory_ops (\<lambda>_. True) (wire (map ex_command captured_lines)) new_memory_store =
     (map (\<lambda>x. ex_reply x @ [newline]) captured_lines, \<lparr>data = map_of captured_final_state\<rparr>) \<and>
   page_replies p (map ex_command captured_lines) first_bridge = map (\<lambda>x. ex_reply x @ [newline]) captured_lines \<and>
   rows (after_lines p (map ex_command captured_lines)) = captured_final_state"
  unfolding captured_commands_def [symmetric]
  by (simp add: handle_def captured_scan captured_answers captured_rows
      page_replies_answers [where n = 0] first_bridge_def)

text \<open>The share that is recorded is not the quotient of the two figures beside it.\<close>

lemma recorded_share_is_too_high:
  "spent_in_store_ns recorded_budget / (1000 * per_operation_budget_us recorded_budget) * 100
     < share_percent recorded_budget - 8 / 100"
  by (simp add: recorded_budget_def)

text \<open>
  The rows are possible: percentiles in order, and, since each of 32 clients has one request
  outstanding all the time, a mean latency of 32 divided by the rate, which is not below what the
  percentiles alone make of it. The time in the store is the recorded time of a read.
\<close>

lemma recorded_rows_are_possible:
  "\<forall>c \<in> set cross_process_32_clients. mc_p50_us c \<le> mc_p90_us c \<and> mc_p90_us c \<le> mc_p99_us c \<and>
     4 / 10 * mc_p50_us c + 9 / 100 * mc_p90_us c + 1 / 100 * mc_p99_us c \<le> 32 * 1000000 / mc_ops_per_sec c"
  "spent_in_store_ns recorded_budget = of_int (round (read_ns_per_op store_alone))"
proof -
  show "\<forall>c \<in> set cross_process_32_clients. mc_p50_us c \<le> mc_p90_us c \<and> mc_p90_us c \<le> mc_p99_us c \<and>
     4 / 10 * mc_p50_us c + 9 / 100 * mc_p90_us c + 1 / 100 * mc_p99_us c \<le> 32 * 1000000 / mc_ops_per_sec c"
    by (simp add: cross_process_32_clients_def)
  have "round (read_ns_per_op store_alone) = 27"
    by (rule round_unique) (simp_all add: store_alone_def)
  then show "spent_in_store_ns recorded_budget = of_int (round (read_ns_per_op store_alone))"
    by (simp add: recorded_budget_def)
qed

end
