(* ===== verification/DemoPage.thy ===== *)
theory DemoPage
  imports Recorded Utf8 KitLoad
begin

text \<open>
  The script of the demo page (docs/index.html) over the compiled program (docs/wasm/main.go): a
  typed line crosses to Go as UTF-8, is evaluated by the bridge, and its reply and rows come back as
  text that is put on a tape and into a drawer of slots. When the program cannot be loaded the page
  shows the recorded session instead.
\<close>

section \<open>The exported function\<close>

text \<open>What the exported function returns, as the page reads it.\<close>

record page_result =
  pr_reply :: jsstr
  pr_rows :: "(jsstr \<times> jsstr) list"
  pr_touched :: jsstr
  pr_verb :: jsstr

definition js_rows :: "(bytes \<times> bytes) list \<Rightarrow> (jsstr \<times> jsstr) list" where
  "js_rows = map (\<lambda>(k, v). (to_js k, to_js v))"

text \<open>\<open>window.kvstoreEval\<close>; a missing property reads as the empty text, which the page treats alike.\<close>

definition kvstore_eval :: "(nat \<Rightarrow> bool) \<Rightarrow> jsstr list \<Rightarrow> bridge \<Rightarrow> page_result \<times> bridge" where
  "kvstore_eval printable args b =
     (case args of
        [] \<Rightarrow> (\<lparr>pr_reply = to_js (''ERR nothing sent'' @ [newline]), pr_rows = js_rows (rows b),
                pr_touched = [], pr_verb = []\<rparr>, b)
      | line # _ \<Rightarrow>
          (case eval_line printable (to_go line) b of
             (ev, b') \<Rightarrow>
               (\<lparr>pr_reply = to_js (ev_reply ev), pr_rows = js_rows (ev_rows ev),
                 pr_touched = to_js (ev_touched ev), pr_verb = to_js (ev_verb ev)\<rparr>, b')))"

section \<open>The page\<close>

record slot =
  sl_slot :: elem
  sl_key :: elem
  sl_val :: elem
  sl_mark :: elem

record control =
  ctl_elem :: elem
  ctl_disabled :: bool

record demo =
  pg_ready :: bool
  pg_lines :: "jsstr list"
  pg_slots :: "slot list"
  pg_tape :: elem
  pg_status :: elem
  pg_live :: elem
  pg_count :: elem
  pg_input_disabled :: bool
  pg_run :: control
  pg_chips :: "control list"
  pg_go :: bridge

definition slot_label :: "nat \<Rightarrow> jsstr \<Rightarrow> jsstr" where
  "slot_label i rest = lit ''Slot '' @ lit (dec (i + 1)) @ rest"

definition paint_slot :: "nat \<Rightarrow> (jsstr \<times> jsstr) option \<Rightarrow> jsstr \<Rightarrow> jsstr \<Rightarrow> slot \<Rightarrow> slot" where
  "paint_slot i row touched verb s =
     (case row of
        None \<Rightarrow>
          s\<lparr>sl_key := set_text [] (sl_key s),
            sl_val := set_html (lit (''<span class='' @ [CHR 0x22] @ ''kv-slot__rule'' @ [CHR 0x22] @ ''></span>'' @
              ''<span class='' @ [CHR 0x22] @ ''k-sr-only'' @ [CHR 0x22] @ ''>empty</span>'')) (sl_val s),
            sl_mark := set_text [] (sl_mark s),
            sl_slot := set_attr ''aria-label'' (slot_label i (lit '', empty''))
              (set_attr ''data-touch'' (lit ''none'') (sl_slot s))\<rparr>
      | Some (k, v) \<Rightarrow>
          (let hit = (touched \<noteq> [] \<and> k = touched);
               (touch, mark) =
                 (if hit \<and> verb = lit ''SET'' then (''set'', lit ''just written'')
                  else if hit \<and> verb = lit ''GET'' then (''get'', lit ''just read'')
                  else (''none'', []))
           in s\<lparr>sl_key := set_text k (sl_key s),
                sl_val := set_text (if v = [] then lit ''(empty text)'' else v) (sl_val s),
                sl_mark := set_text mark (sl_mark s),
                sl_slot := set_attr ''aria-label''
                  (slot_label i (lit '', label '' @ k @ lit '', value '' @ v @ (if mark = [] then [] else lit '', '' @ mark)))
                  (set_attr ''data-touch'' (lit touch) (sl_slot s))\<rparr>))"

definition row_at :: "'a list \<Rightarrow> nat \<Rightarrow> 'a option" where
  "row_at xs i = (if i < length xs then Some (xs ! i) else None)"

definition paint_drawer :: "(jsstr \<times> jsstr) list \<Rightarrow> jsstr \<Rightarrow> jsstr \<Rightarrow> demo \<Rightarrow> demo" where
  "paint_drawer rs touched verb p =
     p\<lparr>pg_slots := map (\<lambda>(i, s). paint_slot i (row_at rs i) touched verb s) (enumerate 0 (pg_slots p)),
       pg_count := set_text (if length rs = 1 then lit ''1 label stored'' else lit (dec (length rs) @ '' labels stored''))
         (pg_count p)\<rparr>"

fun join_lines :: "jsstr list \<Rightarrow> jsstr" where
  "join_lines [] = []"
| "join_lines [s] = s"
| "join_lines (s # t # ss) = s @ 10 # join_lines (t # ss)"

definition tape_push :: "jsstr \<Rightarrow> jsstr \<Rightarrow> demo \<Rightarrow> demo" where
  "tape_push cmd reply p =
     (let ls = pg_lines p @ [lit ''> '' @ cmd] @ [reply];
          ls' = (if 200 < length ls then drop (length ls - 200) ls else ls)
      in p\<lparr>pg_lines := ls', pg_tape := set_text (join_lines ls') (pg_tape p)\<rparr>)"

definition chop_newline :: "jsstr \<Rightarrow> jsstr" where
  "chop_newline s = (if s \<noteq> [] \<and> last s = 10 then butlast s else s)"

definition run_line :: "(nat \<Rightarrow> bool) \<Rightarrow> demo \<Rightarrow> jsstr \<Rightarrow> demo" where
  "run_line printable p line =
     (if \<not> pg_ready p then p
      else if list_all js_space line then p
      else (case kvstore_eval printable [line] (pg_go p) of
          (res, b) \<Rightarrow>
            (let reply = chop_newline (pr_reply res);
                 p1 = tape_push line reply (p\<lparr>pg_go := b\<rparr>);
                 p2 = paint_drawer (pr_rows res) (pr_touched res) (pr_verb res) p1;
                 shown = (if 96 < length reply then take 96 reply @ lit ''...'' else reply)
             in p2\<lparr>pg_status := set_text (lit ''kvstore replied: '' @ shown) (pg_status p2),
                   pg_live := set_text (lit ''Sent '' @ line @ lit ''. kvstore replied '' @ shown @ lit ''.'') (pg_live p2)\<rparr>)))"

definition set_control :: "bool \<Rightarrow> control \<Rightarrow> control" where
  "set_control on c = c\<lparr>ctl_elem := set_attr ''aria-disabled'' (bool_text (\<not> on)) (ctl_elem c), ctl_disabled := \<not> on\<rparr>"

definition set_enabled :: "bool \<Rightarrow> demo \<Rightarrow> demo" where
  "set_enabled on p =
     p\<lparr>pg_input_disabled := \<not> on, pg_run := set_control on (pg_run p),
       pg_chips := map (set_control on) (pg_chips p)\<rparr>"

text \<open>\<open>kvstoreOnReady\<close>: what Go calls when its function is exported.\<close>

definition on_ready :: "demo \<Rightarrow> demo" where
  "on_ready p =
     paint_drawer [] [] []
       ((set_enabled True (p\<lparr>pg_ready := True\<rparr>))\<lparr>pg_status :=
          set_text (lit ''Ready. The Go code from this repository is running in this tab. Press Run it.'')
            (pg_status p)\<rparr>)"

text \<open>
  \<open>showStored\<close>: the settlement is that of \<open>Kit.loadData\<close>; the data may lack a captured session.
\<close>

record stored_session =
  st_lines :: "(jsstr \<times> jsstr) list"
  st_rows :: "(jsstr \<times> jsstr) list"

definition show_stored :: "jsstr \<Rightarrow> stored_session option settlement \<Rightarrow> demo \<Rightarrow> demo" where
  "show_stored why loaded p0 =
     (let p = p0\<lparr>pg_status := set_text why (pg_status p0), pg_live := set_text why (pg_live p0)\<rparr> in
      case loaded of
        Waiting \<Rightarrow> p
      | Rejected _ \<Rightarrow> p\<lparr>pg_tape := set_text (lit ''The stored session could not be read either.'') (pg_tape p)\<rparr>
      | Resolved None \<Rightarrow> p
      | Resolved (Some cap) \<Rightarrow>
          (let ls = pg_lines p @ concat (map (\<lambda>(c, r). [lit ''> '' @ c, r]) (st_lines cap)) in
           paint_drawer (st_rows cap) [] []
             (p\<lparr>pg_lines := ls, pg_tape := set_text (join_lines ls) (pg_tape p)\<rparr>)))"

section \<open>Starting\<close>

text \<open>
  The browser as \<open>boot\<close> finds it; the last field is whether the compiled program gets to run, by
  streaming or by the plain fetch, if that is known by now.
\<close>

record browser =
  has_webassembly :: bool
  has_go_class :: bool
  page_protocol :: protocol_read
  module_runs :: "bool option"

definition boot :: "browser \<Rightarrow> stored_session option settlement \<Rightarrow> demo \<Rightarrow> demo" where
  "boot w loaded p =
     (if \<not> has_webassembly w \<or> \<not> has_go_class w then
        show_stored (lit ''This browser cannot run the compiled code, so a session captured from the real server on 2026-07-27 is shown instead.'') loaded p
      else if (case page_protocol w of ProtocolThrows \<Rightarrow> True | Protocol s \<Rightarrow> s = lit ''file:'') then
        show_stored (lit ''Opened as a local file, so the compiled code cannot load. Below is a session captured from the real server on 2026-07-27.'') loaded p
      else (case module_runs w of
          None \<Rightarrow> p
        | Some True \<Rightarrow> on_ready p
        | Some False \<Rightarrow>
            show_stored (lit ''The compiled code did not load here, so a session captured from the real server on 2026-07-27 is shown instead.'') loaded p))"

text \<open>The page before anything has run, over its markup.\<close>

definition page_of :: "slot list \<Rightarrow> control list \<Rightarrow> control \<Rightarrow> elem \<Rightarrow> demo" where
  "page_of slots chips run e =
     set_enabled False
       \<lparr>pg_ready = False, pg_lines = [], pg_slots = slots, pg_tape = e, pg_status = e, pg_live = e, pg_count = e,
        pg_input_disabled = False, pg_run = run, pg_chips = chips, pg_go = first_bridge\<rparr>"

section \<open>The tape\<close>

definition keep_last :: "nat \<Rightarrow> 'a list \<Rightarrow> 'a list" where
  "keep_last n xs = drop (length xs - n) xs"

lemma keep_last_short: "length xs \<le> n \<Longrightarrow> keep_last n xs = xs"
  by (simp add: keep_last_def)

lemma keep_last_append: "keep_last n (keep_last n xs @ ys) = keep_last n (xs @ ys)"
proof (cases "length xs \<le> n")
  case False
  then have "length xs + length ys - n = (length xs - n) + length ys"
    by simp
  with False show ?thesis
    by (simp add: keep_last_def add.commute)
qed (simp add: keep_last_short)

definition tape_of :: "jsstr list \<Rightarrow> bytes list \<Rightarrow> jsstr list" where
  "tape_of ls rs = concat (map2 (\<lambda>l r. [lit ''> '' @ l, chop_newline (to_js r)]) ls rs)"

lemma tape_push_lines: "pg_lines (tape_push l r p) = keep_last 200 (pg_lines p @ [lit ''> '' @ l, r])"
  by (simp add: tape_push_def keep_last_def Let_def)

lemma pg_paint [simp]:
  "pg_lines (paint_drawer rs t v p) = pg_lines p" "pg_go (paint_drawer rs t v p) = pg_go p"
  "pg_ready (paint_drawer rs t v p) = pg_ready p" "pg_tape (paint_drawer rs t v p) = pg_tape p"
  by (simp_all add: paint_drawer_def)

lemma pg_push [simp]:
  "pg_go (tape_push l r p) = pg_go p" "pg_ready (tape_push l r p) = pg_ready p"
  "pg_slots (tape_push l r p) = pg_slots p"
  "content (pg_tape (tape_push l r p)) = Text (join_lines (pg_lines (tape_push l r p)))"
  by (simp_all add: tape_push_def Let_def kit_simps)

lemma run_line_skips: "list_all js_space l \<Longrightarrow> run_line pr p l = p"
  by (simp add: run_line_def)

lemma run_line_runs:
  assumes "pg_ready p" "\<not> list_all js_space l"
  shows "pg_ready (run_line pr p l)"
    and "pg_go (run_line pr p l) = snd (eval_line pr (to_go l) (pg_go p))"
    and "pg_lines (run_line pr p l) =
      keep_last 200 (pg_lines p @ [lit ''> '' @ l, chop_newline (to_js (ev_reply (fst (eval_line pr (to_go l) (pg_go p)))))])"
    and "content (pg_tape (run_line pr p l)) = Text (join_lines (pg_lines (run_line pr p l)))"
    and "pg_slots (run_line pr p l) = pg_slots (paint_drawer (js_rows (ev_rows (fst (eval_line pr (to_go l) (pg_go p)))))
      (to_js (ev_touched (fst (eval_line pr (to_go l) (pg_go p)))))
      (to_js (ev_verb (fst (eval_line pr (to_go l) (pg_go p))))) p)"
    and "content (pg_count (run_line pr p l)) = content (pg_count (paint_drawer
      (js_rows (ev_rows (fst (eval_line pr (to_go l) (pg_go p))))) [] [] p))"
proof -
  let ?ev = "fst (eval_line pr (to_go l) (pg_go p))"
  let ?p1 = "tape_push l (chop_newline (to_js (ev_reply ?ev))) (p\<lparr>pg_go := snd (eval_line pr (to_go l) (pg_go p))\<rparr>)"
  let ?p2 = "paint_drawer (js_rows (ev_rows ?ev)) (to_js (ev_touched ?ev)) (to_js (ev_verb ?ev)) ?p1"
  obtain x y where "run_line pr p l = ?p2\<lparr>pg_status := x, pg_live := y\<rparr>"
    using assms by (simp add: run_line_def kvstore_eval_def case_prod_beta Let_def)
  then show "pg_ready (run_line pr p l)"
    "pg_go (run_line pr p l) = snd (eval_line pr (to_go l) (pg_go p))"
    "pg_lines (run_line pr p l) = keep_last 200 (pg_lines p @ [lit ''> '' @ l, chop_newline (to_js (ev_reply ?ev))])"
    "content (pg_tape (run_line pr p l)) = Text (join_lines (pg_lines (run_line pr p l)))"
    "pg_slots (run_line pr p l) = pg_slots (paint_drawer (js_rows (ev_rows ?ev)) (to_js (ev_touched ?ev)) (to_js (ev_verb ?ev)) p)"
    "content (pg_count (run_line pr p l)) = content (pg_count (paint_drawer (js_rows (ev_rows ?ev)) [] [] p))"
    using assms(1) by (simp_all add: tape_push_lines) (simp_all add: paint_drawer_def kit_simps)
qed

lemma run_lines_skip:
  "foldl (run_line pr) p (filter (\<lambda>l. \<not> list_all js_space l) ls) = foldl (run_line pr) p ls"
  by (induction ls arbitrary: p) (simp_all add: run_line_skips)

lemma run_lines_run:
  assumes "pg_ready p" "\<forall>l \<in> set ls. \<not> list_all js_space l" "length (pg_lines p) \<le> 200"
  shows "pg_ready (foldl (run_line pr) p ls) \<and>
    pg_go (foldl (run_line pr) p ls) = foldl (\<lambda>b l. snd (eval_line pr l b)) (pg_go p) (map to_go ls) \<and>
    pg_lines (foldl (run_line pr) p ls) =
      keep_last 200 (pg_lines p @ tape_of ls (page_replies pr (map to_go ls) (pg_go p)))"
  using assms
proof (induction ls arbitrary: p)
  case (Cons l ls)
  let ?p = "run_line pr p l"
  have l: "\<not> list_all js_space l" using Cons.prems(2) by simp
  note r = run_line_runs [OF Cons.prems(1) l, of pr]
  have "length (pg_lines ?p) \<le> 200"
    by (simp add: r(3) keep_last_def)
  with Cons.IH [OF r(1)] Cons.prems(2) have
    "pg_ready (foldl (run_line pr) ?p ls)"
    "pg_go (foldl (run_line pr) ?p ls) = foldl (\<lambda>b l. snd (eval_line pr l b)) (pg_go ?p) (map to_go ls)"
    "pg_lines (foldl (run_line pr) ?p ls) = keep_last 200 (pg_lines ?p @ tape_of ls (page_replies pr (map to_go ls) (pg_go ?p)))"
    by simp_all
  then show ?case
    by (simp add: r(2,3) keep_last_append tape_of_def case_prod_beta)
qed (simp add: keep_last_short tape_of_def)

text \<open>The tape element shows the lines as soon as there are any.\<close>

lemma tape_after:
  assumes "pg_ready p" "\<forall>l \<in> set ls. \<not> list_all js_space l"
  shows "content (pg_tape (foldl (run_line pr) p ls)) =
    (if ls = [] then content (pg_tape p) else Text (join_lines (pg_lines (foldl (run_line pr) p ls))))"
  using assms
proof (induction ls arbitrary: p)
  case (Cons l ls)
  then have l: "\<not> list_all js_space l" by simp
  note r = run_line_runs [OF Cons.prems(1) l, of pr]
  show ?case
    using Cons.IH [OF r(1)] Cons.prems(2) r(4) by (cases "ls = []") simp_all
qed simp

text \<open>
  The server takes the return at the end of a line for a part of its ending; the parser does so anyway.
\<close>

lemma answer_drop_cr: "answer pr st (drop_cr l) s = answer pr st l s"
proof -
  have "trim_eol (drop_cr l) = trim_eol l"
    by (cases l rule: rev_cases) (simp_all add: drop_cr_def trim_eol_def)
  then show ?thesis by (simp add: answer_def parse_def)
qed

lemma answer_lines_drop_cr: "answer_lines pr st w n (map drop_cr ls) s = answer_lines pr st w n ls s"
  by (induction ls arbitrary: n s) (simp_all add: answer_drop_cr case_prod_beta)

lemma answer_lines_handle:
  assumes "\<forall>l \<in> set ls. sendable l"
  shows "answer_lines pr st w 0 ls s = handle pr st w (wire ls) s"
  using scan_wire [OF assms, of "[]"] by (simp add: handle_def answer_lines_drop_cr)

section \<open>The drawer\<close>

text \<open>What is seen of a slot, and the part of it that painting never changes.\<close>

definition look :: "elem \<Rightarrow> content \<times> (string \<rightharpoonup> jsstr)" where
  "look e = (content e, attrs e)"

definition slot_look ::
  "slot \<Rightarrow> (content \<times> (string \<rightharpoonup> jsstr)) \<times> (content \<times> (string \<rightharpoonup> jsstr)) \<times> (content \<times> (string \<rightharpoonup> jsstr)) \<times> (content \<times> (string \<rightharpoonup> jsstr))" where
  "slot_look s = (look (sl_slot s), look (sl_key s), look (sl_val s), look (sl_mark s))"

definition slot_base ::
  "slot \<Rightarrow> content \<times> (string \<rightharpoonup> jsstr) \<times> (string \<rightharpoonup> jsstr) \<times> (string \<rightharpoonup> jsstr) \<times> (string \<rightharpoonup> jsstr)" where
  "slot_base s = (content (sl_slot s), (attrs (sl_slot s))(''data-touch'' := None, ''aria-label'' := None),
     attrs (sl_key s), attrs (sl_val s), attrs (sl_mark s))"

lemma attrs_set [simp]:
  "attrs (set_text s e) = attrs e" "attrs (set_html s e) = attrs e" "attrs (set_attr a v e) = (attrs e)(a \<mapsto> v)"
  by (simp_all add: set_text_def set_html_def set_attr_def)

lemma slot_base_paint [simp]: "slot_base (paint_slot i r t v s) = slot_base s"
  by (auto simp: slot_base_def paint_slot_def kit_simps Let_def fun_eq_iff split: option.split prod.split)

lemma upd2_cong:
  "f(a := None, b := None) = g(a := None, b := None) \<Longrightarrow> f(a \<mapsto> x, b \<mapsto> y) = g(a \<mapsto> x, b \<mapsto> y)"
  by (metis fun_upd_twist fun_upd_upd)

lemma slot_look_paint:
  assumes "slot_base s = slot_base s'"
  shows "slot_look (paint_slot i r t v s) = slot_look (paint_slot i r t v s')"
  using assms upd2_cong [of "attrs (sl_slot s)" "''data-touch''" "''aria-label''" "attrs (sl_slot s')"]
  by (auto simp: slot_base_def slot_look_def look_def paint_slot_def kit_simps Let_def split: option.split prod.split)

lemma slots_paint: "pg_slots (paint_drawer rs t v p) =
    map (\<lambda>i. paint_slot i (row_at rs i) t v (pg_slots p ! i)) [0..<length (pg_slots p)]"
  by (rule nth_equalityI) (simp_all add: paint_drawer_def nth_enumerate_eq)

lemma bases_paint: "map slot_base (pg_slots (paint_drawer rs t v p)) = map slot_base (pg_slots p)"
  by (rule nth_equalityI) (simp_all add: slots_paint)

lemma looks_paint:
  assumes "map slot_base (pg_slots p) = map slot_base (pg_slots q)"
  shows "map slot_look (pg_slots (paint_drawer rs t v p)) = map slot_look (pg_slots (paint_drawer rs t v q))"
proof (rule nth_equalityI)
  have len: "length (pg_slots p) = length (pg_slots q)"
    using assms by (rule map_eq_imp_length_eq)
  then show "length (map slot_look (pg_slots (paint_drawer rs t v p))) = length (map slot_look (pg_slots (paint_drawer rs t v q)))"
    by (simp add: slots_paint)
  fix i assume "i < length (map slot_look (pg_slots (paint_drawer rs t v p)))"
  then have i: "i < length (pg_slots p)" by (simp add: slots_paint)
  then have "slot_base (pg_slots p ! i) = slot_base (pg_slots q ! i)"
    using assms len by (metis nth_map)
  note same = slot_look_paint [OF this]
  from i len show "map slot_look (pg_slots (paint_drawer rs t v p)) ! i = map slot_look (pg_slots (paint_drawer rs t v q)) ! i"
    by (simp add: slots_paint same)
qed

text \<open>What the slots and the count say, for some rows.\<close>

definition shows_rows :: "(jsstr \<times> jsstr) list \<Rightarrow> demo \<Rightarrow> bool" where
  "shows_rows rs p \<longleftrightarrow>
     (\<forall>i < length (pg_slots p).
        content (sl_key (pg_slots p ! i)) = Text (if i < length rs then fst (rs ! i) else []) \<and>
        (i < length rs \<longrightarrow> content (sl_val (pg_slots p ! i)) =
           Text (if snd (rs ! i) = [] then lit ''(empty text)'' else snd (rs ! i)))) \<and>
     content (pg_count p) =
       Text (if length rs = 1 then lit ''1 label stored'' else lit (dec (length rs) @ '' labels stored''))"

lemma key_painted: "content (sl_key (paint_slot i r t v s)) = Text (case r of None \<Rightarrow> [] | Some kv \<Rightarrow> fst kv)"
  by (cases r) (simp_all add: paint_slot_def kit_simps Let_def split_beta)

lemma val_painted:
  "content (sl_val (paint_slot i (Some kv) t v s)) = Text (if snd kv = [] then lit ''(empty text)'' else snd kv)"
  by (simp add: paint_slot_def kit_simps Let_def split_beta)

lemma shows_rows_paint: "shows_rows rs (paint_drawer rs t v p)"
proof -
  have "content (pg_count (paint_drawer rs t v p)) =
      Text (if length rs = 1 then lit ''1 label stored'' else lit (dec (length rs) @ '' labels stored''))"
    by (simp add: paint_drawer_def kit_simps)
  then show ?thesis
    by (simp add: shows_rows_def slots_paint key_painted val_painted row_at_def)
qed

lemma shows_rows_cong: "pg_slots q = pg_slots p \<Longrightarrow> content (pg_count q) = content (pg_count p) \<Longrightarrow>
  shows_rows rs q = shows_rows rs p"
  by (simp add: shows_rows_def)

lemma shows_rows_run:
  assumes "pg_ready p" "\<not> list_all js_space l"
  shows "shows_rows (js_rows (rows (pg_go (run_line pr p l)))) (run_line pr p l)"
proof -
  let ?e = "eval_line pr (to_go l) (pg_go p)"
  let ?q = "paint_drawer (js_rows (ev_rows (fst ?e))) (to_js (ev_touched (fst ?e))) (to_js (ev_verb (fst ?e))) p"
  note r = run_line_runs [OF assms, of pr]
  have "shows_rows (js_rows (ev_rows (fst ?e))) ?q"
    by (rule shows_rows_paint)
  moreover have "content (pg_count ?q) = content (pg_count (run_line pr p l))"
    unfolding r(6) by (simp add: paint_drawer_def kit_simps)
  ultimately have "shows_rows (js_rows (ev_rows (fst ?e))) (run_line pr p l)"
    using shows_rows_cong [of "run_line pr p l" ?q] r(5) by simp
  then show ?thesis
    by (simp add: r(2) eval_line_rows)
qed

lemma shows_rows_after:
  assumes "pg_ready p" "\<forall>l \<in> set ls. \<not> list_all js_space l" "length (pg_lines p) \<le> 200"
    and "shows_rows (js_rows (rows (pg_go p))) p"
  shows "shows_rows (js_rows (rows (pg_go (foldl (run_line pr) p ls)))) (foldl (run_line pr) p ls)"
  using assms(2)
proof (induction ls rule: rev_induct)
  case (snoc l ls)
  have "pg_ready (foldl (run_line pr) p ls)"
    using run_lines_run [OF assms(1) _ assms(3)] snoc.prems by simp
  with snoc.prems show ?case by (simp add: shows_rows_run)
qed (use assms(4) in simp)

section \<open>The program and the recording on the page\<close>

lemma bridge_store_after:
  "br_store (foldl (\<lambda>b l. snd (eval_line pr l b)) b ls) = snd (answer_lines pr memory_ops (\<lambda>_. True) n ls (br_store b))"
  by (induction ls arbitrary: b n) (simp_all add: case_prod_beta flip: eval_line_answer [THEN conjunct2])

lemma pg_enabled [simp]:
  "pg_lines (set_enabled on p) = pg_lines p" "pg_go (set_enabled on p) = pg_go p"
  "pg_ready (set_enabled on p) = pg_ready p" "pg_slots (set_enabled on p) = pg_slots p"
  by (simp_all add: set_enabled_def)

lemma ready_page:
  "pg_ready (on_ready (page_of sl ch r e))" "pg_lines (on_ready (page_of sl ch r e)) = []"
  "pg_go (on_ready (page_of sl ch r e)) = first_bridge"
  "pg_tape (on_ready (page_of sl ch r e)) = e"
  "map slot_base (pg_slots (on_ready (page_of sl ch r e))) = map slot_base sl"
  "shows_rows [] (on_ready (page_of sl ch r e))"
  using shows_rows_paint
  by (simp_all add: on_ready_def bases_paint) (simp_all add: page_of_def set_enabled_def)

lemma rows_first: "rows first_bridge = []"
  by (simp add: rows_def first_bridge_def)

definition recorded_session :: stored_session where
  "recorded_session =
     \<lparr>st_lines = map (\<lambda>x. (lit (ex_command x), lit (ex_reply x))) captured_lines,
      st_rows = map (\<lambda>(k, v). (lit k, lit v)) captured_final_state\<rparr>"

lemma captured_ascii:
  "\<forall>x \<in> set captured_lines. ascii (ex_command x) \<and> ascii (ex_reply x)"
  "js_rows captured_final_state = st_rows recorded_session"
  by (simp_all add: captured_lines_def captured_final_state_def recorded_session_def js_rows_def to_js_ascii)

lemma chop_reply: "ascii s \<Longrightarrow> chop_newline (to_js (s @ [newline])) = lit s"
proof -
  assume "ascii s"
  then have "to_js (s @ [newline]) = lit (s @ [newline])"
    by (intro to_js_ascii) (auto simp: ascii_def)
  then show ?thesis
    by (simp add: lit_def chop_newline_def code_unit_def)
qed

lemma recorded_tape:
  "tape_of (map (lit \<circ> ex_command) xs) (map (\<lambda>x. ex_reply x @ [newline]) xs) =
     concat (map (\<lambda>(c, r). [lit ''> '' @ c, r]) (map (\<lambda>x. (lit (ex_command x), lit (ex_reply x))) xs))"
  if "\<forall>x \<in> set xs. ascii (ex_command x) \<and> ascii (ex_reply x)"
  using that by (induction xs) (simp_all add: tape_of_def chop_reply)

lemma captured_not_blank: "\<forall>l \<in> set (map (lit \<circ> ex_command) captured_lines). \<not> list_all js_space l"
  by (simp add: captured_lines_def lit_Cons js_space_def unat_code_unit)

lemma captured_to_go: "map to_go (map (lit \<circ> ex_command) captured_lines) = captured_commands"
  using captured_ascii(1) by (simp add: captured_commands_def to_go_ascii)

lemma bases_runs:
  assumes "pg_ready p" "\<forall>l \<in> set ls. \<not> list_all js_space l"
  shows "map slot_base (pg_slots (foldl (run_line pr) p ls)) = map slot_base (pg_slots p)"
  using assms
proof (induction ls arbitrary: p)
  case (Cons l ls)
  then have l: "\<not> list_all js_space l" by simp
  note r = run_line_runs [OF Cons.prems(1) l, of pr]
  show ?case
    using Cons.IH [OF r(1)] Cons.prems(2) by (simp add: r(5) bases_paint)
qed simp

section \<open>Properties\<close>

text \<open>
  C27: the page shows the program. Once Go is ready, after any typed lines the tape element holds, line
  by line, the last hundred exchanges of the conversation that the server's loop has with the same lines
  (as UTF-8, blank ones apart), the store is the one that loop leaves, and the drawer and its count show
  the rows of that store. When every line fits the 64 KB of the server's scanner, the conversation is
  the one that the TCP server has with a client that sends these lines. Before Go is ready typing changes
  nothing.
\<close>

theorem page_shows_the_program:
  assumes "q = foldl (run_line pr) (on_ready (page_of sl ch r e)) ls"
    and "cs = filter (\<lambda>l. \<not> list_all js_space l) ls"
    and "conversation = answer_lines pr memory_ops (\<lambda>_. True) 0 (map to_go cs) new_memory_store"
  shows "content (pg_tape q) =
      (if cs = [] then content e else Text (join_lines (keep_last 200 (tape_of cs (fst conversation))))) \<and>
    pg_lines q = keep_last 200 (tape_of cs (fst conversation)) \<and>
    br_store (pg_go q) = snd conversation \<and>
    shows_rows (js_rows (rows (after_lines pr (map to_go cs)))) q \<and>
    pg_go q = after_lines pr (map to_go cs) \<and>
    ((\<forall>l \<in> set cs. sendable (to_go l)) \<longrightarrow>
       conversation = handle pr memory_ops (\<lambda>_. True) (wire (map to_go cs)) new_memory_store) \<and>
    foldl (run_line pr) (page_of sl ch r e) ls = page_of sl ch r e"
proof -
  have q: "q = foldl (run_line pr) (on_ready (page_of sl ch r e)) cs"
    by (simp add: assms(1,2) run_lines_skip)
  have cs: "\<forall>l \<in> set cs. \<not> list_all js_space l"
    by (simp add: assms(2))
  note run = run_lines_run [OF ready_page(1) cs, of sl ch r e pr]
  have go: "pg_go q = after_lines pr (map to_go cs)"
    using run by (simp add: q ready_page after_lines_def)
  moreover have lines: "pg_lines q = keep_last 200 (tape_of cs (fst conversation))"
    using run page_replies_answers [of pr "map to_go cs" first_bridge 0]
    by (simp add: q ready_page assms(3) first_bridge_def)
  moreover have "br_store (pg_go q) = snd conversation"
    using bridge_store_after [of pr first_bridge "map to_go cs" 0]
    by (simp add: go after_lines_def assms(3) first_bridge_def)
  moreover have "shows_rows (js_rows (rows (pg_go q))) q"
    unfolding q using ready_page(2,6) rows_first
    by (intro shows_rows_after [OF ready_page(1) cs]) (simp_all add: ready_page js_rows_def)
  moreover have "content (pg_tape q) = (if cs = [] then content e else Text (join_lines (pg_lines q)))"
    unfolding q using tape_after [OF ready_page(1) [of sl ch r e] cs, of pr] by (simp add: ready_page)
  moreover have "conversation = handle pr memory_ops (\<lambda>_. True) (wire (map to_go cs)) new_memory_store"
    if "\<forall>l \<in> set cs. sendable (to_go l)"
    unfolding assms(3) using that by (intro answer_lines_handle) simp
  moreover have "foldl (run_line pr) p ls = p" if "\<not> pg_ready p" for p
    using that by (induction ls) (simp_all add: run_line_def)
  then have "foldl (run_line pr) (page_of sl ch r e) ls = page_of sl ch r e"
    by (simp add: page_of_def set_enabled_def)
  ultimately show ?thesis unfolding lines [symmetric] by (intro conjI impI) (simp_all only:)
qed

theorem page_shows_the_program_witness:
  "content (pg_tape (foldl (run_line (\<lambda>_. True)) (on_ready (page_of [] [] \<lparr>ctl_elem = blank_elem, ctl_disabled = False\<rparr> blank_elem))
      [lit ''GET name'', lit '' ''])) = Text (join_lines [lit ''> GET name'', lit ''(nil)''])"
proof -
  have "filter (\<lambda>l. \<not> list_all js_space l) [lit ''GET name'', lit '' ''] = [lit ''GET name'']"
    by (simp add: lit_Cons js_space_def unat_code_unit)
  moreover have "answer_lines (\<lambda>_. True) memory_ops (\<lambda>_. True) 0 [''GET name''] new_memory_store =
      ([''(nil)'' @ [newline]], new_memory_store)"
    by (simp add: answer_def captured_parses execute_def memory_ops_def mem_get_def new_memory_store_def reply_nil_def)
  moreover have "to_go (lit ''GET name'') = ''GET name''"
    by (simp add: to_go_ascii)
  ultimately show ?thesis
    using page_shows_the_program [OF refl refl refl, of "\<lambda>_. True" "[]" "[]"
        "\<lparr>ctl_elem = blank_elem, ctl_disabled = False\<rparr>" blank_elem "[lit ''GET name'', lit '' '']"]
      chop_reply [of "''(nil)''"]
    by (simp add: tape_of_def keep_last_short) (simp add: lit_Cons)
qed

text \<open>
  C28: the recording stands in for the program. Opened as a local file, the page shows the same tape, the
  same slots, attributes included, and the same count as a page whose Go code runs and into which the
  recorded commands have been typed. Status text and controls, which tell the two pages apart, are no part
  of this.
\<close>

theorem recording_looks_like_the_program:
  assumes "page_protocol w = Protocol (lit ''file:'')" and "has_webassembly w" and "has_go_class w"
    and "live = foldl (run_line pr) (on_ready (page_of sl ch r e)) (map (lit \<circ> ex_command) captured_lines)"
    and "stored = boot w (Resolved (Some recorded_session)) (page_of sl ch r e)"
  shows "pg_lines live = pg_lines stored \<and> content (pg_tape live) = content (pg_tape stored) \<and>
    map slot_look (pg_slots live) = map slot_look (pg_slots stored) \<and>
    content (pg_count live) = content (pg_count stored)"
proof -
  let ?p = "on_ready (page_of sl ch r e)" and ?cs = "map (lit \<circ> ex_command) captured_lines"
  let ?init = "map (lit \<circ> ex_command) (butlast captured_lines)"
  let ?p1 = "foldl (run_line pr) ?p ?init"
  have split: "?cs = ?init @ [lit ''GET'']"
    by (simp add: captured_lines_def)
  then have live: "live = run_line pr ?p1 (lit ''GET'')"
    by (simp only: assms(4) foldl_append foldl.simps)
  have nb: "\<forall>l \<in> set ?init. \<not> list_all js_space l" "\<not> list_all js_space (lit ''GET'')"
    using captured_not_blank unfolding split by simp_all
  have r1: "pg_ready ?p1"
    using run_lines_run [OF ready_page(1) nb(1), of sl ch r e pr] by (simp add: ready_page)
  have run: "pg_lines live = keep_last 200 (tape_of ?cs (page_replies pr captured_commands first_bridge))"
    "pg_go live = after_lines pr captured_commands"
    using run_lines_run [OF ready_page(1) captured_not_blank, of sl ch r e pr]
    unfolding captured_to_go by (simp_all add: assms(4) ready_page after_lines_def)
  have "page_replies pr captured_commands first_bridge = map (\<lambda>x. ex_reply x @ [newline]) captured_lines"
    using captured_answers [of pr 0] by (simp add: page_replies_answers [where n = 0] first_bridge_def)
  then have "tape_of ?cs (page_replies pr captured_commands first_bridge) =
      concat (map (\<lambda>(c, r). [lit ''> '' @ c, r]) (st_lines recorded_session))"
    using recorded_tape [OF captured_ascii(1)] by (simp add: recorded_session_def)
  moreover have "length (concat (map (\<lambda>(c, r). [lit ''> '' @ c, r]) (st_lines recorded_session))) \<le> 200"
    by (simp add: recorded_session_def captured_lines_def)
  ultimately have lines: "pg_lines live = concat (map (\<lambda>(c, r). [lit ''> '' @ c, r]) (st_lines recorded_session))"
    using run(1) by (simp add: keep_last_short)
  obtain z where stored: "stored = paint_drawer (st_rows recorded_session) [] [] z" "pg_slots z = sl"
    "pg_lines z = concat (map (\<lambda>(c, r). [lit ''> '' @ c, r]) (st_lines recorded_session))"
    "content (pg_tape z) = Text (join_lines (pg_lines z))"
    using assms(1-3,5)
    by (simp add: boot_def show_stored_def page_of_def set_enabled_def Let_def kit_simps)
  have ev: "ev_touched (fst (eval_line pr ''GET'' b)) = []" "ev_verb (fst (eval_line pr ''GET'' b)) = []" for b
    by (simp_all add: eval_line_def captured_parses)
  have g: "to_go (lit ''GET'') = ''GET''" "to_js [] = []"
    by (simp_all add: to_go_ascii to_js_ascii)
  note last = run_line_runs [OF r1 nb(2), of pr, unfolded g(1) ev g(2), folded live]
  have rows: "js_rows (ev_rows (fst (eval_line pr ''GET'' (pg_go ?p1)))) = st_rows recorded_session"
    using last(2) run(2) captured_rows [of pr] captured_ascii(2) by (simp add: eval_line_rows)
  have "map slot_base (pg_slots ?p1) = map slot_base sl"
    using bases_runs [OF ready_page(1) nb(1)] ready_page(5) by simp
  then have "map slot_look (pg_slots live) = map slot_look (pg_slots stored)"
    unfolding last(5) stored(1) rows using looks_paint [of ?p1 z] stored(2) by simp
  moreover have "content (pg_count live) = content (pg_count stored)"
    unfolding last(6) stored(1) rows by (simp add: paint_drawer_def kit_simps)
  ultimately show ?thesis
    using last(4) lines stored by simp
qed

definition local_file :: browser where
  "local_file = \<lparr>has_webassembly = True, has_go_class = True, page_protocol = Protocol (lit ''file:''), module_runs = None\<rparr>"

definition one_slot :: slot where
  "one_slot = \<lparr>sl_slot = blank_elem, sl_key = blank_elem, sl_val = blank_elem, sl_mark = blank_elem\<rparr>"

definition run_button :: control where
  "run_button = \<lparr>ctl_elem = blank_elem, ctl_disabled = False\<rparr>"

theorem recording_looks_like_the_program_witness:
  "map slot_look (pg_slots (foldl (run_line (\<lambda>_. True)) (on_ready (page_of [one_slot] [] run_button blank_elem))
      (map (lit \<circ> ex_command) captured_lines))) =
   map slot_look (pg_slots (boot local_file (Resolved (Some recorded_session)) (page_of [one_slot] [] run_button blank_elem)))"
  using recording_looks_like_the_program [of local_file, OF _ _ _ refl refl, of "\<lambda>_. True" "[one_slot]" "[]" run_button blank_elem]
  by (simp add: local_file_def)

end
