(* ===== verification/Bench.thy ===== *)
theory Bench
  imports KvWeb
begin

text \<open>
  The load harness (bench/main.go): the flags it parses, the lines its clients send, and the figures
  it makes of what it measured. Times are whole numbers of nanoseconds, throughputs rationals; the
  rounding of the one floating-point product is a parameter.
\<close>

section \<open>Numbers as text\<close>

text \<open>\<open>itoa\<close> fills its buffer of 20 bytes from the end.\<close>

fun itoa_loop :: "nat \<Rightarrow> bytes \<Rightarrow> bytes" where
  "itoa_loop n b = (if n = 0 then b else itoa_loop (n div 10) (char_of (48 + n mod 10) # b))"

declare itoa_loop.simps [simp del]

definition itoa :: "nat \<Rightarrow> bytes" where
  "itoa n = (if n = 0 then ''0'' else itoa_loop n [])"

section \<open>Flags\<close>

fun split_comma :: "bytes \<Rightarrow> bytes list" where
  "split_comma [] = [[]]"
| "split_comma (c # cs) =
     (if c = CHR '','' then [] # split_comma cs
      else (case split_comma cs of f # fs \<Rightarrow> (c # f) # fs | [] \<Rightarrow> [[c]]))"

definition is_digit :: "char \<Rightarrow> bool" where
  "is_digit c \<longleftrightarrow> between 48 57 (byte c)"

text \<open>
  \<open>fmt.Sscanf(f, "%d", &n)\<close>: a sign, then as many digits as there are, at most the range of an
  \<open>int\<close>; whatever follows them is not read.
\<close>

definition sscanf_int :: "bytes \<Rightarrow> int option" where
  "sscanf_int f =
     (let (neg, r) = (case f of [] \<Rightarrow> (False, [])
            | c # cs \<Rightarrow> if c = CHR ''-'' then (True, cs) else if c = CHR ''+'' then (False, cs) else (False, f));
          ds = takeWhile is_digit r; n = (if neg then - int (undec 0 ds) else int (undec 0 ds))
      in if ds = [] \<or> n < - (2 ^ 63) \<or> 2 ^ 63 \<le> n then None else Some n)"

datatype flag_error = BadCount bytes | NoCounts | UnknownWorkload bytes | NoWorkloads

fun parse_counts :: "bytes list \<Rightarrow> flag_error + int list" where
  "parse_counts [] = Inr []"
| "parse_counts (f0 # fs) =
     (let f = trim_space f0 in
      if f = [] then parse_counts fs
      else (case sscanf_int f of
          None \<Rightarrow> Inl (BadCount f)
        | Some n \<Rightarrow>
            if n < 1 then Inl (BadCount f)
            else (case parse_counts fs of Inl e \<Rightarrow> Inl e | Inr ns \<Rightarrow> Inr (n # ns))))"

definition parse_ints :: "bytes \<Rightarrow> flag_error + int list" where
  "parse_ints s =
     (case parse_counts (split_comma s) of
        Inl e \<Rightarrow> Inl e
      | Inr ns \<Rightarrow> if ns = [] then Inl NoCounts else Inr ns)"

record workload =
  wl_name :: bytes
  wl_read_ratio :: rat

fun parse_names :: "bytes list \<Rightarrow> flag_error + workload list" where
  "parse_names [] = Inr []"
| "parse_names (f # fs) =
     (let name = trim_space f;
          more = (\<lambda>ratio. case parse_names fs of Inl e \<Rightarrow> Inl e
            | Inr ws \<Rightarrow> Inr (\<lparr>wl_name = name, wl_read_ratio = ratio\<rparr> # ws)) in
      if name = [] then parse_names fs
      else if name = ''get'' then more 1
      else if name = ''set'' then more 0
      else if name = ''mixed'' then more (9 / 10)
      else Inl (UnknownWorkload name))"

definition parse_workloads :: "bytes \<Rightarrow> flag_error + workload list" where
  "parse_workloads s =
     (case parse_names (split_comma s) of
        Inl e \<Rightarrow> Inl e
      | Inr ws \<Rightarrow> if ws = [] then Inl NoWorkloads else Inr ws)"

section \<open>What the clients send\<close>

definition bench_key :: "nat \<Rightarrow> bytes" where
  "bench_key i = ''key'' @ itoa i"

text \<open>One turn of \<open>run\<close>: whether the random numbers made it a GET, and of which key.\<close>

definition bench_line :: "bytes \<Rightarrow> bool \<times> nat \<Rightarrow> bytes" where
  "bench_line val pick =
     (if fst pick then ''GET '' @ bench_key (snd pick) else ''SET '' @ bench_key (snd pick) @ '' '' @ val)"

definition populate_lines :: "nat \<Rightarrow> bytes \<Rightarrow> bytes list" where
  "populate_lines keys val = map (\<lambda>i. ''SET '' @ bench_key i @ '' '' @ val) [0..<keys]"

text \<open>The replies that end a run with an error.\<close>

definition unexpected :: "bytes \<Rightarrow> bool" where
  "unexpected reply \<longleftrightarrow> take 4 reply = ''ERR '' \<or> reply = ''(nil)'' @ [newline]"

section \<open>Figures\<close>

record bench_result =
  br_ops :: nat
  br_dur :: nat
  br_lat :: "nat list"

definition ops_per_sec :: "bench_result \<Rightarrow> rat" where
  "ops_per_sec r = of_nat (br_ops r) / (of_nat (br_dur r) / 1000000000)"

definition slowest :: "bench_result \<Rightarrow> nat" where
  "slowest r = (if br_lat r = [] then 0 else last (br_lat r))"

text \<open>\<open>fl\<close> rounds the two operations of \<open>p / 100 * float64(len(r.lat))\<close>.\<close>

definition pct :: "(rat \<Rightarrow> rat) \<Rightarrow> rat \<Rightarrow> bench_result \<Rightarrow> nat" where
  "pct fl p r =
     (if br_lat r = [] then 0
      else let n = length (br_lat r); i = nat \<lfloor>fl (fl (p / 100) * of_nat n)\<rfloor> in
        br_lat r ! (if n \<le> i then n - 1 else i))"

text \<open>\<open>repeat\<close> over the outcomes of its runs; \<open>Panics\<close> is the index out of range of no runs at all.\<close>

datatype 'e cell = Failed 'e | Panics | Median bench_result rat

fun all_runs :: "('e + bench_result) list \<Rightarrow> 'e + bench_result list" where
  "all_runs [] = Inr []"
| "all_runs (Inl e # _) = Inl e"
| "all_runs (Inr r # os) = (case all_runs os of Inl e \<Rightarrow> Inl e | Inr rs \<Rightarrow> Inr (r # rs))"

definition repeat_cell :: "('e + bench_result) list \<Rightarrow> 'e cell" where
  "repeat_cell outcomes =
     (case all_runs outcomes of
        Inl e \<Rightarrow> Failed e
      | Inr rs0 \<Rightarrow>
          (let rs = sort_key ops_per_sec rs0 in
           if rs = [] then Panics
           else let med = rs ! (length rs div 2) in
             if ops_per_sec med = 0 then Median med 0
             else Median med ((ops_per_sec (last rs) - ops_per_sec (hd rs)) / ops_per_sec med)))"

section \<open>Lemmas\<close>

lemma itoa_loop_dec: "0 < n \<Longrightarrow> itoa_loop n b = dec n @ b"
proof (induction n b rule: itoa_loop.induct)
  case (1 n b)
  then show ?case
    by (cases "n < 10")
      (simp_all add: itoa_loop.simps [of n] itoa_loop.simps [of 0] dec.simps [of n] digit_char_def)
qed

lemma char_zero: "char_of (48 :: nat) = CHR ''0''"
  by (simp add: char_of_eq_iff take_bit_eq_mod)

lemma itoa_dec: "itoa n = dec n"
  by (simp add: itoa_def itoa_loop_dec) (simp add: dec.simps digit_char_def char_zero)

lemma dec_digits: "c \<in> set (dec n) \<Longrightarrow> is_digit c"
proof (induction n rule: dec.induct)
  case (1 n)
  then show ?case
    by (subst (asm) dec.simps) (auto simp: is_digit_def between_def byte_def digit_char_value split: if_splits)
qed

lemma key_plain: "c \<in> set (bench_key i) \<Longrightarrow> c \<noteq> newline \<and> c \<noteq> return \<and> c \<noteq> CHR '' ''"
  using dec_digits [of c i] by (auto simp: bench_key_def itoa_dec is_digit_def between_def byte_def)

lemma key_nonempty [simp]: "bench_key i \<noteq> []"
  by (simp add: bench_key_def)

lemma key_inject: "bench_key i = bench_key j \<longleftrightarrow> i = j"
  by (simp add: bench_key_def itoa_dec)

definition bench_command :: "bytes \<Rightarrow> bool \<times> nat \<Rightarrow> command" where
  "bench_command val pick =
     (if fst pick then \<lparr>cmd_op = OpGet, cmd_key = bench_key (snd pick), cmd_value = []\<rparr>
      else \<lparr>cmd_op = OpSet, cmd_key = bench_key (snd pick), cmd_value = val\<rparr>)"

lemma bench_line_command: "bench_line val pick = command_line (bench_command val pick)"
  by (simp add: bench_line_def bench_command_def command_line_def arguments_def)

lemma populate_bench: "populate_lines keys val = map (bench_line val) (map (Pair False) [0..<keys])"
  by (simp add: populate_lines_def bench_line_def)

definition plain_value :: "nat \<Rightarrow> bytes" where
  "plain_value width = replicate width (CHR ''x'')"

lemma bench_talkable:
  assumes "sendable (bench_line (plain_value width) pick)"
  shows "talkable (bench_command (plain_value width) pick)"
proof -
  have key: "last (bench_key (snd pick)) \<noteq> return \<and> last (bench_key (snd pick)) \<noteq> newline"
    "CHR '' '' \<notin> set (bench_key (snd pick))"
    using key_plain last_in_set [OF key_nonempty] by blast+
  have "last (CHR '' '' # plain_value width) \<in> {CHR '' '', CHR ''x''}"
    using last_in_set [of "CHR '' '' # plain_value width"] by (auto simp: plain_value_def)
  then have "last (CHR '' '' # plain_value width) \<noteq> return \<and> last (CHR '' '' # plain_value width) \<noteq> newline"
    by auto
  with key have "well_formed (bench_command (plain_value width) pick)" "eol_free (arguments (bench_command (plain_value width) pick))"
    by (auto simp: bench_command_def well_formed_def arguments_def eol_free_def)
  with assms show ?thesis
    by (simp add: talkable_def bench_line_command)
qed

text \<open>Every key of the working set is in the store, with the one value.\<close>

definition seeded :: "nat \<Rightarrow> bytes \<Rightarrow> memory_store \<Rightarrow> bool" where
  "seeded keys val s \<longleftrightarrow> (\<forall>i < keys. data s (bench_key i) = Some val)"

definition expected :: "bytes \<Rightarrow> bool \<times> nat \<Rightarrow> bytes" where
  "expected val pick = (if fst pick then val else ''OK'') @ [newline]"

lemma bench_answer:
  assumes "sendable (bench_line (plain_value width) pick)"
  shows "answer p memory_ops (drop_cr (bench_line (plain_value width) pick)) s =
    (if fst pick then (case data s (bench_key (snd pick)) of None \<Rightarrow> reply_nil | Some v \<Rightarrow> reply_value v, s)
     else (reply_ok, s\<lparr>data := (data s)(bench_key (snd pick) \<mapsto> plain_value width)\<rparr>))"
  unfolding bench_line_command answer_talkable [OF bench_talkable [OF assms]]
  by (simp add: bench_command_def execute_def memory_ops_def mem_get_def mem_set_def split: option.split)

lemma bench_answers:
  assumes "\<forall>pick \<in> set picks. sendable (bench_line (plain_value width) pick) \<and> snd pick < keys"
    and "seeded keys (plain_value width) s"
  shows "fst (answer_lines p memory_ops (\<lambda>_. True) n (map (drop_cr \<circ> bench_line (plain_value width)) picks) s) =
      map (expected (plain_value width)) picks \<and>
    seeded keys (plain_value width)
      (snd (answer_lines p memory_ops (\<lambda>_. True) n (map (drop_cr \<circ> bench_line (plain_value width)) picks) s))"
  using assms
proof (induction picks arbitrary: n s)
  case (Cons pick picks)
  let ?a = "answer p memory_ops (drop_cr (bench_line (plain_value width) pick)) s"
  have "sendable (bench_line (plain_value width) pick)" using Cons.prems(1) by simp
  note a = bench_answer [OF this, of p s]
  have "fst ?a = expected (plain_value width) pick" "seeded keys (plain_value width) (snd ?a)"
    using Cons.prems by (auto simp: a seeded_def expected_def reply_value_def reply_ok_def)
  with Cons.IH [of "snd ?a" "Suc n"] Cons.prems(1) show ?case
    by (simp add: case_prod_beta)
qed simp

lemma answer_lines_append:
  "snd (answer_lines p st (\<lambda>_. True) n (xs @ ys) s) =
   snd (answer_lines p st (\<lambda>_. True) (n + length xs) ys (snd (answer_lines p st (\<lambda>_. True) n xs s)))"
  by (induction xs arbitrary: n s) (simp_all add: case_prod_beta)

lemma populate_seeds:
  assumes "\<forall>i < keys. sendable (bench_line (plain_value width) (False, i))"
  shows "seeded keys (plain_value width)
    (snd (handle p memory_ops (\<lambda>_. True) (wire (populate_lines keys (plain_value width))) s))"
proof -
  have "seeded k (plain_value width) (snd (answer_lines p memory_ops (\<lambda>_. True) n
      (map (drop_cr \<circ> bench_line (plain_value width)) (map (Pair False) [0..<k])) s))" if "k \<le> keys" for k n
    using that
  proof (induction k)
    case (Suc k)
    let ?ls = "map (drop_cr \<circ> bench_line (plain_value width)) (map (Pair False) [0..<k])"
    have "sendable (bench_line (plain_value width) (False, k))" using assms Suc.prems by simp
    note a = bench_answer [OF this]
    from Suc show ?case
      by (auto simp: answer_lines_append a seeded_def less_Suc_eq case_prod_beta simp del: map_map)
  qed (simp add: seeded_def)
  moreover have "scan (wire (populate_lines keys (plain_value width)) @ []) =
      map drop_cr (populate_lines keys (plain_value width)) @ scan []"
    using assms by (intro scan_wire) (auto simp: populate_bench)
  ultimately show ?thesis
    by (simp add: handle_def populate_bench comp_def)
qed

section \<open>Properties\<close>

text \<open>
  The benchmark measures what it says: once the working set has been written, whatever was in the
  store before, every GET that a client sends is a hit that returns the whole value, every SET is
  acknowledged, and no reply ever ends the run, whatever keys and mixes the random numbers pick, as
  long as a line fits the server's buffer.
\<close>

theorem benchmark_reads_are_hits:
  assumes "\<forall>i < keys. sendable (bench_line (plain_value width) (False, i))"
    and "\<forall>pick \<in> set picks. snd pick < keys"
    and "s = snd (handle p memory_ops (\<lambda>_. True) (wire (populate_lines keys (plain_value width))) s0)"
  shows "fst (handle p memory_ops (\<lambda>_. True) (wire (map (bench_line (plain_value width)) picks)) s) =
      map (\<lambda>pick. (if fst pick then plain_value width else ''OK'') @ [newline]) picks \<and>
    (\<forall>r \<in> set (fst (handle p memory_ops (\<lambda>_. True) (wire (map (bench_line (plain_value width)) picks)) s)).
       \<not> unexpected r)"
proof -
  have send: "sendable (bench_line (plain_value width) pick)" if "pick \<in> set picks" for pick
  proof -
    have "sendable (bench_line (plain_value width) (False, snd pick))"
      using assms(1,2) that by blast
    then show ?thesis
      using key_plain [of _ "snd pick"] by (cases pick) (auto simp: sendable_def bench_line_def)
  qed
  then have "scan (wire (map (bench_line (plain_value width)) picks) @ []) =
      map drop_cr (map (bench_line (plain_value width)) picks) @ scan []"
    by (intro scan_wire) auto
  then have h: "handle p memory_ops (\<lambda>_. True) (wire (map (bench_line (plain_value width)) picks)) s =
      answer_lines p memory_ops (\<lambda>_. True) 0 (map (drop_cr \<circ> bench_line (plain_value width)) picks) s"
    by (simp add: handle_def)
  have "seeded keys (plain_value width) s"
    unfolding assms(3) by (rule populate_seeds [OF assms(1)])
  with bench_answers [of picks width keys s p 0] assms(2) send
  have r: "fst (handle p memory_ops (\<lambda>_. True) (wire (map (bench_line (plain_value width)) picks)) s) =
      map (expected (plain_value width)) picks"
    unfolding h by blast
  have "\<not> unexpected (expected (plain_value width) pick)" for pick
    by (cases width) (auto simp: unexpected_def expected_def plain_value_def)
  with r show ?thesis
    by (auto simp: expected_def)
qed

theorem benchmark_reads_are_hits_witness:
  "fst (handle (\<lambda>_. True) memory_ops (\<lambda>_. True) (wire (map (bench_line (plain_value 2)) [(True, 1), (False, 0), (True, 0)]))
     (snd (handle (\<lambda>_. True) memory_ops (\<lambda>_. True) (wire (populate_lines 2 (plain_value 2))) new_memory_store))) =
   [''xx'' @ [newline], ''OK'' @ [newline], ''xx'' @ [newline]]"
proof -
  have "sendable (bench_line (plain_value 2) (False, i))" if "i < 2" for i
  proof -
    have "length (dec i) = 1" using that by (subst dec.simps) simp
    moreover have "newline \<notin> set (bench_key i)" using key_plain by blast
    ultimately show ?thesis
      by (simp add: sendable_def bench_line_def plain_value_def max_token_def bench_key_def itoa_dec)
  qed
  with benchmark_reads_are_hits [OF _ _ refl, of 2 2 "[(True, 1), (False, 0), (True, 0)]" "\<lambda>_. True" new_memory_store]
  show ?thesis by (simp add: plain_value_def numeral_2_eq_2)
qed

text \<open>
  A percentile is one of the measured latencies, as long as the rounded product is not negative, and
  a higher one is not a lower latency; but it is not the nearest rank that the comment names: where the
  rank is a whole number it is one place further up.
\<close>

lemma percentile_is_observed: "br_lat r \<noteq> [] \<Longrightarrow> pct fl p r \<in> set (br_lat r)"
  by (auto simp: pct_def Let_def)

lemma percentile_past_nearest_rank:
  assumes "p = 50" "length (br_lat r) = 2 * k" "0 < k"
  shows "pct id p r = br_lat r ! k"
proof -
  have "\<lfloor>50 / 100 * of_nat (2 * k) :: rat\<rfloor> = int k"
    by simp
  with assms show ?thesis by (auto simp: pct_def Let_def)
qed

text \<open>A count with anything after its digits is taken for its digits.\<close>

lemma count_with_a_tail: "sscanf_int ''8x'' = Some 8"
  by (simp add: sscanf_int_def is_digit_def between_def byte_def)

text \<open>No runs at all end in a panic.\<close>

lemma no_runs_panic: "repeat_cell [] = Panics"
  by (simp add: repeat_cell_def)

end
