(* ===== verification/BenchRun.thy ===== *)
theory BenchRun
  imports Bench ServerLive
begin

text \<open>
  The load generator at work (bench/main.go \<open>populate\<close>, \<open>client.run\<close>, \<open>measure\<close>) against the server
  of theory ServerConc: connection 0 seeds the working set, every other connection is a client of
  the run, and each of them sends its next line only after it has read the answer to the last one.
  The random numbers and the durations are arbitrary; the connections do not break.
\<close>

section \<open>State\<close>

text \<open>
  \<open>sent\<close> are the lines written, \<open>heard\<close> counts the replies read, \<open>lat\<close> are the latencies recorded,
  \<open>failed\<close> marks a client whose run ended with an unexpected reply, \<open>released\<close> whether the channel
  \<open>start\<close> is closed.
\<close>

record harness =
  net :: serving_state
  sent :: "nat \<Rightarrow> bytes list"
  heard :: "nat \<Rightarrow> nat"
  lat :: "nat \<Rightarrow> nat list"
  failed :: "nat \<Rightarrow> bool"
  released :: bool

record bench_setup =
  bs_keys :: nat
  bs_value :: nat
  bs_warmup :: nat
  bs_ops :: nat
  bs_ratio :: rat

definition first_harness :: harness where
  "first_harness =
     \<lparr>net = serving_start (\<lambda>_. []), sent = (\<lambda>_. []), heard = (\<lambda>_. 0), lat = (\<lambda>_. []), failed = (\<lambda>_. False),
      released = False\<rparr>"

definition send :: "nat \<Rightarrow> bytes \<Rightarrow> harness \<Rightarrow> harness" where
  "send g l h =
     h\<lparr>net := (net h)\<lparr>unread := (unread (net h))(g := unread (net h) g @ [l])\<rparr>,
       sent := (sent h)(g := sent h g @ [l])\<rparr>"

text \<open>\<open>rng.Float64()\<close> is at least 0 and less than 1, and makes a GET when it is below the ratio.\<close>

definition may_pick :: "rat \<Rightarrow> bool \<Rightarrow> bool" where
  "may_pick ratio get \<longleftrightarrow> (if get then 0 < ratio else ratio < 1)"

definition hear :: "bench_setup \<Rightarrow> nat \<Rightarrow> nat \<Rightarrow> bytes \<Rightarrow> harness \<Rightarrow> harness" where
  "hear B g d r h =
     h\<lparr>heard := (heard h)(g := Suc (heard h g)),
       lat := (if g \<noteq> 0 \<and> bs_warmup B \<le> heard h g then (lat h)(g := lat h g @ [d]) else lat h),
       failed := (failed h)(g := failed h g \<or> g \<noteq> 0 \<and> unexpected r)\<rparr>"

inductive bench_step :: "(nat \<Rightarrow> bool) \<Rightarrow> bench_setup \<Rightarrow> harness \<Rightarrow> harness \<Rightarrow> bool" for p B where
  served: "serving_step p (net h) n \<Longrightarrow> bench_step p B h (h\<lparr>net := n\<rparr>)"
| seed: "heard h 0 = length (sent h 0) \<Longrightarrow> length (sent h 0) < bs_keys B \<Longrightarrow>
    bench_step p B h (send 0 (bench_line (plain_value (bs_value B)) (False, length (sent h 0))) h)"
| ask: "g \<noteq> 0 \<Longrightarrow> heard h 0 = bs_keys B \<Longrightarrow> \<not> failed h g \<Longrightarrow> heard h g = length (sent h g) \<Longrightarrow>
    length (sent h g) < bs_warmup B + bs_ops B \<Longrightarrow> length (sent h g) < bs_warmup B \<or> released h \<Longrightarrow>
    snd pick < bs_keys B \<Longrightarrow> may_pick (bs_ratio B) (fst pick) \<Longrightarrow>
    bench_step p B h (send g (bench_line (plain_value (bs_value B)) pick) h)"
| release: "heard h 0 = bs_keys B \<Longrightarrow> bench_step p B h (h\<lparr>released := True\<rparr>)"
| answer_read: "heard h g < length (replies (net h) g) \<Longrightarrow> r = replies (net h) g ! heard h g \<Longrightarrow>
    bench_step p B h (hear B g d r h)"

inductive bench_reach :: "(nat \<Rightarrow> bool) \<Rightarrow> bench_setup \<Rightarrow> harness \<Rightarrow> bool" for p B where
  start: "bench_reach p B first_harness"
| step: "bench_reach p B h \<Longrightarrow> bench_step p B h h' \<Longrightarrow> bench_reach p B h'"

text \<open>\<open>measure\<close> after \<open>wg.Wait()\<close>: the latencies of all clients, sorted.\<close>

definition measure_result :: "nat list list \<Rightarrow> nat \<Rightarrow> bench_result" where
  "measure_result lats elapsed = \<lparr>br_ops = length (concat lats), br_dur = elapsed, br_lat = sort (concat lats)\<rparr>"

text \<open>Its percentiles are in order, whatever monotone rounding computes their places, and below the maximum.\<close>

lemma percentiles_in_order:
  assumes "mono fl" "p \<le> q"
  shows "pct fl p (measure_result lats e) \<le> pct fl q (measure_result lats e)"
    and "pct fl q (measure_result lats e) \<le> slowest (measure_result lats e)"
proof -
  let ?xs = "sort (concat lats)"
  let ?i = "\<lambda>p. nat \<lfloor>fl (fl (p / 100) * of_nat (length ?xs))\<rfloor>"
  let ?at = "\<lambda>p. if length ?xs \<le> ?i p then length ?xs - 1 else ?i p"
  have "fl (p / 100) \<le> fl (q / 100)"
    using assms by (intro monoD [OF assms(1)]) (simp add: divide_right_mono)
  then have "fl (fl (p / 100) * of_nat (length ?xs)) \<le> fl (fl (q / 100) * of_nat (length ?xs))"
    using assms(2) by (intro monoD [OF assms(1)] mult_right_mono) (simp_all add: divide_right_mono)
  then have le: "?i p \<le> ?i q"
    by (intro nat_mono floor_mono)
  have pct: "pct fl r (measure_result lats e) = ?xs ! ?at r" if "?xs \<noteq> []" for r
    using that by (simp only: pct_def measure_result_def bench_result.simps Let_def if_False)
  show "pct fl p (measure_result lats e) \<le> pct fl q (measure_result lats e)"
  proof (cases "?xs = []")
    case False
    then have "0 < length ?xs" by (simp only: length_greater_0_conv not_False_eq_True)
    then have "?at p \<le> ?at q" "?at q < length ?xs"
      using le by (auto split: if_splits)
    from sorted_nth_mono [OF sorted_sort this] show ?thesis
      unfolding pct [OF False] .
  qed (simp add: pct_def measure_result_def)
  show "pct fl q (measure_result lats e) \<le> slowest (measure_result lats e)"
  proof (cases "?xs = []")
    case False
    then have "0 < length ?xs" by (simp only: length_greater_0_conv not_False_eq_True)
    then have "?at q \<le> length ?xs - 1" "length ?xs - 1 < length ?xs"
      by auto
    note le = sorted_nth_mono [OF sorted_sort this]
    have "slowest (measure_result lats e) = ?xs ! (length ?xs - 1)"
      by (simp only: slowest_def measure_result_def bench_result.simps last_conv_nth [OF False] False if_False)
    with le show ?thesis by (simp only: pct [OF False])
  qed (simp add: pct_def measure_result_def)
qed

section \<open>The invariant\<close>

text \<open>A line of a client and the reply it should get.\<close>

definition asks :: "bench_setup \<Rightarrow> bytes \<Rightarrow> bytes \<Rightarrow> bool" where
  "asks B l r \<longleftrightarrow> (\<exists>pick. snd pick < bs_keys B \<and> may_pick (bs_ratio B) (fst pick) \<and>
     l = bench_line (plain_value (bs_value B)) pick \<and> r = expected (plain_value (bs_value B)) pick)"

definition seeds :: "bench_setup \<Rightarrow> nat \<Rightarrow> bytes list" where
  "seeds B n = map (\<lambda>i. bench_line (plain_value (bs_value B)) (False, i)) [0..<n]"

definition lines_right :: "bench_setup \<Rightarrow> harness \<Rightarrow> bool" where
  "lines_right B h \<longleftrightarrow>
     sent h 0 = seeds B (length (sent h 0)) \<and> length (sent h 0) \<le> bs_keys B \<and>
     (\<forall>g l. g \<noteq> 0 \<and> l \<in> set (sent h g) \<longrightarrow> (\<exists>r. asks B l r)) \<and>
     (\<forall>g. g \<noteq> 0 \<and> sent h g \<noteq> [] \<longrightarrow> heard h 0 = bs_keys B)"

definition loop_right :: "bench_setup \<Rightarrow> harness \<Rightarrow> bool" where
  "loop_right B h \<longleftrightarrow>
     (\<forall>g. heard h g \<le> length (replies (net h) g) \<and> length (sent h g) \<le> Suc (heard h g) \<and>
       (g \<noteq> 0 \<longrightarrow> length (lat h g) = heard h g - bs_warmup B))"

definition store_right :: "bench_setup \<Rightarrow> harness \<Rightarrow> bool" where
  "store_right B h \<longleftrightarrow>
     seeded (length (of_conn 0 (history (net h)))) (plain_value (bs_value B)) (contents (locks (net h))) \<and>
     (\<forall>(g, l, r) \<in> set (history (net h)). g \<noteq> 0 \<longrightarrow> asks B l r)"

definition bench_inv :: "(nat \<Rightarrow> bool) \<Rightarrow> bench_setup \<Rightarrow> harness \<Rightarrow> bool" where
  "bench_inv p B h \<longleftrightarrow> serving_inv p (sent h) (net h) \<and> lines_right B h \<and> loop_right B h \<and> store_right B h \<and>
     (\<forall>g. \<not> failed h g)"

text \<open>Lines that fit the buffer of the server.\<close>

definition fits :: "bench_setup \<Rightarrow> bool" where
  "fits B \<longleftrightarrow> (\<forall>i < bs_keys B. sendable (bench_line (plain_value (bs_value B)) (False, i)))"

lemma fits_pick: "fits B \<Longrightarrow> snd pick < bs_keys B \<Longrightarrow> sendable (bench_line (plain_value (bs_value B)) pick)"
proof -
  assume "fits B" "snd pick < bs_keys B"
  then have "sendable (bench_line (plain_value (bs_value B)) (False, snd pick))"
    by (simp add: fits_def)
  then show ?thesis
    using key_plain [of _ "snd pick"] by (cases pick) (auto simp: sendable_def bench_line_def)
qed

lemma bench_line_kept:
  assumes "sendable (bench_line (plain_value w) pick)"
  shows "drop_cr (bench_line (plain_value w) pick) = bench_line (plain_value w) pick"
proof -
  have "last (bench_line (plain_value w) pick) \<noteq> return"
  proof -
    have "bench_line (plain_value w) pick \<noteq> []" "return \<notin> set (bench_line (plain_value w) pick)"
      using key_plain [of return "snd pick"] by (auto simp: bench_line_def plain_value_def)
    then show ?thesis using last_in_set by metis
  qed
  then show ?thesis by (simp add: drop_cr_def)
qed

lemma pick_answer:
  assumes "sendable (bench_line (plain_value w) pick)"
  shows "answer p memory_ops (bench_line (plain_value w) pick) s =
    (if fst pick then (case data s (bench_key (snd pick)) of None \<Rightarrow> reply_nil | Some v \<Rightarrow> reply_value v, s)
     else (reply_ok, s\<lparr>data := (data s)(bench_key (snd pick) \<mapsto> plain_value w)\<rparr>))"
  using bench_answer [OF assms, of p s] unfolding bench_line_kept [OF assms] .

lemma asked_answer:
  assumes "fits B" "snd pick < bs_keys B" "seeded (bs_keys B) (plain_value (bs_value B)) s"
  shows "fst (answer p memory_ops (bench_line (plain_value (bs_value B)) pick) s) = expected (plain_value (bs_value B)) pick"
    and "seeded (bs_keys B) (plain_value (bs_value B)) (snd (answer p memory_ops (bench_line (plain_value (bs_value B)) pick) s))"
  using assms(2,3)
  by (simp_all add: pick_answer [OF fits_pick [OF assms(1,2)]] expected_def seeded_def reply_value_def reply_ok_def)

lemma replay_asked:
  assumes "fits B" "seeded (bs_keys B) (plain_value (bs_value B)) s"
    and "\<forall>(g, l, r) \<in> set k. \<exists>r. asks B l r" "replay p k s = Some s'"
  shows "seeded (bs_keys B) (plain_value (bs_value B)) s' \<and> (\<forall>(g, l, r) \<in> set k. asks B l r)"
  using assms(2-4)
proof (induction k arbitrary: s)
  case (Cons e k)
  obtain g l r where e: "e = (g, l, r)" by (cases e)
  then obtain pick where pick: "snd pick < bs_keys B" "may_pick (bs_ratio B) (fst pick)"
      "l = bench_line (plain_value (bs_value B)) pick"
    using Cons.prems(2) by (auto simp: asks_def)
  note a = asked_answer [OF assms(1) pick(1) Cons.prems(1), of p, folded pick(3)]
  obtain s1 where s1: "answer p memory_ops l s = (r, s1)" "replay p k s1 = Some s'"
    using Cons.prems(3) by (auto simp: e split: prod.splits if_splits)
  with a pick have "asks B l r" "seeded (bs_keys B) (plain_value (bs_value B)) s1"
    unfolding asks_def by (metis fst_conv) (metis a(2) s1(1) snd_conv)
  with Cons.IH [of s1] Cons.prems(2) s1(2) show ?case by (auto simp: e)
qed simp

lemma replay_seeds:
  assumes "fits B" "seeded n (plain_value (bs_value B)) s"
    and "map (fst \<circ> snd) k = map (\<lambda>i. bench_line (plain_value (bs_value B)) (False, i)) [n..<n + length k]"
    and "n + length k \<le> bs_keys B" "replay p k s = Some s'"
  shows "seeded (n + length k) (plain_value (bs_value B)) s'"
  using assms(2-5)
proof (induction k arbitrary: s n)
  case (Cons e k)
  obtain g l r where e: "e = (g, l, r)" by (cases e)
  have up: "[n..<n + length (e # k)] = n # [Suc n..<Suc n + length k]"
    using upt_conv_Cons [of n "n + length (e # k)"] by simp
  have "map (fst \<circ> snd) (e # k) = map (\<lambda>i. bench_line (plain_value (bs_value B)) (False, i)) (n # [Suc n..<Suc n + length k])"
    using Cons.prems(2) by (simp only: up)
  then have l: "l = bench_line (plain_value (bs_value B)) (False, n)" and
    k: "map (fst \<circ> snd) k = map (\<lambda>i. bench_line (plain_value (bs_value B)) (False, i)) [Suc n..<Suc n + length k]"
    unfolding e list.map by (simp_all del: upt_Suc)
  have "sendable (bench_line (plain_value (bs_value B)) (False, n))"
    using assms(1) Cons.prems(3) by (simp add: fits_def)
  note a = pick_answer [OF this, of p s]
  obtain s1 where s1: "answer p memory_ops l s = (r, s1)" "replay p k s1 = Some s'"
    using Cons.prems(4) by (auto simp: e split: prod.splits if_splits)
  then have "seeded (Suc n) (plain_value (bs_value B)) s1"
    using Cons.prems(1) a by (auto simp: l seeded_def less_Suc_eq)
  from Cons.IH [OF this k _ s1(2)] Cons.prems(3) show ?case by simp
qed simp

section \<open>Every step keeps it\<close>

lemma invD:
  assumes "bench_inv p B h"
  shows "serving_inv p (sent h) (net h)" "lines_right B h" "loop_right B h" "store_right B h" "\<not> failed h g"
  using assms by (simp_all add: bench_inv_def)

text \<open>A connection's part of the history is a prefix of the lines that were sent on it.\<close>

lemma history_sent:
  assumes "serving_inv p (sent h) n"
  shows "\<exists>rest. sent h g = map fst (of_conn g (history n)) @ rest"
    and "length (replies n g) \<le> length (of_conn g (history n))"
    and "i < length (replies n g) \<Longrightarrow> (sent h g ! i, replies n g ! i) = of_conn g (history n) ! i"
proof -
  have c: "map snd (of_conn g (history n)) = replies n g @ due g n"
    "sent h g = map fst (of_conn g (history n)) @ open_line g n @ unread n g"
    using serving_inv_D(3) [OF assms, of g] by (simp_all add: conn_right_def)
  then show "\<exists>rest. sent h g = map fst (of_conn g (history n)) @ rest" by blast
  have len: "length (of_conn g (history n)) = length (replies n g) + length (due g n)"
    using arg_cong [OF c(1), of length] by simp
  then show "length (replies n g) \<le> length (of_conn g (history n))" by simp
  assume i: "i < length (replies n g)"
  then have "snd (of_conn g (history n) ! i) = replies n g ! i"
    using arg_cong [OF c(1), of "\<lambda>xs. xs ! i"] len by (simp add: nth_append)
  moreover have "fst (of_conn g (history n) ! i) = sent h g ! i"
    using c(2) i len by (simp add: nth_append)
  ultimately show "(sent h g ! i, replies n g ! i) = of_conn g (history n) ! i"
    by (simp add: prod_eq_iff)
qed

lemma of_conn_member: "e \<in> set (of_conn g k) \<longleftrightarrow> (g, e) \<in> set k"
  by (force simp: of_conn_def)

lemma replies_grow: "serving_step p n m \<Longrightarrow> length (replies n g) \<le> length (replies m g)"
  by (induction rule: serving_step.induct) (auto simp: write_reply_def)

text \<open>What a step of the server adds to the history, line by line, was sent.\<close>

lemma added_sent:
  assumes "serving_inv p (sent h) n" "history n = history (net h) @ k" "(g, l, r) \<in> set k"
  shows "l \<in> set (sent h g)"
proof -
  have "(l, r) \<in> set (of_conn g (history n))"
    using assms(2,3) by (simp add: of_conn_member)
  then show ?thesis
    using history_sent(1) [OF assms(1), of g] by (metis UnI1 fst_conv image_eqI list.set_map set_append)
qed

lemma added_replay:
  assumes "serving_inv p (sent h) (net h)" "serving_inv p (sent h) n" "history n = history (net h) @ k"
  shows "replay p k (contents (locks (net h))) = Some (contents (locks n))"
  using serving_inv_D(2) [OF assms(1)] serving_inv_D(2) [OF assms(2)] by (simp add: assms(3) replay_append)

text \<open>After the seeding only clients' lines are added.\<close>

lemma seeded_served:
  assumes fits: "fits B" and inv: "bench_inv p B h" and n: "serving_inv p (sent h) n"
    and k: "history n = history (net h) @ k" and seeded: "heard h 0 = bs_keys B"
  shows "store_right B (h\<lparr>net := n\<rparr>)"
proof -
  note I = invD [OF inv]
  have "length (of_conn 0 (history n)) \<le> length (sent h 0)"
    using history_sent(1) [OF n, of 0] by (metis length_append length_map le_add1)
  moreover have "bs_keys B \<le> length (of_conn 0 (history (net h)))"
    using seeded I(3) history_sent(2) [OF I(1), of 0] by (metis loop_right_def le_trans)
  moreover have "length (sent h 0) \<le> bs_keys B"
    using I(2) by (simp add: lines_right_def)
  ultimately have full: "length (of_conn 0 (history (net h))) = bs_keys B" "of_conn 0 k = []"
    by (simp_all add: k flip: length_0_conv)
  then have "g \<noteq> 0" if "(g, l, r) \<in> set k" for g l r
    using that of_conn_member [of "(l, r)" 0 k] full(2) by (metis list.set(1) empty_iff)
  then have "\<forall>(g, l, r) \<in> set k. \<exists>r. asks B l r"
    using added_sent [OF n k] I(2) by (fastforce simp: lines_right_def)
  from replay_asked [OF fits _ this added_replay [OF I(1) n k]] I(4) full show ?thesis
    by (auto simp: store_right_def k)
qed

text \<open>Before its end only the next of the seeds are.\<close>

lemma seeding_served:
  assumes fits: "fits B" and inv: "bench_inv p B h" and n: "serving_inv p (sent h) n"
    and k: "history n = history (net h) @ k" and seeding: "heard h 0 \<noteq> bs_keys B"
  shows "store_right B (h\<lparr>net := n\<rparr>)"
proof -
  note I = invD [OF inv]
  have none: "sent h g = []" if "g \<noteq> 0" for g
    using I(2) that seeding unfolding lines_right_def by blast
  then have zero: "g = 0" if "(g, l, r) \<in> set k" for g l r
    using added_sent [OF n k that] by (metis list.set(1) empty_iff)
  then have "filter (\<lambda>e. fst e = 0) k = k"
    by (auto simp: filter_id_conv)
  then have k0: "of_conn 0 k = map snd k"
    by (simp add: of_conn_def)
  let ?n = "length (of_conn 0 (history (net h)))"
  obtain rest where rest: "sent h 0 = map fst (of_conn 0 (history (net h))) @ map fst (map snd k) @ rest"
    using history_sent(1) [OF n, of 0] by (auto simp: k k0)
  have len: "?n + length k \<le> length (sent h 0)"
    using arg_cong [OF rest, of length] by simp
  have "map fst (map snd k) = take (length k) (drop ?n (sent h 0))"
    by (simp add: rest)
  also have "\<dots> = take (length k) (drop ?n (seeds B (length (sent h 0))))"
    using I(2) by (simp add: lines_right_def)
  also have "\<dots> = map (\<lambda>i. bench_line (plain_value (bs_value B)) (False, i)) [?n..<?n + length k]"
    using len by (simp add: seeds_def drop_map take_map)
  finally have lines: "map (fst \<circ> snd) k = map (\<lambda>i. bench_line (plain_value (bs_value B)) (False, i)) [?n..<?n + length k]"
    by simp
  have "?n + length k \<le> bs_keys B"
    using len I(2) by (simp add: lines_right_def)
  from replay_seeds [OF fits _ lines this added_replay [OF I(1) n k]] I(4) zero show ?thesis
    by (fastforce simp: store_right_def k k0)
qed

lemma store_right_served:
  assumes "fits B" "bench_inv p B h" "serving_step p (net h) n"
  shows "store_right B (h\<lparr>net := n\<rparr>)"
proof -
  obtain k where "history n = history (net h) @ k"
    using history_step [OF assms(3)] by blast
  with seeded_served seeding_served assms(1,2) serving_inv_step [OF assms(3) invD(1) [OF assms(2)]]
  show ?thesis by blast
qed

lemma inv_served:
  assumes "fits B" "bench_inv p B h" "serving_step p (net h) n"
  shows "bench_inv p B (h\<lparr>net := n\<rparr>)"
proof -
  note I = invD [OF assms(2)]
  have "loop_right B (h\<lparr>net := n\<rparr>)"
    using I(3) replies_grow [OF assms(3)] by (auto simp: loop_right_def intro: le_trans)
  moreover have "lines_right B (h\<lparr>net := n\<rparr>)"
    using I(2) by (simp add: lines_right_def)
  ultimately show ?thesis
    using serving_inv_step [OF assms(3) I(1)] store_right_served [OF assms] I(5) by (simp add: bench_inv_def)
qed

text \<open>Sending a line only makes it wait to be read.\<close>

lemma serving_inv_send:
  assumes "serving_inv p input s"
  shows "serving_inv p (input(g := input g @ [l])) (s\<lparr>unread := (unread s)(g := unread s g @ [l])\<rparr>)"
proof -
  have "conn_right (input(g := input g @ [l])) (s\<lparr>unread := (unread s)(g := unread s g @ [l])\<rparr>) k" for k
    using serving_inv_D(3) [OF assms, of k]
    by (auto simp: conn_right_def working_def due_def open_line_def cong: option.case_cong)
  then show ?thesis using assms by (simp add: serving_inv_def)
qed

lemma inv_send:
  assumes inv: "bench_inv p B h" and waits: "heard h g = length (sent h g)"
    and seed: "g = 0 \<Longrightarrow> length (sent h 0) < bs_keys B \<and> l = bench_line (plain_value (bs_value B)) (False, length (sent h 0))"
    and ask: "g \<noteq> 0 \<Longrightarrow> heard h 0 = bs_keys B \<and> (\<exists>r. asks B l r)"
  shows "bench_inv p B (send g l h)"
proof -
  note I = invD [OF inv]
  have "lines_right B (send g l h)"
    unfolding lines_right_def
  proof (intro conjI allI impI)
    show "sent (send g l h) 0 = seeds B (length (sent (send g l h) 0))" "length (sent (send g l h) 0) \<le> bs_keys B"
      using I(2) seed by (auto simp: lines_right_def send_def seeds_def)
    show "\<exists>r. asks B m r" if "k \<noteq> 0 \<and> m \<in> set (sent (send g l h) k)" for k m
      using that I(2) ask by (cases "k = g") (auto simp: lines_right_def send_def)
    show "heard (send g l h) 0 = bs_keys B" if "k \<noteq> 0 \<and> sent (send g l h) k \<noteq> []" for k
      using that I(2) ask by (cases "k = g") (auto simp: lines_right_def send_def)
  qed
  moreover have "loop_right B (send g l h)"
    using I(3) waits by (simp add: loop_right_def send_def)
  moreover have "store_right B (send g l h)"
    using I(4) by (simp add: store_right_def send_def)
  moreover have "serving_inv p (sent (send g l h)) (net (send g l h))"
    using serving_inv_send [OF I(1), of g l] by (simp add: send_def)
  moreover have "failed (send g l h) = failed h"
    by (simp add: send_def)
  ultimately show ?thesis
    using I(5) by (simp add: bench_inv_def)
qed

lemma expected_reply: "asks B l r \<Longrightarrow> \<not> unexpected r"
proof -
  have "\<not> unexpected (expected (plain_value w) pick)" for w pick
    by (cases w; cases "fst pick") (auto simp: unexpected_def expected_def plain_value_def)
  then show "asks B l r \<Longrightarrow> ?thesis"
    by (auto simp: asks_def)
qed

lemma heard_asks:
  assumes inv: "bench_inv p B h" and g: "g \<noteq> 0" "i < length (replies (net h) g)"
  shows "asks B (sent h g ! i) (replies (net h) g ! i)"
proof -
  note I = invD [OF inv]
  have "i < length (of_conn g (history (net h)))"
    using g(2) history_sent(2) [OF I(1), of g] by simp
  then have "(sent h g ! i, replies (net h) g ! i) \<in> set (of_conn g (history (net h)))"
    unfolding history_sent(3) [OF I(1) g(2)] by simp
  then have "(g, sent h g ! i, replies (net h) g ! i) \<in> set (history (net h))"
    by (simp add: of_conn_member)
  with I(4) g(1) show ?thesis
    by (auto simp: store_right_def)
qed

lemma inv_hear:
  assumes inv: "bench_inv p B h" and r: "heard h g < length (replies (net h) g)" "r = replies (net h) g ! heard h g"
  shows "bench_inv p B (hear B g d r h)"
proof -
  note I = invD [OF inv]
  have "length (replies (net h) g) \<le> length (sent h g)" "length (sent h 0) \<le> bs_keys B"
    using history_sent(1,2) [OF I(1), of g] I(2) by (auto simp: lines_right_def dest!: arg_cong [where f = length])
  then have no: "heard h 0 = bs_keys B \<Longrightarrow> g \<noteq> 0"
    using r(1) by (intro notI) simp
  have "lines_right B (hear B g d r h)"
    using I(2) no by (auto simp: lines_right_def hear_def)
  moreover have "loop_right B (hear B g d r h)"
  proof -
    have "length (sent h g) \<le> Suc (heard h g)"
      using I(3) by (simp add: loop_right_def)
    with I(3) r(1) show ?thesis
      by (auto simp: loop_right_def hear_def intro: le_SucI)
  qed
  moreover have "store_right B (hear B g d r h)" "serving_inv p (sent (hear B g d r h)) (net (hear B g d r h))"
    using I(1,4) by (simp_all add: store_right_def hear_def)
  moreover have "\<not> failed (hear B g d r h) k" for k
    using I(5) expected_reply [OF heard_asks [OF inv _ r(1)]] by (auto simp: hear_def r(2))
  ultimately show ?thesis by (simp add: bench_inv_def)
qed

lemma bench_inv_step:
  assumes "fits B" "bench_inv p B h" "bench_step p B h h'"
  shows "bench_inv p B h'"
  using assms(3)
proof cases
  case (served n)
  then show ?thesis using inv_served [OF assms(1,2)] by simp
next
  case seed
  then show ?thesis using inv_send [OF assms(2), of 0] by simp
next
  case (ask g pick)
  then have "\<exists>r. asks B (bench_line (plain_value (bs_value B)) pick) r"
    unfolding asks_def by blast
  with ask show ?thesis using inv_send [OF assms(2), of g] by simp
next
  case release
  then show ?thesis
    using assms(2) by (simp add: bench_inv_def lines_right_def loop_right_def store_right_def)
next
  case (answer_read g r d)
  then show ?thesis using inv_hear [OF assms(2)] by simp
qed

lemma bench_inv_start: "bench_inv p B first_harness"
  using serving_inv_start [of p "\<lambda>_. []"]
  by (simp add: bench_inv_def first_harness_def lines_right_def loop_right_def store_right_def seeds_def seeded_def)
    (simp add: serving_start_def)

lemma bench_inv_reach: "bench_reach p B h \<Longrightarrow> fits B \<Longrightarrow> bench_inv p B h"
  by (induction rule: bench_reach.induct) (auto intro: bench_inv_start bench_inv_step)

section \<open>The benchmark can always finish\<close>

definition on_course :: "(nat \<Rightarrow> bool) \<Rightarrow> bench_setup \<Rightarrow> harness \<Rightarrow> bool" where
  "on_course p B h \<longleftrightarrow> bench_inv p B h \<and> finite {g. sent h g \<noteq> []} \<and>
     (\<forall>g. g \<noteq> 0 \<longrightarrow> length (sent h g) \<le> bs_warmup B + bs_ops B)"

lemma finite_upd: "finite {g. f g \<noteq> []} \<Longrightarrow> finite {g. (f(k := x)) g \<noteq> []}"
  by (rule finite_subset [of _ "insert k {g. f g \<noteq> []}"]) auto

lemma on_course_step:
  assumes "fits B" "on_course p B h" "bench_step p B h h'"
  shows "on_course p B h'"
proof -
  have "finite {g. sent h' g \<noteq> []} \<and> (\<forall>g. g \<noteq> 0 \<longrightarrow> length (sent h' g) \<le> bs_warmup B + bs_ops B)"
    using assms(3)
  proof cases
    case (seed)
    then show ?thesis using assms(2) finite_upd [of "sent h"] by (auto simp: on_course_def send_def)
  next
    case (ask g pick)
    then show ?thesis using assms(2) finite_upd [of "sent h"] by (auto simp: on_course_def send_def)
  qed (use assms(2) in \<open>auto simp: on_course_def hear_def\<close>)
  then show ?thesis
    using assms bench_inv_step [OF assms(1) _ assms(3)] by (simp add: on_course_def)
qed

lemma on_course_run: "(bench_step p B)\<^sup>*\<^sup>* h h' \<Longrightarrow> fits B \<Longrightarrow> on_course p B h \<Longrightarrow> on_course p B h'"
  by (induction rule: rtranclp_induct) (auto intro: on_course_step)

lemma on_course_reach: "bench_reach p B h \<Longrightarrow> fits B \<Longrightarrow> on_course p B h"
proof (induction rule: bench_reach.induct)
  case start
  show ?case using bench_inv_start by (simp add: on_course_def) (simp add: first_harness_def)
qed (rule on_course_step)

lemma bench_serves: "serving_run p n m \<Longrightarrow> net h = n \<Longrightarrow> (bench_step p B)\<^sup>*\<^sup>* h (h\<lparr>net := m\<rparr>)"
proof (induction rule: serving_run.induct)
  case (go s t u)
  have "bench_step p B (h\<lparr>net := t\<rparr>) (h\<lparr>net := t\<rparr>\<lparr>net := u\<rparr>)"
    using go.hyps(2) by (intro bench_step.served) simp
  with go.IH [OF go.prems] show ?case by simp
qed simp

text \<open>Outstanding replies can be awaited and read.\<close>

lemma replies_heard:
  assumes "finite C" "\<forall>g. heard h g \<le> length (replies (net h) g)" "\<forall>g. g \<notin> C \<longrightarrow> heard h g = length (replies (net h) g)"
  shows "\<exists>h'. (bench_step p B)\<^sup>*\<^sup>* h h' \<and> sent h' = sent h \<and> released h' = released h \<and>
    (\<forall>g. heard h' g = length (replies (net h) g))"
  using assms(2,3)
proof (induction "\<Sum>g\<in>C. length (replies (net h) g) - heard h g" arbitrary: h rule: less_induct)
  case less
  show ?case
  proof (cases "\<forall>g. heard h g = length (replies (net h) g)")
    case False
    then obtain g where g: "heard h g < length (replies (net h) g)"
      using less.prems(1) by (meson le_neq_implies_less)
    then have C: "g \<in> C" using less.prems(2) by (metis less_irrefl)
    define k where "k = hear B g 0 (replies (net h) g ! heard h g) h"
    have k: "bench_step p B h k" "net k = net h" "sent k = sent h" "released k = released h"
      "heard k = (heard h)(g := Suc (heard h g))"
      using bench_step.answer_read [OF g refl] by (simp_all add: k_def hear_def)
    have "(\<Sum>i\<in>C. length (replies (net k) i) - heard k i) < (\<Sum>i\<in>C. length (replies (net h) i) - heard h i)"
      using C g assms(1) by (intro sum_strict_mono_ex1) (auto simp: k)
    moreover have "\<forall>i. heard k i \<le> length (replies (net k) i)"
      "\<forall>i. i \<notin> C \<longrightarrow> heard k i = length (replies (net k) i)"
      using less.prems g C by (auto simp: k)
    ultimately obtain h' where "(bench_step p B)\<^sup>*\<^sup>* k h'" "sent h' = sent k" "released h' = released k"
      "\<forall>i. heard h' i = length (replies (net k) i)" using less.hyps [of k] by auto
    with k show ?thesis by (metis converse_rtranclp_into_rtranclp)
  qed blast
qed

lemma settles:
  assumes "on_course p B h"
  obtains h' where "(bench_step p B)\<^sup>*\<^sup>* h h'" "sent h' = sent h" "released h' = released h"
    "\<And>g. heard h' g = length (sent h g)"
proof -
  note inv = assms [unfolded on_course_def, THEN conjunct1]
  note I = invD [OF inv]
  have fin: "finite {g. sent h g \<noteq> []}" using assms by (simp add: on_course_def)
  obtain m where m: "serving_run p (net h) m" "\<forall>g. work g m = 0"
    using drains [OF I(1) fin] by auto
  let ?k = "h\<lparr>net := m\<rparr>"
  note run = bench_serves [OF m(1) refl, of B]
  have len: "length (replies m g) = length (sent h g)" for g
    using answered(2) [OF serving_inv_run [OF m(1) I(1)]] m(2) by simp
  have le: "heard h g \<le> length (sent h g)" for g
    using I(3) history_sent(1,2) [OF I(1), of g]
    by (auto simp: loop_right_def dest!: spec [of _ g] arg_cong [where f = length])
  have "\<exists>h'. (bench_step p B)\<^sup>*\<^sup>* ?k h' \<and> sent h' = sent ?k \<and> released h' = released ?k \<and>
      (\<forall>g. heard h' g = length (replies (net ?k) g))"
    using fin le len by (intro replies_heard [of "{g. sent h g \<noteq> []}"]) (auto, metis le_zero_eq list.size(3))
  with run len show ?thesis by (auto intro: that rtranclp_trans)
qed

lemma one_more:
  assumes "fits B" "on_course p B h" "bench_step p B h (send g l h)"
  obtains h' where "(bench_step p B)\<^sup>*\<^sup>* h h'" "on_course p B h'" "sent h' = (sent h)(g := sent h g @ [l])"
    "released h' = released h" "\<And>k. heard h' k = length (sent h' k)"
proof -
  obtain h' where "(bench_step p B)\<^sup>*\<^sup>* (send g l h) h'" "sent h' = sent (send g l h)" "released h' = released (send g l h)"
    "\<And>k. heard h' k = length (sent (send g l h) k)"
    using settles [OF on_course_step [OF assms]] by blast
  moreover from this(1) assms(3) have "(bench_step p B)\<^sup>*\<^sup>* h h'"
    by (rule converse_rtranclp_into_rtranclp [rotated])
  ultimately show ?thesis
    using that [of h'] on_course_run [of p B h h', OF _ assms(1,2)] by (simp add: send_def)
qed

lemma seeding_ends:
  assumes "fits B" "on_course p B h" "\<forall>k. heard h k = length (sent h k)"
  shows "\<exists>h'. (bench_step p B)\<^sup>*\<^sup>* h h' \<and> on_course p B h' \<and> (\<forall>k. heard h' k = length (sent h' k)) \<and>
    heard h' 0 = bs_keys B"
  using assms(2,3)
proof (induction "bs_keys B - length (sent h 0)" arbitrary: h)
  case 0
  moreover have "length (sent h 0) \<le> bs_keys B"
    using 0(2) by (simp add: on_course_def bench_inv_def lines_right_def)
  ultimately show ?case by (intro exI [of _ h]) simp
next
  case (Suc n)
  have "bench_step p B h (send 0 (bench_line (plain_value (bs_value B)) (False, length (sent h 0))) h)"
    using Suc by (intro bench_step.seed) auto
  then obtain k where k: "(bench_step p B)\<^sup>*\<^sup>* h k" "on_course p B k"
    "sent k = (sent h)(0 := sent h 0 @ [bench_line (plain_value (bs_value B)) (False, length (sent h 0))])"
    "\<And>i. heard k i = length (sent k i)" using one_more [OF assms(1) Suc.prems(1)] by metis
  then have "n = bs_keys B - length (sent k 0)"
    using Suc(2) by simp
  from Suc(1) [OF this k(2)] k(1,4) show ?case by (meson rtranclp_trans)
qed

lemma client_ends:
  assumes "fits B" "0 < bs_keys B" "g \<noteq> 0" "on_course p B h" "\<forall>k. heard h k = length (sent h k)" "heard h 0 = bs_keys B"
    "released h"
  shows "\<exists>h'. (bench_step p B)\<^sup>*\<^sup>* h h' \<and> on_course p B h' \<and> (\<forall>k. heard h' k = length (sent h' k)) \<and>
    heard h' g = bs_warmup B + bs_ops B \<and> released h' \<and> (\<forall>k. k \<noteq> g \<longrightarrow> heard h' k = heard h k)"
  using assms(4-7)
proof (induction "bs_warmup B + bs_ops B - length (sent h g)" arbitrary: h)
  case 0
  moreover have "length (sent h g) \<le> bs_warmup B + bs_ops B"
    using 0(2) assms(3) by (simp add: on_course_def)
  ultimately show ?case by (intro exI [of _ h]) simp
next
  case (Suc n)
  define pick where "pick = (0 < bs_ratio B, 0 :: nat)"
  have "may_pick (bs_ratio B) (fst pick)" by (simp add: pick_def may_pick_def)
  then have "bench_step p B h (send g (bench_line (plain_value (bs_value B)) pick) h)"
    using Suc assms(2,3) by (intro bench_step.ask) (auto simp: on_course_def bench_inv_def pick_def)
  then obtain k where k: "(bench_step p B)\<^sup>*\<^sup>* h k" "on_course p B k"
    "sent k = (sent h)(g := sent h g @ [bench_line (plain_value (bs_value B)) pick])"
    "released k = released h" "\<And>i. heard k i = length (sent k i)"
    using one_more [OF assms(1) Suc.prems(1)] by metis
  then have "n = bs_warmup B + bs_ops B - length (sent k g)" "heard k 0 = bs_keys B"
    and same: "\<forall>i. i \<noteq> g \<longrightarrow> heard k i = heard h i"
    using Suc(2) Suc.prems assms(3) by auto
  from Suc(1) [OF this(1) k(2) _ this(2)] k(1,4,5) Suc.prems(4) obtain h' where
    "(bench_step p B)\<^sup>*\<^sup>* k h'" "on_course p B h'" "\<forall>i. heard h' i = length (sent h' i)"
    "heard h' g = bs_warmup B + bs_ops B" "released h'" "\<forall>i. i \<noteq> g \<longrightarrow> heard h' i = heard k i" by auto
  with k(1) same show ?case
    by (intro exI [of _ h']) (auto intro: rtranclp_trans)
qed

lemma clients_end:
  assumes "fits B" "0 < bs_keys B" "on_course p B h" "\<forall>k. heard h k = length (sent h k)" "heard h 0 = bs_keys B"
    "released h"
  shows "\<exists>h'. (bench_step p B)\<^sup>*\<^sup>* h h' \<and> on_course p B h' \<and> (\<forall>k. heard h' k = length (sent h' k)) \<and> heard h' 0 = bs_keys B \<and>
    released h' \<and> (\<forall>g. 0 < g \<and> g \<le> n \<longrightarrow> heard h' g = bs_warmup B + bs_ops B)"
proof (induction n)
  case 0
  then show ?case using assms by (intro exI [of _ h]) simp
next
  case (Suc n)
  then obtain k where k: "(bench_step p B)\<^sup>*\<^sup>* h k" "on_course p B k" "\<forall>i. heard k i = length (sent k i)" "heard k 0 = bs_keys B"
    "released k" "\<forall>g. 0 < g \<and> g \<le> n \<longrightarrow> heard k g = bs_warmup B + bs_ops B" by blast
  obtain h' where h': "(bench_step p B)\<^sup>*\<^sup>* k h'" "on_course p B h'" "\<forall>i. heard h' i = length (sent h' i)"
    "heard h' (Suc n) = bs_warmup B + bs_ops B" "released h'" "\<forall>i. i \<noteq> Suc n \<longrightarrow> heard h' i = heard k i"
    using client_ends [OF assms(1,2) _ k(2-5), of "Suc n"] by auto
  then show ?case
    using k by (intro exI [of _ h']) (auto simp: le_Suc_eq intro: rtranclp_trans)
qed

lemma reach_run: "(bench_step p B)\<^sup>*\<^sup>* h h' \<Longrightarrow> bench_reach p B h \<Longrightarrow> bench_reach p B h'"
  by (induction rule: rtranclp_induct) (auto intro: bench_reach.step)

lemma to_the_end:
  assumes "bench_reach p B h" "fits B" "0 < bs_keys B"
  shows "\<exists>h'. (bench_step p B)\<^sup>*\<^sup>* h h' \<and> on_course p B h' \<and>
    (\<forall>g. 0 < g \<and> g \<le> n \<longrightarrow> heard h' g = bs_warmup B + bs_ops B)"
proof -
  obtain h1 where h1: "(bench_step p B)\<^sup>*\<^sup>* h h1" "\<And>g. heard h1 g = length (sent h1 g)"
    using settles [OF on_course_reach [OF assms(1,2)]] by metis
  note on1 = on_course_run [OF h1(1) assms(2) on_course_reach [OF assms(1,2)]]
  obtain h2 where h2: "(bench_step p B)\<^sup>*\<^sup>* h1 h2" "on_course p B h2" "\<forall>k. heard h2 k = length (sent h2 k)"
    "heard h2 0 = bs_keys B"
    using seeding_ends [OF assms(2) on1] h1(2) by auto
  let ?h3 = "h2\<lparr>released := True\<rparr>"
  note rel = bench_step.release [OF h2(4), of p]
  obtain h4 where h4: "(bench_step p B)\<^sup>*\<^sup>* ?h3 h4" "on_course p B h4"
    "\<forall>g. 0 < g \<and> g \<le> n \<longrightarrow> heard h4 g = bs_warmup B + bs_ops B"
    using clients_end [OF assms(2,3) on_course_step [OF assms(2) h2(2) rel], of n] h2(3,4) by auto
  have "(bench_step p B)\<^sup>*\<^sup>* h h4"
    using h1(1) h2(1) rel h4(1) by (meson rtranclp.rtrancl_into_rtrancl rtranclp_trans)
  with h4(2,3) show ?thesis by blast
qed

text \<open>Two keys, values of two bytes, one request of warm-up and two that are measured, half of them reads.\<close>

definition small_bench :: bench_setup where
  "small_bench = \<lparr>bs_keys = 2, bs_value = 2, bs_warmup = 1, bs_ops = 2, bs_ratio = 1 / 2\<rparr>"

lemma small_bench_fits: "fits small_bench"
proof -
  have "sendable (bench_line (plain_value 2) (False, i))" if "i < 2" for i
  proof -
    have "length (dec i) = 1" using that by (subst dec.simps) simp
    moreover have "newline \<notin> set (bench_key i)" using key_plain by blast
    ultimately show ?thesis
      by (simp add: sendable_def bench_line_def plain_value_def max_token_def bench_key_def itoa_dec)
  qed
  then show ?thesis by (simp add: fits_def small_bench_def)
qed

section \<open>Properties\<close>

text \<open>
  C31: the benchmark measures what it says, however many clients it runs at once. As long as the lines
  fit the server's buffer, whatever the clients, the handlers and the store's lock interleave and
  whatever the random numbers and durations are: every GET of a client is answered with the whole
  value and every SET with OK, so no run ever fails; each client has at most one request outstanding,
  sends what its workload says, and has exactly one latency recorded for every answer after its
  warm-up.
\<close>

theorem benchmark_measures_hits:
  assumes "bench_reach p B h" and "fits B" and "g \<noteq> 0"
  shows "(\<forall>i < heard h g. \<exists>pick. snd pick < bs_keys B \<and> may_pick (bs_ratio B) (fst pick) \<and>
      sent h g ! i = bench_line (plain_value (bs_value B)) pick \<and>
      replies (net h) g ! i = (if fst pick then plain_value (bs_value B) else ''OK'') @ [newline]) \<and>
    \<not> failed h g \<and> heard h g \<le> length (sent h g) \<and> length (sent h g) \<le> Suc (heard h g) \<and>
    length (lat h g) = heard h g - bs_warmup B"
proof -
  have inv: "bench_inv p B h"
    using assms(1,2) by (rule bench_inv_reach)
  note I = invD [OF inv]
  have l: "heard h g \<le> length (replies (net h) g)" "length (sent h g) \<le> Suc (heard h g)"
    "length (lat h g) = heard h g - bs_warmup B"
    using I(3) assms(3) by (simp_all add: loop_right_def)
  have "length (replies (net h) g) \<le> length (sent h g)"
    using history_sent(1,2) [OF I(1), of g] by (auto dest!: arg_cong [where f = length])
  moreover have "\<exists>pick. snd pick < bs_keys B \<and> may_pick (bs_ratio B) (fst pick) \<and>
      sent h g ! i = bench_line (plain_value (bs_value B)) pick \<and>
      replies (net h) g ! i = (if fst pick then plain_value (bs_value B) else ''OK'') @ [newline]"
    if "i < heard h g" for i
    using heard_asks [OF inv assms(3), of i] that l(1) unfolding asks_def expected_def by (meson less_le_trans)
  ultimately show ?thesis
    using l I(5) by auto
qed

theorem benchmark_measures_hits_witness:
  "\<exists>h. bench_reach (\<lambda>_. True) small_bench h \<and> heard h 1 = 3 \<and> length (lat h 1) = 2 \<and>
    (\<forall>i < 3. replies (net h) 1 ! i \<in> {''xx'' @ [newline], ''OK'' @ [newline]})"
proof -
  have sizes: "0 < bs_keys small_bench" "bs_warmup small_bench + bs_ops small_bench = 3"
    by (simp_all add: small_bench_def)
  obtain h where h: "bench_reach (\<lambda>_. True) small_bench h" "heard h 1 = 3"
    using to_the_end [OF bench_reach.start small_bench_fits sizes(1), of "\<lambda>_. True" 1]
      reach_run [OF _ bench_reach.start] unfolding sizes(2) by (metis le_refl zero_less_one)
  from benchmark_measures_hits [OF h(1) small_bench_fits, of 1] h show ?thesis
    by (intro exI [of _ h]) (fastforce simp: small_bench_def plain_value_def numeral_2_eq_2)
qed

text \<open>
  C32: no schedule gets the benchmark stuck. With at least one key (with none the first random choice of
  a key panics) and lines that fit the buffer of the server's scanner (a longer one is never answered):
  from whatever point the clients, the handlers and the store's lock have reached, with any number of
  clients, the run can go on until every one of the first \<open>n\<close> clients has all its answers, \<open>ops\<close> of them
  with a latency.
\<close>

theorem benchmark_can_finish:
  assumes "bench_reach p B h" and "fits B" and "0 < bs_keys B"
  shows "\<exists>h'. (bench_step p B)\<^sup>*\<^sup>* h h' \<and> bench_reach p B h' \<and>
    (\<forall>g. 0 < g \<and> g \<le> n \<longrightarrow> heard h' g = bs_warmup B + bs_ops B \<and> length (lat h' g) = bs_ops B)"
proof -
  obtain h' where h': "(bench_step p B)\<^sup>*\<^sup>* h h'" "on_course p B h'"
    "\<forall>g. 0 < g \<and> g \<le> n \<longrightarrow> heard h' g = bs_warmup B + bs_ops B"
    using to_the_end [OF assms] by blast
  moreover have "length (lat h' g) = heard h' g - bs_warmup B" if "0 < g" for g
    using h'(2) that by (simp add: on_course_def bench_inv_def loop_right_def)
  ultimately show ?thesis
    using reach_run [OF h'(1) assms(1)] by (intro exI [of _ h']) simp
qed

theorem benchmark_can_finish_witness:
  "\<exists>h. bench_reach (\<lambda>_. True) small_bench h \<and>
    (\<forall>g. 0 < g \<and> g \<le> 3 \<longrightarrow> heard h g = 3 \<and> length (lat h g) = 2)"
  using benchmark_can_finish [OF bench_reach.start small_bench_fits, of "\<lambda>_. True" 3]
  by (auto simp: small_bench_def numeral_3_eq_3)

end
