(* ===== verification/BenchClock.thy ===== *)
theory BenchClock
  imports Bench "HOL-Library.Signed_Division"
begin

text \<open>
  The clock of the load harness: \<open>nanos\<close> of bench/clock_windows.go, which scales a counter of \<open>q\<close>
  ticks per second to nanoseconds in 64-bit arithmetic, and \<open>probeClock\<close> of bench/main.go. The
  counter and its frequency are the platform's and arguments here; \<open>init\<close> ends the program when the
  frequency is 0.
\<close>

section \<open>Operations\<close>

type_synonym int64 = "64 word"

text \<open>Go's \<open>/\<close> and \<open>%\<close> on int64 round towards zero.\<close>

definition quotient :: "int64 \<Rightarrow> int64 \<Rightarrow> int64" where
  "quotient a b = word_of_int (sint a sdiv sint b)"

definition remainder :: "int64 \<Rightarrow> int64 \<Rightarrow> int64" where
  "remainder a b = word_of_int (sint a smod sint b)"

definition nanos :: "int64 \<Rightarrow> int64 \<Rightarrow> int64" where
  "nanos q c = quotient c q * 1000000000 + quotient (remainder c q * 1000000000) q"

text \<open>What the comment warns of: the count scaled before it is divided.\<close>

definition scaled_first :: "int64 \<Rightarrow> int64 \<Rightarrow> int64" where
  "scaled_first q c = quotient (c * 1000000000) q"

text \<open>
  \<open>gaps\<close> are the pairs \<open>(a, b)\<close> of back to back readings, \<open>t0\<close> and \<open>t1\<close> the readings around the
  second loop, \<open>n\<close> the constant 100000.
\<close>

fun smallest_gap :: "int64 \<Rightarrow> (int64 \<times> int64) list \<Rightarrow> int64" where
  "smallest_gap lo [] = lo"
| "smallest_gap lo ((a, b) # rs) = (let d = b - a in smallest_gap (if 0 < sint d \<and> sint d < sint lo then d else lo) rs)"

definition probe_clock :: "(int64 \<times> int64) list \<Rightarrow> int64 \<Rightarrow> int64 \<Rightarrow> int64 \<times> int64" where
  "probe_clock gaps t0 t1 = (smallest_gap (push_bit 62 1) gaps, quotient (t1 - t0) 100000)"

section \<open>Lemmas\<close>

lemma sint_fits: "0 \<le> i \<Longrightarrow> i < 2 ^ 63 \<Longrightarrow> sint (word_of_int i :: int64) = i"
  by (simp add: sint_sbintrunc' signed_take_bit_int_eq_self)

lemma sint_less: "sint (c :: int64) < 2 ^ 63" "- (2 ^ 63) \<le> sint (c :: int64)"
  using sint_lt [of c] sint_ge [of c] by simp_all

lemma sint_mult_fits: "0 \<le> sint a * sint b \<Longrightarrow> sint a * sint b < 2 ^ 63 \<Longrightarrow> sint (a * b :: int64) = sint a * sint b"
  using sint_fits [of "sint a * sint b"] by simp

lemma sint_add_fits: "0 \<le> sint a + sint b \<Longrightarrow> sint a + sint b < 2 ^ 63 \<Longrightarrow> sint (a + b :: int64) = sint a + sint b"
  using sint_fits [of "sint a + sint b"] by simp

lemma sint_billion [simp]: "sint (1000000000 :: int64) = 1000000000"
  by simp

lemma sint_quotient: "0 \<le> sint a \<Longrightarrow> 0 < sint b \<Longrightarrow> sint (quotient a b) = sint a div sint b"
proof -
  assume a: "0 \<le> sint a" "0 < sint b"
  have "sint a div sint b \<le> sint a" using zdiv_mono2 [of "sint a" 1 "sint b"] a by simp
  moreover have "sint a sdiv sint b = sint a div sint b"
    using a by (cases "sint a = 0") (simp_all add: signed_divide_int_def)
  ultimately show ?thesis
    using a sint_less [of a] unfolding quotient_def by (simp only:) (intro sint_fits, simp_all add: pos_imp_zdiv_nonneg_iff)
qed

lemma sint_remainder: "0 \<le> sint a \<Longrightarrow> 0 < sint b \<Longrightarrow> sint (remainder a b) = sint a mod sint b"
proof -
  assume a: "0 \<le> sint a" "0 < sint b"
  then have "sint a smod sint b = sint a mod sint b"
    by (cases "sint a = 0") (simp_all add: signed_modulo_int_def)
  then show ?thesis
    using a less_trans [OF pos_mod_bound [OF a(2), of "sint a"] sint_less(1)] unfolding remainder_def
    by (simp only:) (intro sint_fits, simp_all)
qed

text \<open>In whole numbers the split does not change the value.\<close>

lemma split_scaling: "(0 :: int) < q \<Longrightarrow> c div q * m + c mod q * m div q = c * m div q"
proof -
  assume q: "0 < q"
  have "c * m = c mod q * m + q * (c div q * m)"
    by (metis (no_types, opaque_lifting) add.commute distrib_right mult.assoc mult_div_mod_eq)
  then show ?thesis using q by (metis add.commute div_mult_self2 less_irrefl)
qed

lemma nanos_whole:
  assumes "0 < sint q" "sint q \<le> 9223372037" "0 \<le> sint c" "sint c * 1000000000 div sint q < 2 ^ 63"
  shows "sint (nanos q c) = sint c * 1000000000 div sint q"
proof -
  let ?a = "sint c div sint q" and ?r = "sint c mod sint q"
  have "?r < sint q" using assms(1) by simp
  with assms(2) have "?r \<le> 9223372036" by linarith
  then have r: "0 \<le> ?r" "?r * 1000000000 < 2 ^ 63"
    using assms(1) mult_right_mono [of ?r 9223372036 1000000000] by simp_all
  have a: "0 \<le> ?a" using assms(1,3) by (simp add: pos_imp_zdiv_nonneg_iff)
  have rest: "0 \<le> ?r * 1000000000 div sint q"
    using r(1) assms(1) by (simp add: pos_imp_zdiv_nonneg_iff)
  have sum: "?a * 1000000000 + ?r * 1000000000 div sint q = sint c * 1000000000 div sint q"
    by (rule split_scaling [OF assms(1)])
  then have left: "?a * 1000000000 < 2 ^ 63" using rest assms(4) by linarith
  have 1: "sint (quotient c q * 1000000000) = ?a * 1000000000"
    using a left sint_mult_fits [of "quotient c q" 1000000000] sint_quotient [OF assms(3,1)] by simp
  have 2: "sint (remainder c q * 1000000000) = ?r * 1000000000"
    using r sint_mult_fits [of "remainder c q" 1000000000] sint_remainder [OF assms(3,1)] by simp
  have 3: "sint (quotient (remainder c q * 1000000000) q) = ?r * 1000000000 div sint q"
    using r(1) by (subst sint_quotient) (simp_all add: 2 assms(1))
  have "sint (nanos q c) = ?a * 1000000000 + ?r * 1000000000 div sint q"
    unfolding nanos_def
    using sint_add_fits [of "quotient c q * 1000000000" "quotient (remainder c q * 1000000000) q", unfolded 1 3]
      a rest assms(4) sum by simp
  with sum show ?thesis by simp
qed

text \<open>
  From 9,223,372,037 ticks on the product no longer fits: it wraps to a number that is smaller by a
  multiple of \<open>2 ^ 64\<close>, and so is the quotient.
\<close>

lemma scaled_first_wraps:
  assumes "9223372037 \<le> sint c"
  shows "sint (scaled_first 10000000 c) < sint c * 1000000000 div 10000000"
proof -
  let ?w = "c * 1000000000" and ?P = "sint c * 1000000000"
  have wrapped: "sint ?w \<le> ?P - 2 ^ 64"
  proof -
    have "sint ?w = signed_take_bit 63 ?P" by (simp add: sint_word_mult)
    moreover have "2 ^ 63 \<le> ?P" using assms by simp
    ultimately show ?thesis using signed_take_bit_int_less_eq [of 63 ?P] by simp
  qed
  show ?thesis
  proof (cases "0 \<le> sint ?w")
    case True
    then have "sint (scaled_first 10000000 c) = sint ?w div 10000000"
      using sint_quotient [of ?w 10000000] by (simp add: scaled_first_def)
    also have "\<dots> \<le> (?P - 10000000) div 10000000"
      using wrapped by (intro zdiv_mono1) simp_all
    also have "\<dots> < ?P div 10000000" by simp
    finally show ?thesis .
  next
    case False
    let ?n = "- sint ?w div 10000000"
    have "sint ?w sdiv 10000000 = - ?n"
      using False by (simp add: signed_divide_int_def)
    moreover have "0 \<le> ?n" using False by (simp add: pos_imp_zdiv_nonneg_iff)
    moreover have "?n \<le> 2 ^ 63"
      using sint_less(2) [of ?w] zdiv_mono1 [of "- sint ?w" "2 ^ 63" 10000000] by simp
    moreover have fits: "sint (word_of_int i :: int64) = i" if "- (2 ^ 63) \<le> i" "i < 2 ^ 63" for i
      using that by (simp add: sint_sbintrunc' signed_take_bit_int_eq_self)
    have "sint (word_of_int (- ?n) :: int64) = - ?n"
      using \<open>0 \<le> ?n\<close> \<open>?n \<le> 2 ^ 63\<close> by (intro fits; simp)
    ultimately have "sint (word_of_int (sint ?w sdiv 10000000) :: int64) \<le> 0" by (simp only: neg_le_0_iff_le)
    then have "sint (scaled_first 10000000 c) \<le> 0"
      by (simp add: scaled_first_def quotient_def)
    also have "0 < ?P div 10000000" using assms by (simp add: pos_imp_zdiv_pos_iff)
    finally show ?thesis .
  qed
qed

lemma smallest_gap_right:
  "sint (smallest_gap lo gaps) \<le> sint lo \<and>
   (\<forall>(a, b) \<in> set gaps. 0 < sint (b - a) \<longrightarrow> sint (smallest_gap lo gaps) \<le> sint (b - a)) \<and>
   (smallest_gap lo gaps = lo \<or> (\<exists>(a, b) \<in> set gaps. 0 < sint (b - a) \<and> smallest_gap lo gaps = b - a))"
  by (induction lo gaps rule: smallest_gap.induct) (fastforce simp: Let_def split: if_splits)+

section \<open>Property\<close>

text \<open>
  C34: the Windows clock reads right. With a counter of at most 9,223,372,037 ticks per second, and as
  long as the result itself fits an int64, no intermediate product overflows: \<open>nanos\<close> is the count in
  nanoseconds, rounded down, so it never runs backwards. And a counter of 10 MHz scaled before it is
  divided would read too little at every moment from 9,223,372,037 ticks on, about a quarter of an hour.
\<close>

theorem nanos_never_overflows:
  assumes "0 < sint q" and "sint q \<le> 9223372037"
    and "0 \<le> sint c" and "sint c \<le> sint d" and "sint d * 1000000000 div sint q < 2 ^ 63"
  shows "sint (nanos q c) = sint c * 1000000000 div sint q \<and> sint (nanos q d) = sint d * 1000000000 div sint q \<and>
    sint (nanos q c) \<le> sint (nanos q d) \<and>
    (q = 10000000 \<longrightarrow> (\<forall>x. 9223372037 \<le> sint x \<and> sint x * 100 < 2 ^ 63 \<longrightarrow>
       sint (scaled_first q x) < sint (nanos q x)))"
proof -
  have le: "sint c * 1000000000 div sint q \<le> sint d * 1000000000 div sint q"
    using assms(1,4) by (intro zdiv_mono1) simp_all
  moreover have "sint (scaled_first 10000000 x) < sint (nanos 10000000 x)"
    if "9223372037 \<le> sint x" "sint x * 100 < 2 ^ 63" for x
  proof -
    have "sint x * 1000000000 div 10000000 = sint x * 100"
      using nonzero_mult_div_cancel_right [of 10000000 "sint x * 100"] by simp
    then have "sint (nanos 10000000 x) = sint x * 1000000000 div 10000000"
      using that nanos_whole [of 10000000 x] by simp
    with scaled_first_wraps [OF that(1)] show ?thesis by simp
  qed
  ultimately show ?thesis
    using nanos_whole [OF assms(1,2,3)] nanos_whole [OF assms(1,2) _ assms(5)] assms(3,4,5) by simp
qed

text \<open>Half a year of uptime at 10 MHz.\<close>

theorem nanos_never_overflows_witness:
  "sint (nanos 10000000 157680000000001) = 15768000000000100 \<and>
   sint (nanos 10000000 157680000000000) \<le> sint (nanos 10000000 157680000000001)"
  using nanos_never_overflows [of 10000000 157680000000000 157680000000001] by simp

end
