(* ===== verification/BenchMain.thy ===== *)
theory BenchMain
  imports BenchRun BenchClock
begin

text \<open>
  The load harness as a whole (bench/main.go \<open>main\<close>): the flags, the seeding, and one row of the table
  for every workload and number of clients, the median of its runs, in order, until the first failure.
  What each run measured is an argument, by cell and run.
\<close>

section \<open>One run\<close>

text \<open>The errors of the clients as they dial and as they run, the latencies and the time of the whole run.\<close>

record 'e measured =
  ms_dials :: "'e option list"
  ms_errs :: "'e option list"
  ms_lats :: "nat list list"
  ms_elapsed :: nat

fun first_error :: "'e option list \<Rightarrow> 'e option" where
  "first_error [] = None"
| "first_error (e # es) = (case e of None \<Rightarrow> first_error es | Some x \<Rightarrow> Some x)"

definition measure_outcome :: "'e measured \<Rightarrow> 'e + bench_result" where
  "measure_outcome m =
     (case first_error (ms_dials m) of
        Some e \<Rightarrow> Inl e
      | None \<Rightarrow>
          (case first_error (ms_errs m) of
             Some e \<Rightarrow> Inl e
           | None \<Rightarrow> Inr (measure_result (ms_lats m) (ms_elapsed m))))"

section \<open>The table\<close>

record table_row =
  tr_workload :: workload
  tr_clients :: int
  tr_best :: bench_result
  tr_spread :: rat

datatype 'e bench_exit =
  BenchDone | BadClients flag_error | BadWorkloads flag_error | PopulateFails 'e | CellFails workload int 'e | BenchPanics

text \<open>The loop over the cells, numbered from \<open>i\<close> on.\<close>

fun sweep ::
  "nat \<Rightarrow> (nat \<Rightarrow> nat \<Rightarrow> 'e measured) \<Rightarrow> nat \<Rightarrow> (workload \<times> int) list \<Rightarrow> table_row list \<times> 'e bench_exit" where
  "sweep runs run i [] = ([], BenchDone)"
| "sweep runs run i ((w, n) # cells) =
     (case repeat_cell (map (\<lambda>j. measure_outcome (run i j)) [0..<runs]) of
        Failed e \<Rightarrow> ([], CellFails w n e)
      | Panics \<Rightarrow> ([], BenchPanics)
      | Median best spread \<Rightarrow>
          (let (rows, exit) = sweep runs run (Suc i) cells in
           (\<lparr>tr_workload = w, tr_clients = n, tr_best = best, tr_spread = spread\<rparr> # rows, exit)))"

definition bench_main ::
  "bytes \<Rightarrow> bytes \<Rightarrow> 'e option \<Rightarrow> nat \<Rightarrow> (nat \<Rightarrow> nat \<Rightarrow> 'e measured) \<Rightarrow> table_row list \<times> 'e bench_exit" where
  "bench_main clients workloads populated runs run =
     (case parse_ints clients of
        Inl e \<Rightarrow> ([], BadClients e)
      | Inr counts \<Rightarrow>
          (case parse_workloads workloads of
             Inl e \<Rightarrow> ([], BadWorkloads e)
           | Inr mixes \<Rightarrow>
               (case populated of
                  Some e \<Rightarrow> ([], PopulateFails e)
                | None \<Rightarrow> sweep runs run 0 (List.product mixes counts))))"

section \<open>Printing\<close>

text \<open>\<open>%.df\<close> of a number that is not negative: the nearest decimal, and the even one of two.\<close>

definition round_even :: "rat \<Rightarrow> nat" where
  "round_even x =
     (let k = nat \<lfloor>x\<rfloor>; f = x - of_nat k in
      if f < 1 / 2 then k else if 1 / 2 < f then k + 1 else if even k then k else k + 1)"

definition pad_left :: "nat \<Rightarrow> char \<Rightarrow> bytes \<Rightarrow> bytes" where
  "pad_left w c s = replicate (w - length s) c @ s"

definition pad_right :: "nat \<Rightarrow> bytes \<Rightarrow> bytes" where
  "pad_right w s = s @ replicate (w - length s) (CHR '' '')"

definition fixed0 :: "rat \<Rightarrow> bytes" where
  "fixed0 x = dec (round_even x)"

definition fixed1 :: "rat \<Rightarrow> bytes" where
  "fixed1 x = (let n = round_even (10 * x) in dec (n div 10) @ ''.'' @ dec (n mod 10))"

text \<open>\<open>Microseconds\<close> drops the rest, so nothing is left to round.\<close>

definition dur :: "nat \<Rightarrow> bytes" where
  "dur d = dec (d div 1000) @ ''us''"

definition columns :: "bytes list \<Rightarrow> bytes" where
  "columns fs = foldl (\<lambda>line f. line @ '' '' @ f) (hd fs) (tl fs)"

definition header_text :: bytes where
  "header_text = columns
     [pad_right 9 ''workload'', pad_left 8 (CHR '' '') ''clients'', pad_left 12 (CHR '' '') ''ops/sec'',
      pad_left 8 (CHR '' '') ''spread'', pad_left 9 (CHR '' '') ''p50'', pad_left 9 (CHR '' '') ''p90'',
      pad_left 9 (CHR '' '') ''p99'', pad_left 9 (CHR '' '') ''max'']"

text \<open>\<open>fl\<close> rounds the floating-point operations.\<close>

definition row_text :: "(rat \<Rightarrow> rat) \<Rightarrow> table_row \<Rightarrow> bytes" where
  "row_text fl r = columns
     [pad_right 9 (wl_name (tr_workload r)), pad_left 8 (CHR '' '') (dec_int (tr_clients r)),
      pad_left 12 (CHR '' '') (fixed0 (fl (ops_per_sec (tr_best r)))),
      pad_left 7 (CHR '' '') (fixed1 (fl (tr_spread r * 100))) @ ''%'',
      pad_left 9 (CHR '' '') (dur (pct fl 50 (tr_best r))), pad_left 9 (CHR '' '') (dur (pct fl 90 (tr_best r))),
      pad_left 9 (CHR '' '') (dur (pct fl 99 (tr_best r))), pad_left 9 (CHR '' '') (dur (slowest (tr_best r)))]"

section \<open>Lemmas\<close>

lemma all_runs_fine: "all_runs (map Inr rs) = Inr rs"
  by (induction rs) simp_all

lemma all_runs_Inr: "all_runs os = Inr rs \<Longrightarrow> os = map Inr rs"
  by (induction os arbitrary: rs rule: all_runs.induct) (auto split: sum.splits)

lemma all_runs_Inl:
  "all_runs os = Inl e \<Longrightarrow> \<exists>j < length os. os ! j = Inl e \<and> (\<forall>i < j. \<exists>r. os ! i = Inr r)"
proof (induction os rule: all_runs.induct)
  case (3 r os)
  then obtain j where "j < length os" "os ! j = Inl e" "\<forall>i < j. \<exists>r. os ! i = Inr r"
    by (auto split: sum.splits)
  then show ?case
    by (intro exI [of _ "Suc j"]) (auto simp: nth_Cons split: nat.split)
qed auto

text \<open>
  A median without sorting: one of the runs, at most half of them slower, and fewer than half of them
  faster. The spread goes from the slowest run to the fastest.
\<close>

definition median_run :: "bench_result list \<Rightarrow> bench_result \<Rightarrow> bool" where
  "median_run rs m \<longleftrightarrow> m \<in> set rs \<and>
     length (filter (\<lambda>r. ops_per_sec r < ops_per_sec m) rs) \<le> length rs div 2 \<and>
     length (filter (\<lambda>r. ops_per_sec m < ops_per_sec r) rs) < length rs - length rs div 2"

definition spread_of :: "bench_result list \<Rightarrow> bench_result \<Rightarrow> rat" where
  "spread_of rs m =
     (if ops_per_sec m = 0 then 0
      else (Max (ops_per_sec ` set rs) - Min (ops_per_sec ` set rs)) / ops_per_sec m)"

lemma sort_key_Nil: "sort_key f xs = [] \<longleftrightarrow> xs = []"
  by (metis length_0_conv length_sort)

lemma sort_key_nth_mono:
  "i \<le> j \<Longrightarrow> j < length xs \<Longrightarrow> f (sort_key f xs ! i) \<le> f (sort_key f xs ! j)"
  using sorted_nth_mono [OF sorted_sort_key, of i j f xs] by simp

lemma below_place: "k \<le> length xs \<Longrightarrow> (\<And>i. k \<le> i \<Longrightarrow> i < length xs \<Longrightarrow> \<not> P (xs ! i)) \<Longrightarrow> length (filter P xs) \<le> k"
proof -
  assume k: "k \<le> length xs" and P: "\<And>i. k \<le> i \<Longrightarrow> i < length xs \<Longrightarrow> \<not> P (xs ! i)"
  have "filter P (drop k xs) = []"
    using P k by (auto simp: filter_empty_conv in_set_conv_nth)
  then have "filter P xs = filter P (take k xs)"
    by (metis append_Nil2 append_take_drop_id filter_append)
  with k show ?thesis
    using length_filter_le [of P "take k xs"] by simp
qed

lemma above_place: "k \<le> length xs \<Longrightarrow> (\<And>i. i < k \<Longrightarrow> \<not> P (xs ! i)) \<Longrightarrow> length (filter P xs) \<le> length xs - k"
proof -
  assume k: "k \<le> length xs" and P: "\<And>i. i < k \<Longrightarrow> \<not> P (xs ! i)"
  have "filter P (take k xs) = []"
    using P k by (auto simp: filter_empty_conv in_set_conv_nth)
  then have "filter P xs = filter P (drop k xs)"
    by (metis append_Nil append_take_drop_id filter_append)
  with k show ?thesis
    using length_filter_le [of P "drop k xs"] by simp
qed

lemma sort_key_median:
  assumes "rs \<noteq> []"
  shows "median_run rs (sort_key ops_per_sec rs ! (length rs div 2))"
proof -
  let ?rs = "sort_key ops_per_sec rs" and ?k = "length rs div 2"
  let ?m = "?rs ! ?k"
  have k: "?k < length ?rs" using assms by simp
  have same: "length (filter P ?rs) = length (filter P rs)" for P
    by (simp add: filter_sort)
  have "length (filter (\<lambda>r. ops_per_sec r < ops_per_sec ?m) ?rs) \<le> ?k"
    using k by (intro below_place) (auto simp: not_less intro!: sort_key_nth_mono)
  moreover have "length (filter (\<lambda>r. ops_per_sec ?m < ops_per_sec r) ?rs) \<le> length ?rs - Suc ?k"
    using k by (intro above_place) (auto simp: not_less intro!: sort_key_nth_mono)
  moreover have "?m \<in> set rs" using nth_mem [OF k] by simp
  ultimately show ?thesis
    using k unfolding same by (simp add: median_run_def)
qed

lemma sort_key_ends:
  assumes "rs \<noteq> []"
  shows "ops_per_sec (hd (sort_key ops_per_sec rs)) = Min (ops_per_sec ` set rs)"
    and "ops_per_sec (last (sort_key ops_per_sec rs)) = Max (ops_per_sec ` set rs)"
proof -
  let ?rs = "sort_key ops_per_sec rs"
  have ne: "?rs \<noteq> []" using assms by (simp add: sort_key_Nil)
  have "ops_per_sec (?rs ! 0) \<le> ops_per_sec r \<and> ops_per_sec r \<le> ops_per_sec (?rs ! (length ?rs - 1))" if r: "r \<in> set rs" for r
  proof -
    obtain i where "i < length ?rs" "?rs ! i = r" using r by (metis in_set_conv_nth set_sort)
    then show ?thesis
      using sort_key_nth_mono [of 0 i rs ops_per_sec] sort_key_nth_mono [of i "length ?rs - 1" rs ops_per_sec] by simp
  qed
  moreover have "hd ?rs \<in> set rs" "last ?rs \<in> set rs" using ne hd_in_set last_in_set by fastforce+
  ultimately show "ops_per_sec (hd ?rs) = Min (ops_per_sec ` set rs)" "ops_per_sec (last ?rs) = Max (ops_per_sec ` set rs)"
    using ne by (auto intro!: Min_eqI [symmetric] Max_eqI [symmetric] simp: hd_conv_nth last_conv_nth)
qed

lemma repeat_cell_median:
  assumes "repeat_cell os = Median best spread"
  obtains rs where "os = map Inr rs" "median_run rs best" "spread = spread_of rs best"
proof -
  obtain rs where rs: "all_runs os = Inr rs"
    using assms by (auto simp: repeat_cell_def split: sum.splits)
  let ?rs = "sort_key ops_per_sec rs"
  have ne: "rs \<noteq> []" and best: "best = ?rs ! (length rs div 2)"
    using assms rs by (auto simp: repeat_cell_def Let_def sort_key_Nil split: if_splits)
  moreover have "spread = spread_of rs best"
    using assms rs ne sort_key_ends [OF ne] best
    by (simp add: repeat_cell_def Let_def sort_key_Nil spread_of_def split: if_splits)
  ultimately show thesis
    using all_runs_Inr [OF rs] sort_key_median [OF ne] that by blast
qed

lemma repeat_cell_failed: "repeat_cell os = Failed e \<Longrightarrow> all_runs os = Inl e"
  by (auto simp: repeat_cell_def Let_def split: sum.splits if_splits)

lemma repeat_cell_panics: "repeat_cell os = Panics \<longleftrightarrow> os = []"
  by (auto simp: repeat_cell_def Let_def sort_key_Nil dest: all_runs_Inr split: sum.splits if_splits)

lemma outcome_result: "measure_outcome m = Inr r \<Longrightarrow> \<exists>lats e. r = measure_result lats e"
  by (auto simp: measure_outcome_def split: option.splits)

lemma pad_length [simp]: "length (pad_left w c s) = max w (length s)" "length (pad_right w s) = max w (length s)"
  by (simp_all add: pad_left_def pad_right_def)

lemma columns_length: "fs \<noteq> [] \<Longrightarrow> length (columns fs) + 1 = (\<Sum>f\<leftarrow>fs. length f + 1)"
proof -
  have "length (foldl (\<lambda>line f. line @ '' '' @ f) s fs) = length s + (\<Sum>f\<leftarrow>fs. length f + 1)" for s :: bytes and fs
    by (induction fs arbitrary: s) simp_all
  then show "fs \<noteq> [] \<Longrightarrow> ?thesis"
    by (cases fs) (simp_all add: columns_def)
qed

text \<open>A row is as wide as the header when its fields fit.\<close>

lemma row_lines_up:
  assumes "length (wl_name (tr_workload r)) \<le> 9" "length (dec_int (tr_clients r)) \<le> 8"
    "length (fixed0 (fl (ops_per_sec (tr_best r)))) \<le> 12" "length (fixed1 (fl (tr_spread r * 100))) \<le> 7"
    "\<forall>d \<in> set [pct fl 50 (tr_best r), pct fl 90 (tr_best r), pct fl 99 (tr_best r), slowest (tr_best r)]. length (dur d) \<le> 9"
  shows "length (row_text fl r) = length header_text"
proof -
  have "length (row_text fl r) + 1 = length header_text + 1"
    unfolding row_text_def header_text_def using assms by (subst (1 2) columns_length) (simp_all add: max_def)
  then show ?thesis by simp
qed

text \<open>What the loop over the cells prints, and where it stops.\<close>

definition outcomes :: "nat \<Rightarrow> (nat \<Rightarrow> 'e measured) \<Rightarrow> ('e + bench_result) list" where
  "outcomes runs run = map (\<lambda>j. measure_outcome (run j)) [0..<runs]"

definition row_right :: "nat \<Rightarrow> (nat \<Rightarrow> 'e measured) \<Rightarrow> table_row \<Rightarrow> bool" where
  "row_right runs run r \<longleftrightarrow>
     (\<exists>rs. outcomes runs run = map Inr rs \<and> median_run rs (tr_best r) \<and> tr_spread r = spread_of rs (tr_best r))"

definition first_failure :: "nat \<Rightarrow> (nat \<Rightarrow> 'e measured) \<Rightarrow> 'e \<Rightarrow> bool" where
  "first_failure runs run e \<longleftrightarrow>
     (\<exists>j < runs. measure_outcome (run j) = Inl e \<and> (\<forall>i < j. \<exists>r. measure_outcome (run i) = Inr r))"

fun stops_at :: "nat \<Rightarrow> (nat \<Rightarrow> nat \<Rightarrow> 'e measured) \<Rightarrow> nat \<Rightarrow> (workload \<times> int) list \<Rightarrow> nat \<Rightarrow> 'e bench_exit \<Rightarrow> bool" where
  "stops_at runs run i cells k BenchDone \<longleftrightarrow> k = length cells"
| "stops_at runs run i cells k (CellFails w n e) \<longleftrightarrow>
     k < length cells \<and> cells ! k = (w, n) \<and> first_failure runs (run (i + k)) e"
| "stops_at runs run i cells k BenchPanics \<longleftrightarrow> runs = 0 \<and> k = 0 \<and> cells \<noteq> []"
| "stops_at runs run i cells k _ \<longleftrightarrow> False"

lemma stops_later:
  "stops_at runs run (Suc i) cells k exit \<Longrightarrow> 0 < runs \<Longrightarrow> stops_at runs run i (c # cells) (Suc k) exit"
  by (cases exit) simp_all

lemma sweep_right:
  assumes "sweep runs run i cells = (rows, exit)"
  shows "map (\<lambda>r. (tr_workload r, tr_clients r)) rows = take (length rows) cells \<and>
    (\<forall>k < length rows. row_right runs (run (i + k)) (rows ! k)) \<and> stops_at runs run i cells (length rows) exit"
  using assms
proof (induction runs run i cells arbitrary: rows rule: sweep.induct)
  case (2 runs run i w n cells)
  let ?os = "map (\<lambda>j. measure_outcome (run i j)) [0..<runs]"
  have os: "?os = outcomes runs (run i)" by (simp add: outcomes_def)
  show ?case
  proof (cases "repeat_cell ?os")
    case (Failed e)
    from all_runs_Inl [OF repeat_cell_failed [OF this]] have "first_failure runs (run i) e"
      by (auto simp: first_failure_def)
    with 2(2) Failed show ?thesis by auto
  next
    case Panics
    then have "runs = 0" by (simp add: repeat_cell_panics)
    with 2(2) Panics show ?thesis by auto
  next
    case (Median best spread)
    obtain rest where rest: "sweep runs run (Suc i) cells = (rest, exit)"
      "rows = \<lparr>tr_workload = w, tr_clients = n, tr_best = best, tr_spread = spread\<rparr> # rest"
      using 2(2) Median by (auto simp: Let_def split: prod.splits)
    note IH = 2(1) [OF Median rest(1)]
    obtain rs where "outcomes runs (run i) = map Inr rs" "median_run rs best" "spread = spread_of rs best"
      using repeat_cell_median [OF Median] unfolding os by blast
    then have best: "row_right runs (run i) \<lparr>tr_workload = w, tr_clients = n, tr_best = best, tr_spread = spread\<rparr>"
      by (auto simp: row_right_def)
    have "runs \<noteq> 0" using Median repeat_cell_panics [of ?os] by (metis cell.distinct(5) list.map(1) upt_0)
    then have "0 < runs" by simp
    with IH stops_later [of runs run i cells "length rest" exit] best show ?thesis
      by (auto simp: rest(2) nth_Cons split: nat.split)
  qed
qed auto

section \<open>Property\<close>

text \<open>
  C33: the table is what it says. The rows are those of the first cells of the sweep, workload by
  workload and count by count as the flags name them. Every row stands for runs of its own cell that all
  came back without an error: it is a median of them, at most half of the runs being slower and fewer
  than half faster, its spread goes from the slowest to the fastest of them, and its percentiles are in
  order. The table is complete unless a flag or the seeding failed, no runs were asked for, or a run
  failed: then it stops before the cell that is named, with the error of the first run of that cell
  that failed.
\<close>

theorem table_is_what_it_says:
  assumes "mono fl" and "bench_main clients workloads populated runs run = (rows, exit)"
    and "cells = (case (parse_workloads workloads, parse_ints clients) of (Inr ws, Inr ns) \<Rightarrow> List.product ws ns | _ \<Rightarrow> [])"
  shows "map (\<lambda>r. (tr_workload r, tr_clients r)) rows = take (length rows) cells \<and>
    (\<forall>k < length rows.
      (\<exists>rs. map (\<lambda>j. measure_outcome (run k j)) [0..<runs] = map Inr rs \<and> median_run rs (tr_best (rows ! k)) \<and>
         tr_spread (rows ! k) = spread_of rs (tr_best (rows ! k))) \<and>
      pct fl 50 (tr_best (rows ! k)) \<le> pct fl 90 (tr_best (rows ! k)) \<and>
      pct fl 90 (tr_best (rows ! k)) \<le> pct fl 99 (tr_best (rows ! k)) \<and>
      pct fl 99 (tr_best (rows ! k)) \<le> slowest (tr_best (rows ! k))) \<and>
    (case exit of
       BenchDone \<Rightarrow> length rows = length cells \<and> populated = None
     | BadClients e \<Rightarrow> parse_ints clients = Inl e \<and> rows = []
     | BadWorkloads e \<Rightarrow> parse_workloads workloads = Inl e \<and> rows = []
     | PopulateFails e \<Rightarrow> populated = Some e \<and> rows = []
     | CellFails w n e \<Rightarrow> length rows < length cells \<and> cells ! length rows = (w, n) \<and>
         (\<exists>j < runs. measure_outcome (run (length rows) j) = Inl e \<and>
            (\<forall>i < j. \<exists>r. measure_outcome (run (length rows) i) = Inr r))
     | BenchPanics \<Rightarrow> runs = 0 \<and> rows = [])"
proof (cases "\<exists>ns ws. parse_ints clients = Inr ns \<and> parse_workloads workloads = Inr ws \<and> populated = None")
  case True
  then have "sweep runs run 0 cells = (rows, exit)"
    using assms(2,3) by (auto simp: bench_main_def)
  note S = sweep_right [OF this, unfolded row_right_def outcomes_def]
  have "\<exists>lats e. tr_best (rows ! k) = measure_result lats e" if k: "k < length rows" for k
  proof -
    obtain rs where "map (\<lambda>j. measure_outcome (run k j)) [0..<runs] = map Inr rs" "tr_best (rows ! k) \<in> set rs"
      using S k by (auto simp: median_run_def)
    then have "Inr (tr_best (rows ! k)) \<in> set (map (\<lambda>j. measure_outcome (run k j)) [0..<runs])"
      by simp
    then obtain j where "measure_outcome (run k j) = Inr (tr_best (rows ! k))"
      by (force simp del: set_upt)
    then show ?thesis by (rule outcome_result)
  qed
  then have order: "pct fl 50 (tr_best (rows ! k)) \<le> pct fl 90 (tr_best (rows ! k))"
      "pct fl 90 (tr_best (rows ! k)) \<le> pct fl 99 (tr_best (rows ! k))"
      "pct fl 99 (tr_best (rows ! k)) \<le> slowest (tr_best (rows ! k))" if "k < length rows" for k
    using percentiles_in_order [OF assms(1)] that by fastforce+
  with S True show ?thesis
    by (cases exit) (simp_all add: first_failure_def)
next
  case False
  then have "rows = []" using assms(2) by (auto simp: bench_main_def split: sum.splits option.splits)
  with False assms(2) show ?thesis
    by (auto simp: bench_main_def split: sum.splits option.splits)
qed

definition one_read :: "nat \<Rightarrow> nat \<Rightarrow> unit measured" where
  "one_read i j = \<lparr>ms_dials = [None], ms_errs = [None], ms_lats = [[5000]], ms_elapsed = 10000\<rparr>"

theorem table_is_what_it_says_witness:
  "map (\<lambda>r. (wl_name (tr_workload r), tr_clients r)) (fst (bench_main ''2'' ''get'' None 1 one_read)) = [(''get'', 2)] \<and>
   snd (bench_main ''2'' ''get'' None 1 one_read) = BenchDone"
proof -
  obtain rows exit where r: "bench_main ''2'' ''get'' None 1 one_read = (rows, exit)"
    by (cases "bench_main ''2'' ''get'' None 1 one_read")
  have trim: "trim_space ''2'' = ''2''" "trim_space ''get'' = ''get''"
    by (simp_all add: trim_space_def decode_ascii byte_def is_space_def between_def after_rune_def rune_bytes_def)
  have parsed: "parse_ints ''2'' = Inr [2]" "parse_workloads ''get'' = Inr [\<lparr>wl_name = ''get'', wl_read_ratio = 1\<rparr>]"
    by (simp_all add: parse_ints_def parse_workloads_def trim sscanf_int_def is_digit_def between_def byte_def)
  from table_is_what_it_says [OF monoI r refl, of id] show ?thesis
    unfolding r by (cases exit; cases rows) (auto simp: parsed one_read_def measure_outcome_def)
qed

end
