(* ===== verification/GoTests.thy ===== *)
theory GoTests
  imports Recorded ServerIso ConsolePage Bench
begin

text \<open>
  The tests of the repository (protocol/protocol_test.go, store/store_test.go, server/server_test.go,
  cmd/kvstore-web/main_test.go), run on the definitions of this development. The two concurrent tests
  are proved for every interleaving.
\<close>

section \<open>Parsing and replies\<close>

text \<open>A case of \<open>TestParse\<close>: the line, and the command that is wanted; \<open>None\<close> wants an error.\<close>

record parse_case =
  pc_line :: bytes
  pc_want :: "command option"

definition parse_cases :: "parse_case list" where
  "parse_cases =
     [\<lparr>pc_line = ''GET name'', pc_want = Some \<lparr>cmd_op = OpGet, cmd_key = ''name'', cmd_value = []\<rparr>\<rparr>,
      \<lparr>pc_line = ''SET name alice'', pc_want = Some \<lparr>cmd_op = OpSet, cmd_key = ''name'', cmd_value = ''alice''\<rparr>\<rparr>,
      \<lparr>pc_line = ''DEL name'', pc_want = Some \<lparr>cmd_op = OpDel, cmd_key = ''name'', cmd_value = []\<rparr>\<rparr>,
      \<lparr>pc_line = ''get name'', pc_want = Some \<lparr>cmd_op = OpGet, cmd_key = ''name'', cmd_value = []\<rparr>\<rparr>,
      \<lparr>pc_line = ''SET name alice smith jr'',
        pc_want = Some \<lparr>cmd_op = OpSet, cmd_key = ''name'', cmd_value = ''alice smith jr''\<rparr>\<rparr>,
      \<lparr>pc_line = ''GET name'' @ [return, newline], pc_want = Some \<lparr>cmd_op = OpGet, cmd_key = ''name'', cmd_value = []\<rparr>\<rparr>,
      \<lparr>pc_line = [], pc_want = None\<rparr>,
      \<lparr>pc_line = ''   '', pc_want = None\<rparr>,
      \<lparr>pc_line = ''PING'', pc_want = None\<rparr>,
      \<lparr>pc_line = ''GET'', pc_want = None\<rparr>,
      \<lparr>pc_line = ''GET a b'', pc_want = None\<rparr>,
      \<lparr>pc_line = ''SET key'', pc_want = None\<rparr>,
      \<lparr>pc_line = ''DEL'', pc_want = None\<rparr>]"

definition parse_passes :: "parse_case \<Rightarrow> bool" where
  "parse_passes c = (case pc_want c of None \<Rightarrow> isl (parse (pc_line c)) | Some w \<Rightarrow> parse (pc_line c) = Inr w)"

lemma upper_get: "to_upper ''get'' = ''GET''"
  by (simp add: decode_rune_def upper_rune_def rune_bytes_def after_rune_def between_def byte_def)
    (simp add: char_of_eq_iff take_bit_eq_mod)

lemma lower_case_verb: "parse ''get name'' = Inr \<lparr>cmd_op = OpGet, cmd_key = ''name'', cmd_value = []\<rparr>"
  using upper_get
  by (intro parse_built [of "''get''"]) (simp_all add: arguments_def well_formed_def trim_eol_def)

lemma other_cases:
  "parse ''SET name alice smith jr'' = Inr \<lparr>cmd_op = OpSet, cmd_key = ''name'', cmd_value = ''alice smith jr''\<rparr>"
  "parse (''GET name'' @ [return, newline]) = Inr \<lparr>cmd_op = OpGet, cmd_key = ''name'', cmd_value = []\<rparr>"
  "parse [] = Inl ErrEmpty" "parse ''   '' = Inl ErrEmpty" "parse ''GET a b'' = Inl (TakesOneKey ''GET'')"
  "parse ''SET key'' = Inl SetTakes" "parse ''DEL'' = Inl (TakesOneKey ''DEL'')"
  by (simp_all add: line_eval)

lemma test_parse: "list_all parse_passes parse_cases"
  using other_cases(2)
  by (simp add: parse_cases_def parse_passes_def captured_parses other_cases lower_case_verb)

lemma test_replies:
  "reply_value ''alice'' = ''alice'' @ [newline]" "reply_nil = ''(nil)'' @ [newline]" "reply_ok = ''OK'' @ [newline]"
  "reply_int 1 = ''1'' @ [newline]" "reply_error ''boom'' = ''ERR boom'' @ [newline]"
  by (simp_all add: reply_value_def reply_nil_def reply_ok_def reply_int_small reply_error_def)

section \<open>The store\<close>

lemma test_store:
  "mem_get ''name'' (mem_set ''name'' ''alice'' new_memory_store) = (''alice'', True)"
  "\<not> snd (mem_get ''nope'' new_memory_store)"
  "fst (mem_get ''k'' (mem_set ''k'' ''two'' (mem_set ''k'' ''one'' new_memory_store))) = ''two''"
  "let s = mem_set ''k'' ''v'' new_memory_store in fst (mem_delete ''k'' s) \<and>
     \<not> snd (mem_get ''k'' (snd (mem_delete ''k'' s))) \<and> \<not> fst (mem_delete ''k'' (snd (mem_delete ''k'' s)))"
  "mem_get ''k'' (mem_set ''k'' [] new_memory_store) = ([], True)"
  by (simp_all add: mem_get_def mem_set_def mem_delete_def new_memory_store_def Let_def)

section \<open>The server\<close>

record exchange_case =
  xc_command :: bytes
  xc_want :: bytes

definition tcp_steps :: "exchange_case list" where
  "tcp_steps =
     [\<lparr>xc_command = ''SET name alice'', xc_want = ''OK''\<rparr>,
      \<lparr>xc_command = ''GET name'', xc_want = ''alice''\<rparr>,
      \<lparr>xc_command = ''SET name alice smith'', xc_want = ''OK''\<rparr>,
      \<lparr>xc_command = ''GET name'', xc_want = ''alice smith''\<rparr>,
      \<lparr>xc_command = ''DEL name'', xc_want = ''1''\<rparr>,
      \<lparr>xc_command = ''GET name'', xc_want = ''(nil)''\<rparr>,
      \<lparr>xc_command = ''DEL name'', xc_want = ''0''\<rparr>,
      \<lparr>xc_command = ''BOGUS x'', xc_want = ''ERR unknown command '' @ [CHR 0x22] @ ''BOGUS'' @ [CHR 0x22]\<rparr>,
      \<lparr>xc_command = ''GET'', xc_want = ''ERR GET takes exactly one key''\<rparr>]"

lemma tcp_parses:
  "parse ''SET name alice smith'' = Inr \<lparr>cmd_op = OpSet, cmd_key = ''name'', cmd_value = ''alice smith''\<rparr>"
  "parse ''BOGUS x'' = Inl (UnknownCommand ''BOGUS'')"
  "reply_error (error_text p (UnknownCommand ''BOGUS'')) =
     ''ERR unknown command '' @ [CHR 0x22] @ ''BOGUS'' @ [CHR 0x22, newline]"
  by (simp_all add: line_eval reply_error_def error_text_def quote_def escape_rune_def is_print_def rune_error_def)

lemmas answer_eval =
  answer_def execute_def memory_ops_def mem_get_def mem_set_def mem_delete_def new_memory_store_def reply_ok_def
  reply_value_def reply_nil_def reply_int_small

lemma test_commands_over_tcp:
  "fst (handle p memory_ops (\<lambda>_. True) (wire (map xc_command tcp_steps)) new_memory_store) =
     map (\<lambda>x. xc_want x @ [newline]) tcp_steps"
proof -
  have "scan (wire (map xc_command tcp_steps) @ []) = map drop_cr (map xc_command tcp_steps) @ scan []"
    by (rule scan_wire) (simp add: tcp_steps_def sendable_def max_token_def)
  then have "scan (wire (map xc_command tcp_steps)) = map xc_command tcp_steps"
    by (simp add: tcp_steps_def drop_cr_def)
  then show ?thesis
    by (simp add: handle_def tcp_steps_def answer_eval captured_parses tcp_parses captured_errors)
qed

section \<open>Many clients at once\<close>

text \<open>\<open>TestConcurrentClients\<close>: every client writes and reads back a key of its own.\<close>

definition client_script :: "bytes \<Rightarrow> bytes list \<Rightarrow> bytes list" where
  "client_script key vals = concat (map (\<lambda>v. [''SET '' @ key @ '' '' @ v, ''GET '' @ key]) vals)"

definition wanted :: "bytes list \<Rightarrow> bytes list" where
  "wanted vals = concat (map (\<lambda>v. [''OK'' @ [newline], v @ [newline]]) vals)"

definition test_clients :: "nat \<Rightarrow> nat \<Rightarrow> nat \<Rightarrow> bytes list" where
  "test_clients clients ops g =
     (if g < clients then client_script (''k'' @ dec g) (map (\<lambda>i. ''v'' @ dec i) [0..<ops]) else [])"

lemma dec_plain: "c \<in> set (dec n) \<Longrightarrow> c \<noteq> CHR '' '' \<and> c \<noteq> return \<and> c \<noteq> newline"
  using dec_digits [of c n] by (auto simp: is_digit_def between_def byte_def)

lemma dec_ends: "last (dec n) \<noteq> return \<and> last (dec n) \<noteq> newline"
  using dec_plain [of "last (dec n)" n] by simp

lemma script_parses:
  "parse (''SET '' @ (''k'' @ dec g) @ '' '' @ ''v'' @ dec i) =
     Inr \<lparr>cmd_op = OpSet, cmd_key = ''k'' @ dec g, cmd_value = ''v'' @ dec i\<rparr>"
  "parse (''GET '' @ ''k'' @ dec g) = Inr \<lparr>cmd_op = OpGet, cmd_key = ''k'' @ dec g, cmd_value = []\<rparr>"
proof -
  have key: "CHR '' '' \<notin> set (dec n)" for n using dec_plain by blast
  show "parse (''SET '' @ (''k'' @ dec g) @ '' '' @ ''v'' @ dec i) =
     Inr \<lparr>cmd_op = OpSet, cmd_key = ''k'' @ dec g, cmd_value = ''v'' @ dec i\<rparr>"
    using parse_command_line [of "\<lparr>cmd_op = OpSet, cmd_key = ''k'' @ dec g, cmd_value = ''v'' @ dec i\<rparr>" "[]"]
      dec_ends [of i] key by (simp add: command_line_def arguments_def well_formed_def eol_free_def)
  show "parse (''GET '' @ ''k'' @ dec g) = Inr \<lparr>cmd_op = OpGet, cmd_key = ''k'' @ dec g, cmd_value = []\<rparr>"
    using parse_command_line [of "\<lparr>cmd_op = OpGet, cmd_key = ''k'' @ dec g, cmd_value = []\<rparr>" "[]"]
      dec_ends [of g] key by (simp add: command_line_def arguments_def well_formed_def eol_free_def)
qed

lemma script_answers:
  "fst (answer_lines p memory_ops (\<lambda>_. True) n (client_script (''k'' @ dec g) (map (\<lambda>i. ''v'' @ dec i) is)) s) =
     wanted (map (\<lambda>i. ''v'' @ dec i) is)"
proof (induction "is" arbitrary: n s)
  case (Cons i "is")
  let ?l = "''SET '' @ (''k'' @ dec g) @ '' '' @ ''v'' @ dec i" and ?k = "''GET '' @ ''k'' @ dec g"
  have "answer p memory_ops ?l s = (''OK'' @ [newline], mem_set (''k'' @ dec g) (''v'' @ dec i) s)"
    unfolding answer_def script_parses by (simp add: execute_def memory_ops_def reply_ok_def)
  moreover have "answer p memory_ops ?k (mem_set (''k'' @ dec g) (''v'' @ dec i) s) =
      ((''v'' @ dec i) @ [newline], mem_set (''k'' @ dec g) (''v'' @ dec i) s)"
    unfolding answer_def script_parses by (simp add: execute_def memory_ops_def reply_value_def mem_get_def mem_set_def)
  ultimately show ?case
    using Cons.IH by (simp add: client_script_def wanted_def case_prod_beta)
qed (simp add: client_script_def wanted_def)

lemma answer_lines_take:
  "fst (answer_lines p st (\<lambda>_. True) n (take m ls) s) = take m (fst (answer_lines p st (\<lambda>_. True) n ls s))"
  by (induction ls arbitrary: n m s) (simp_all add: take_Cons case_prod_beta split: nat.split)

lemma script_keys:
  "l \<in> set (test_clients clients ops g) \<Longrightarrow> touches l k \<Longrightarrow> k = ''k'' @ dec g"
  using script_parses by (auto simp: test_clients_def client_script_def touches_def split: if_splits sum.splits)

text \<open>In every interleaving the replies a client has are the first of those it wants.\<close>

lemma test_concurrent_clients:
  assumes "serving_run p (serving_start (test_clients clients ops)) s" "g < clients"
  shows "replies s g = take (length (replies s g)) (wanted (map (\<lambda>i. ''v'' @ dec i) [0..<ops]))"
proof -
  let ?in = "test_clients clients ops"
  have inv: "serving_inv p ?in s" using serving_inv_run [OF assms(1) serving_inv_start] .
  have "\<forall>h k. h \<noteq> g \<longrightarrow> (\<forall>l \<in> set (?in h). \<forall>l' \<in> set (?in g). writes_key l k \<longrightarrow> \<not> touches l' k)"
    using script_keys untouched by (metis append_same_eq dec_inject same_append_eq)
  note alone = alone_in_run [OF inv this]
  have script: "?in g = client_script (''k'' @ dec g) (map (\<lambda>i. ''v'' @ dec i) [0..<ops])"
    by (simp only: test_clients_def assms(2) if_True)
  have
    "take (length (of_conn g (history s))) (wanted (map (\<lambda>i. ''v'' @ dec i) [0..<ops])) = replies s g @ due g s"
    using alone(1) unfolding script answer_lines_take script_answers .
  from arg_cong [OF this, of "take (length (replies s g))"] alone(2) show ?thesis
    by (simp add: min_def)
qed

section \<open>The console's server\<close>

text \<open>The body that the tests build around a command, and the reply to it in front of a store.\<close>

definition test_body :: "bytes \<Rightarrow> bytes" where
  "test_body cmd = ''{'' @ quoted ''command'' @ '':'' @ quoted cmd @ ''}''"

definition test_post :: "(nat \<Rightarrow> bool) \<Rightarrow> bytes \<Rightarrow> memory_store \<Rightarrow> http_reply \<times> memory_store" where
  "test_post p cmd s =
     (let serve = (\<lambda>bs. handle p memory_ops (\<lambda>_. True) bs s);
          (r, sent) = handle_cmd ''kv'' True True (\<lambda>bs. concat (fst (serve bs))) (decode_command (test_body cmd))
      in (r, snd (serve sent)))"

fun test_posts :: "(nat \<Rightarrow> bool) \<Rightarrow> bytes list \<Rightarrow> memory_store \<Rightarrow> http_reply list" where
  "test_posts p [] s = []"
| "test_posts p (c # cs) s = (case test_post p c s of (r, s1) \<Rightarrow> r # test_posts p cs s1)"

definition bridge_steps :: "exchange_case list" where
  "bridge_steps =
     [\<lparr>xc_command = ''SET name alice smith'', xc_want = ''OK''\<rparr>,
      \<lparr>xc_command = ''GET name'', xc_want = ''alice smith''\<rparr>,
      \<lparr>xc_command = ''DEL name'', xc_want = ''1''\<rparr>,
      \<lparr>xc_command = ''GET name'', xc_want = ''(nil)''\<rparr>]"

lemma decode_test_body:
  assumes "plain_literal (map byte cmd)"
  shows "decode_command (test_body cmd) = Some (go_unquote cmd)"
proof -
  have "map byte (test_body cmd) = 123 # 34 # map byte ''command'' @ 34 # 58 # 34 # map byte cmd @ 34 # 125 # []"
    by (simp add: test_body_def quoted_def byte_def)
  with one_member [OF command_plain(1) assms, of max_nesting "[]"] show ?thesis
    by (simp add: decode_command_def max_nesting_def named_command del: list.map(2) go_unquote.simps(2))
qed

lemma go_unquote_plain: "\<forall>c \<in> set s. byte c < 128 \<and> c \<noteq> backslash \<Longrightarrow> go_unquote s = s"
  by (induction s) (simp_all add: go_unquote_ascii del: go_unquote.simps(2))

lemma decode_plain_body:
  assumes "\<forall>c \<in> set cmd. 32 \<le> byte c \<and> byte c < 128 \<and> byte c \<noteq> 34 \<and> byte c \<noteq> 92"
  shows "decode_command (test_body cmd) = Some cmd"
proof -
  have "plain_literal (map byte cmd)" using assms by (intro plain_characters) auto
  moreover have "go_unquote cmd = cmd" using assms not_backslash by (intro go_unquote_plain) blast
  ultimately show ?thesis using decode_test_body by simp
qed

lemma test_post_plain:
  assumes "\<forall>c \<in> set cmd. 32 \<le> byte c \<and> byte c < 128 \<and> byte c \<noteq> 34 \<and> byte c \<noteq> 92" "trim_space cmd = cmd" "cmd \<noteq> []"
    "length cmd < max_token" "one_line (fst (answer p memory_ops cmd s))"
  shows "test_post p cmd s =
    (HttpResult cmd (trim_eol (fst (answer p memory_ops cmd s))), snd (answer p memory_ops cmd s))"
proof -
  have no: "newline \<notin> set cmd" "return \<notin> set cmd" using assms(1) by (auto simp: byte_def)
  have "handle p memory_ops (\<lambda>_. True) (cmd @ [newline]) s = ([fst (answer p memory_ops cmd s)], snd (answer p memory_ops cmd s))"
    using scan_one [OF no assms(4)] by (simp add: handle_def case_prod_beta)
  moreover have "read_string (fst (answer p memory_ops cmd s)) = Some (fst (answer p memory_ops cmd s))"
    using read_one_line [OF assms(5), of "[]"] by simp
  ultimately show ?thesis
    by (simp add: test_post_def handle_cmd_def decode_plain_body [OF assms(1)] assms(2,3) no)
qed

lemma steps_trim:
  "trim_space ''SET name alice smith'' = ''SET name alice smith''" "trim_space ''GET name'' = ''GET name''"
  "trim_space ''DEL name'' = ''DEL name''" "trim_space ''GET x'' = ''GET x''"
  by (simp_all add: trim_space_def decode_ascii byte_def is_space_def between_def after_rune_def rune_bytes_def)

lemmas post_eval = test_post_plain captured_parses tcp_parses(1) steps_trim answer_eval one_line_def max_token_def byte_def

lemma test_bridge_round_trip:
  "test_posts p (map xc_command bridge_steps) new_memory_store =
     map (\<lambda>x. HttpResult (xc_command x) (xc_want x)) bridge_steps"
  by (simp add: bridge_steps_def post_eval trim_eol_def)

text \<open>
  \<open>TestBridgeRejectsBadInput\<close> and \<open>TestBridgeServerDown\<close>: the status, and that nothing was sent. The
  line break in the third body is an escape of JSON.
\<close>

lemma decode_hello: "decode_command ''hello'' = None"
  by (simp add: decode_command_def first_value_def) (subst json_run.simps, simp add: next_token_def json_space_def
      punctuation_def scan_word_def scan_number_def then_scan_def scan_sign_def scan_int_def scan_digits_def digit_def
      between_def byte_def)

lemma go_unquote_newline: "go_unquote (backslash # CHR ''n'' # s) = newline # go_unquote s"
  by (simp add: escape_letters_def byte_def) (simp add: char_of_eq_iff take_bit_eq_mod)

lemma test_bridge_rejects:
  "handle_cmd kv d w peer (decode_command ''hello'') = (HttpError 400 ''bad request body'', [])"
  "handle_cmd kv d w peer (decode_command (test_body [])) = (HttpError 400 ''send exactly one command line'', [])"
  "handle_cmd kv d w peer (decode_command (test_body (''GET a'' @ [backslash] @ ''nGET b''))) =
     (HttpError 400 ''send exactly one command line'', [])"
proof -
  show "handle_cmd kv d w peer (decode_command ''hello'') = (HttpError 400 ''bad request body'', [])"
    by (simp add: decode_hello handle_cmd_def)
  show "handle_cmd kv d w peer (decode_command (test_body [])) = (HttpError 400 ''send exactly one command line'', [])"
    using decode_plain_body [of "[]"] by (simp add: handle_cmd_def trim_space_def)
  let ?cmd = "''GET a'' @ [backslash] @ ''nGET b''" and ?two = "''GET a'' @ [newline] @ ''GET b''"
  have "plain_literal (map byte ''GET a'')" "plain_literal (map byte ''GET b'')"
    by (simp_all add: plain_characters byte_def)
  moreover have "plain_literal [92, 110]"
    by (intro plain_literal.intros) (simp_all add: escape_letters_def)
  ultimately have "plain_literal (map byte ''GET a'' @ [92, 110] @ map byte ''GET b'')"
    by (intro plain_literal_append)
  then have "plain_literal (map byte ?cmd)" by (simp add: byte_def)
  moreover have "go_unquote ?cmd = ?two"
    by (simp add: go_unquote_ascii go_unquote_newline byte_def del: go_unquote.simps(2))
  moreover have "trim_space ?two = ?two"
    by (simp add: trim_space_def decode_ascii byte_def is_space_def between_def after_rune_def rune_bytes_def)
  ultimately show "handle_cmd kv d w peer (decode_command (test_body ?cmd)) = (HttpError 400 ''send exactly one command line'', [])"
    using decode_test_body [of ?cmd] by (simp add: handle_cmd_def)
qed

lemma test_bridge_server_down:
  "handle_cmd ''127.0.0.1:1'' False w peer (decode_command (test_body ''GET x'')) =
     (HttpError 502 ''kvstore server is not reachable at 127.0.0.1:1'', [])"
  using decode_plain_body [of "''GET x''"] by (simp add: handle_cmd_def steps_trim byte_def)

section \<open>What the page says of the tests\<close>

record recorded_tests =
  rt_functions :: nat
  rt_results :: nat
  rt_failures :: nat
  rt_files :: "string list"

definition tests_recorded :: recorded_tests where
  "tests_recorded = \<lparr>rt_functions = 15, rt_results = 28, rt_failures = 0,
     rt_files = [''store/store_test.go'', ''server/server_test.go'', ''protocol/protocol_test.go'', ''cmd/kvstore-web/main_test.go'']\<rparr>"

text \<open>Every test function reports, and \<open>TestParse\<close> once more for each of its cases.\<close>

lemma results_are_counted: "rt_results tests_recorded = rt_functions tests_recorded + length parse_cases"
  by (simp add: tests_recorded_def parse_cases_def)

end
