(* ===== verification/Spec2Isabelle.thy ===== *)
theory Spec2Isabelle
  imports
    KitPlayer KitReenter KitHtml KitTheme KitLoad KitWash KitStart
    GoMem GoRefs GoHost GoRun GoText GoCalls GoCallLaws GoStrings GoSound GoShim GoStart
    Store Protocol Server ServerRun ServerConc ServerLive ServerIso ServerWhole ServerMain
    Utf8 Json WasmBridge KvWeb ConsolePage Recorded DemoPage Bench BenchRun BenchClock BenchMain
    GoTests
begin

text \<open>
  Kvasir is a small in-memory key value server in Go that speaks a line protocol over TCP, and a
  demo site under docs/ that runs the same Go packages in the browser. The development follows the
  parts of the program:

    \<^item> docs/kit.js, the script of the demo page, one theory for each function of \<open>window.Kit\<close>;
    \<^item> docs/wasm_exec.js, the runtime support that lets a Go program hold JavaScript values and call
      into JavaScript;
    \<^item> docs/index.html with docs/data, the demo page and the session recorded for it;
    \<^item> store/, protocol/, server/, the server's three packages;
    \<^item> docs/wasm/main.go and cmd/kvstore-web, the two other ways into those packages: the page
      calls the bridge in process, the console posts each command as JSON to a small HTTP server,
      which opens a TCP connection for it;
    \<^item> cmd/kvstore, the command that starts the server and stops it on an interrupt;
    \<^item> bench/, the load generator.

  They interact as the code does: the server parses a line (Protocol), runs the command against the
  interface \<open>Store\<close> (locale \<open>kv_store\<close>), and writes the reply; the bridge and the console are
  clients of the same definitions.

  Prelude. UTF-16 strings, JavaScript numbers, decimal text, and two contracts stated as locales:
  \<open>guarded_machine\<close> and \<open>machine\<close> (a step function that keeps an invariant, lifted once to all runs)
  and \<open>oneshot_queue\<close> (timers and animation frames, of which a client remembers one handle). Every
  component that is a state machine interprets one of them.

  KitDom, KitPlayer. The elements a script writes and \<open>Kit.stepPlayer\<close>: the closure as a record, each
  inner function as a definition of nearly the same name, \<open>dispatch\<close> for every event that can reach
  a mounted player, \<open>step_player\<close> for mounting. The page's \<open>onRender\<close> is a parameter. The lemmas show
  the timer discipline, that the page shows the state, a refinement of an abstract player of three
  variables, the end of autoplay, that a step change is announced once, and what destroying does.
  In KitPlayer the callback is a function on the elements it is given, so a callback that calls the
  player back while it runs cannot be written there. KitReenter has the same inner functions over a
  rendering that is an argument (locale \<open>painter\<close>), and a callback that is a tree of what it does: it
  paints, raises events, returns or throws, nested to any depth of the stack. It agrees with KitPlayer
  on callbacks that leave the player alone, and keeps the discipline of the timer and the counters.

  KitHtml, KitTheme, KitLoad, KitWash. \<open>Kit.escapeHtml\<close> with \<open>Kit.recordedRunBadge\<close>, \<open>Kit.theme\<close>,
  \<open>Kit.loadData\<close> and \<open>Kit.heroWash\<close>. The environment (storage that throws, a fetch that fails, media
  queries, the rounding of double arithmetic) is a record or a parameter, and the properties hold for
  every one of them; \<open>DEMO_DATA\<close> has properties of its own and inherited ones. KitStart has the guard against loading the script twice and \<open>autoInit\<close>, over
  a page whose document may still be loading; the page is wired exactly once.

  GoMem, GoRefs. The linear memory as bytes; doubles as bit patterns; \<open>setInt64\<close> and \<open>getInt64\<close>; the
  table of values that \<open>storeValue\<close>, \<open>loadValue\<close> and \<open>finalizeRef\<close> keep. A ghost list of the
  references that Go holds states what the table must be: every held reference is valid, identifiers
  are shared exactly by equal values, and what is not held is released.

  GoHost, GoRun. The console output of the fs shim, the timeouts of the Go scheduler with \<open>_resume\<close>
  (what Go does when it is resumed is a parameter, a list of its calls; the delays are left out), and
  the layout of arguments and environment that \<open>run\<close> writes.

  GoText, GoCalls, GoCallLaws. \<open>loadString\<close>'s UTF-8 decoder as the WHATWG standard has it, and every
  function of the import object that Go's \<open>syscall/js\<close> and runtime use. What a JavaScript
  operation does is a parameter: it answers or throws, may change the heap of the page, and may call
  Go again, which moves Go's stack and writes memory before the answer is stored. The lemmas say
  where an answer is stored, what reaches Go, and that nothing does after its exit. GoStrings follows a
  text through \<open>valuePrepareString\<close>, \<open>valueLoadString\<close> and \<open>stringVal\<close>, from the page to Go and back.

  GoSound. The import object as a whole, and a program as any sequence of its own work and of imports,
  which page and program may nest. A calculus of operations that keep an invariant carries the
  soundness of the table of values through every import, to every depth of nesting.

  GoShim, GoStart. The \<open>fs\<close>, \<open>process\<close> and \<open>path\<close> stand-ins with the demands the script makes of its
  host, and \<open>run\<close> as a whole: the layout, the table of values at the start, the first resumption and
  the promise that the exit settles.

  Store. The interface as locale \<open>kv_store\<close>, \<open>MemoryStore\<close> as its interpretation \<open>mst\<close>, and
  \<open>MemoryStore\<close> under its \<open>RWMutex\<close> as a step relation over any number of goroutines, with a trail of
  results that is shown to be a sequential history. The lock admits readers whenever no writer holds
  it; the preference of Go's lock for waiting writers allows fewer runs.

  Protocol. \<open>Parse\<close> and the replies on bytes, with the functions of Go's library that they use: UTF-8
  decoding, \<open>TrimRight\<close>, \<open>TrimSpace\<close>, \<open>SplitN\<close>, \<open>ToUpper\<close>, \<open>%q\<close>. The table of printable runes above
  U+00FF is the parameter \<open>printable\<close>, on which nothing depends. Errors are the datatype
  \<open>parse_error\<close>.

  Server. \<open>bufio.Scanner\<close> with its buffer of \<open>max_token\<close> = 65536 bytes, \<open>execute\<close> over a record of store
  operations, and the loop of \<open>handle\<close>, where any write may fail. \<open>handle\<close> is shown to refine its
  instance on a plain map inside locale \<open>kv_store\<close>.

  ServerRun. \<open>Serve\<close>, the handlers' deferred clean-up and \<open>Shutdown\<close> as one interleaved step relation,
  its invariant by rule induction, and the run that ends every shutdown.

  ServerConc. The handlers of many connections, interleaved at the granularity of the lock steps of
  Store; every interleaving answers as some sequence of whole commands does. ServerLive counts the
  steps that are left: every run ends, and only when every line has been answered. ServerIso shows
  that connections with keys of their own are answered as if they were alone. ServerWhole puts the
  conversations inside the life cycle of ServerRun, with writes that fail and a shutdown at any moment.

  ServerMain. \<open>main\<close> of cmd/kvstore over the life cycle of ServerRun: its \<open>select\<close>, the interrupt and
  the one call of \<open>Shutdown\<close>.

  WasmBridge, KvWeb. \<open>eval\<close> with its list of remembered keys, compared with the server's loop; and
  \<open>handleCmd\<close> in front of \<open>handle\<close>.

  Utf8, Json, ConsolePage. Strings between Go and JavaScript; the JSON grammar with the reading and
  writing of string literals on both sides (nesting limited to 10000 in Go, unlimited in JavaScript);
  and the console: the script of its page, the routes and bodies of its HTTP server. What the log
  shows is compared with the server's answers, without HTTP, JSON or connections.

  The console's own connection is one that can be opened and written to: what the page shows when it
  cannot is in \<open>handle_cmd\<close> and \<open>serve_http\<close>, but not in the whole of page and server.

  Recorded, DemoPage. The recorded session of docs/data/kvstore.js, replayed on the definitions of
  Protocol and Server, and the script of docs/index.html, which evaluates commands with the bridge
  or, when the program did not start, plays the recording.

  Bench, BenchRun, BenchClock, BenchMain. The pure functions of the load generator (flags' lists, key
  names, percentiles, medians); its clients, any number of them, against the server of ServerConc, each
  with one outstanding request; the scaling of the Windows counter in 64-bit words; and the sweep over
  workloads and client counts with the table it prints, whose rows are medians. The listener of the
  harness can be opened, and the numbers of keys, bytes, operations and runs are natural: a negative
  flag, which Go's loops and \<open>make\<close> treat as nothing or with a panic, is left out. Rates are rationals: a phase that takes no time
  counts 0 here, where Go's division of doubles gives an infinity.

  GoTests. The repository's own tests, run on these definitions; the concurrent one for every
  interleaving.

  Bounds and fuel. Recursion is structural or decreases the length of the input. The loop of a timer
  callback ends only when Go clears its timeout: it consumes the list of what Go does, and a list that
  does not clear it leaves the outcome \<open>LoopGoesOn\<close>. Machine words are kept at their width in GoMem and GoRefs; a table of values is bounded by
  the \<open>2 ^ 32 - 1\<close> elements of a JavaScript array, a reference count by the memory that holds the
  references. Strings of the kit are code units, strings of the server are bytes.

  Not modelled: flags, logging and the library's servers (\<open>ListenAndServe\<close>, \<open>Listen\<close>); the lines the
  benchmark prints above its table, and connections that break half way through one of its requests; of
  docs/wasm_exec.js the growth of the memory (\<open>resetMemoryDataView\<close>: compiled Go code calls it right
  after it has grown its memory, which is not code of this repository, so the model has one memory) and
  typed arrays that lie over the linear memory; the build figures in docs/data, which are results of
  other machines; style sheets, diagrams and texts; and the network itself, which appears as the bytes
  that arrive, the writes that succeed and the order of the steps.
\<close>

end
